(* ===== verification/Agate_Prelude.thy ===== *)
theory Agate_Prelude
  imports Main "HOL-Library.Word" "HOL-Library.Monad_Syntax" "HOL-Library.Sublist"
begin

text \<open>
  Shared vocabulary of the development: bytes, Rust's \<^verbatim>\<open>Result\<close> as a sum type
  (\<^term>\<open>Inl\<close> is \<^verbatim>\<open>Err\<close>, \<^term>\<open>Inr\<close> is \<^verbatim>\<open>Ok\<close>), the operations of the Rust
  standard library on slices and strings that the crates use, and the lemma
  collections the component theories extend.

  A Rust \<^verbatim>\<open>String\<close> is the \<^typ>\<open>string\<close> of its UTF-8 bytes, so that \<^verbatim>\<open>len()\<close> is
  \<^term>\<open>length\<close> and substring search is byte search, as in Rust.
\<close>

unbundle bit_operations_syntax

section \<open>Types\<close>

type_synonym byte = "8 word"
type_synonym bytes = "8 word list"
type_synonym usize = "64 word"
type_synonym u64 = "64 word"
type_synonym i64 = "64 word"

type_synonym ('e, 'a) result = "'e + 'a"

named_theorems agate_simps \<open>unfolding rules of the small accessors\<close>
named_theorems agate_invs \<open>preservation lemmas of the component invariants\<close>

section \<open>Results\<close>

definition ok_or :: "'e \<Rightarrow> 'a option \<Rightarrow> ('e, 'a) result" where
  "ok_or e x = (case x of None \<Rightarrow> Inl e | Some a \<Rightarrow> Inr a)"

definition and_then :: "('e, 'a) result \<Rightarrow> ('a \<Rightarrow> ('e, 'b) result) \<Rightarrow> ('e, 'b) result" where
  "and_then r f = (case r of Inl e \<Rightarrow> Inl e | Inr a \<Rightarrow> f a)"

definition map_err :: "('e \<Rightarrow> 'f) \<Rightarrow> ('e, 'a) result \<Rightarrow> ('f, 'a) result" where
  "map_err g r = (case r of Inl e \<Rightarrow> Inl (g e) | Inr a \<Rightarrow> Inr a)"

definition is_ok :: "('e, 'a) result \<Rightarrow> bool" where
  "is_ok r = (case r of Inl _ \<Rightarrow> False | Inr _ \<Rightarrow> True)"

lemma ok_or_simps [simp]:
  "ok_or e None = Inl e"
  "ok_or e (Some a) = Inr a"
  by (simp_all add: ok_or_def)

lemma and_then_simps [simp]:
  "and_then (Inl e) f = Inl e"
  "and_then (Inr a) f = f a"
  by (simp_all add: and_then_def)

lemma map_err_simps [simp]:
  "map_err g (Inl e) = Inl (g e)"
  "map_err g (Inr a) = Inr a"
  by (simp_all add: map_err_def)

lemma is_ok_simps [simp]:
  "is_ok (Inl e) = False"
  "is_ok (Inr a) = True"
  by (simp_all add: is_ok_def)

lemma ok_or_eq_Inr [simp]: "ok_or e x = Inr a \<longleftrightarrow> x = Some a"
  by (cases x) simp_all

lemma and_then_eq_Inr: "and_then r f = Inr b \<longleftrightarrow> (\<exists>a. r = Inr a \<and> f a = Inr b)"
  by (cases r) simp_all

text \<open>\<^verbatim>\<open>collect\<close> into a \<^verbatim>\<open>Result\<close>: the first error, or all values.\<close>

fun collect :: "('a \<Rightarrow> ('e, 'b) result) \<Rightarrow> 'a list \<Rightarrow> ('e, 'b list) result" where
  "collect f [] = Inr []"
| "collect f (x # xs) = and_then (f x) (\<lambda>y. and_then (collect f xs) (\<lambda>ys. Inr (y # ys)))"

lemma collect_Inr: "collect f xs = Inr ys \<longleftrightarrow> list_all2 (\<lambda>x y. f x = Inr y) xs ys"
  by (induction xs arbitrary: ys) (auto simp: and_then_eq_Inr list_all2_Cons1)

section \<open>Slices\<close>

text \<open>\<^verbatim>\<open>slice::split_last\<close>: the last element and the rest.\<close>

definition split_last :: "'a list \<Rightarrow> ('a \<times> 'a list) option" where
  "split_last xs = (if xs = [] then None else Some (last xs, butlast xs))"

lemma split_last_Nil [simp]: "split_last [] = None"
  by (simp add: split_last_def)

lemma split_last_snoc [simp]: "split_last (xs @ [x]) = Some (x, xs)"
  by (simp add: split_last_def)

lemma split_last_eq_Some: "split_last xs = Some (y, ys) \<longleftrightarrow> xs = ys @ [y]"
  by (auto simp: split_last_def)

lemma append_inj_left_len:
  "length xs = length us \<Longrightarrow> xs @ ys = us @ vs \<longleftrightarrow> xs = us \<and> ys = vs"
  by (rule append_eq_append_conv) simp

section \<open>Decimal rendering\<close>

text \<open>\<^verbatim>\<open>{}\<close> of an unsigned integer.\<close>

definition digit_char :: "nat \<Rightarrow> char" where
  "digit_char n = char_of (48 + n mod 10)"

fun show_nat :: "nat \<Rightarrow> string" where
  "show_nat n = (if n < 10 then [digit_char n] else show_nat (n div 10) @ [digit_char n])"

declare show_nat.simps [simp del]

definition show_int :: "int \<Rightarrow> string" where
  "show_int i = (if i < 0 then CHR ''-'' # show_nat (nat (- i)) else show_nat (nat i))"

section \<open>Strings\<close>

text \<open>Unicode \<^verbatim>\<open>White_Space\<close> as UTF-8 byte sequences, for \<^verbatim>\<open>char::is_whitespace\<close>: the
  ASCII ones, U+0085, U+00A0, U+1680, U+2000 to U+200A, U+2028, U+2029, U+202F,
  U+205F and U+3000.\<close>

definition ascii_ws :: "char \<Rightarrow> bool" where
  "ascii_ws c = (let n = of_char c :: nat in n = 32 \<or> (9 \<le> n \<and> n \<le> 13))"

definition ws2 :: "nat \<Rightarrow> nat \<Rightarrow> bool" where
  "ws2 a b = (a = 0xC2 \<and> (b = 0x85 \<or> b = 0xA0))"

definition ws3 :: "nat \<Rightarrow> nat \<Rightarrow> nat \<Rightarrow> bool" where
  "ws3 a b c =
    ((a = 0xE1 \<and> b = 0x9A \<and> c = 0x80) \<or>
     (a = 0xE2 \<and> b = 0x80 \<and> (0x80 \<le> c \<and> c \<le> 0x8A \<or> c = 0xA8 \<or> c = 0xA9 \<or> c = 0xAF)) \<or>
     (a = 0xE2 \<and> b = 0x81 \<and> c = 0x9F) \<or>
     (a = 0xE3 \<and> b = 0x80 \<and> c = 0x80))"

text \<open>The number of bytes of the whitespace character a string starts with, 0 if it
  does not start with one.\<close>

fun ws_len :: "string \<Rightarrow> nat" where
  "ws_len [] = 0"
| "ws_len (a # s) =
    (if ascii_ws a then 1
     else case s of
       [] \<Rightarrow> 0
     | b # t \<Rightarrow>
         if ws2 (of_char a) (of_char b) then 2
         else case t of
           [] \<Rightarrow> 0
         | c # _ \<Rightarrow> if ws3 (of_char a) (of_char b) (of_char c) then 3 else 0)"

fun ws_len_rev :: "string \<Rightarrow> nat" where
  "ws_len_rev [] = 0"
| "ws_len_rev (a # s) =
    (if ascii_ws a then 1
     else case s of
       [] \<Rightarrow> 0
     | b # t \<Rightarrow>
         if ws2 (of_char b) (of_char a) then 2
         else case t of
           [] \<Rightarrow> 0
         | c # _ \<Rightarrow> if ws3 (of_char c) (of_char b) (of_char a) then 3 else 0)"

lemma ws_len_le: "ws_len s \<le> length s"
  by (cases s) (auto split: list.splits)

lemma ws_len_rev_le: "ws_len_rev s \<le> length s"
  by (cases s) (auto split: list.splits)

text \<open>\<^verbatim>\<open>str::trim_start\<close>, the same from the end over the reversed bytes, and \<^verbatim>\<open>str::trim\<close>.\<close>

function trim_start :: "string \<Rightarrow> string" where
  "trim_start s = (if ws_len s = 0 then s else trim_start (drop (ws_len s) s))"
  by pat_completeness auto
termination
proof (relation "measure length", simp)
  fix s :: string
  assume "ws_len s \<noteq> 0"
  then show "(drop (ws_len s) s, s) \<in> measure length"
    using ws_len_le [of s] by simp
qed

function trim_rev :: "string \<Rightarrow> string" where
  "trim_rev s = (if ws_len_rev s = 0 then s else trim_rev (drop (ws_len_rev s) s))"
  by pat_completeness auto
termination
proof (relation "measure length", simp)
  fix s :: string
  assume "ws_len_rev s \<noteq> 0"
  then show "(drop (ws_len_rev s) s, s) \<in> measure length"
    using ws_len_rev_le [of s] by simp
qed

declare trim_start.simps [simp del] trim_rev.simps [simp del]

definition trim :: "string \<Rightarrow> string" where
  "trim s = rev (trim_rev (rev (trim_start s)))"

lemma trim_start_id: "ws_len s = 0 \<Longrightarrow> trim_start s = s"
  by (simp add: trim_start.simps)

lemma trim_rev_id: "ws_len_rev s = 0 \<Longrightarrow> trim_rev s = s"
  by (simp add: trim_rev.simps)

lemma ws_len_ascii: "(of_char a :: nat) < 128 \<Longrightarrow> \<not> ascii_ws a \<Longrightarrow> ws_len (a # s) = 0"
  by (auto simp: ws2_def ws3_def split: list.splits)

lemma ws_len_rev_ascii: "(of_char a :: nat) < 128 \<Longrightarrow> \<not> ascii_ws a \<Longrightarrow> ws_len_rev (a # s) = 0"
  by (auto simp: ws2_def ws3_def split: list.splits)

definition ascii_graph :: "char \<Rightarrow> bool" where
  "ascii_graph c \<longleftrightarrow> (of_char c :: nat) < 128 \<and> \<not> ascii_ws c"

lemma trim_ascii_id: "s \<noteq> [] \<Longrightarrow> ascii_graph (List.hd s) \<Longrightarrow> ascii_graph (last s) \<Longrightarrow> trim s = s"
proof -
  assume s: "s \<noteq> []" "ascii_graph (List.hd s)" "ascii_graph (last s)"
  then obtain a t where a: "s = a # t" "ascii_graph a" by (cases s) auto
  from s obtain b u where b: "rev s = b # u" "ascii_graph b" by (cases s rule: rev_cases) auto
  have "ws_len s = 0" using a unfolding ascii_graph_def by (metis ws_len_ascii)
  then have "trim_start s = s" by (rule trim_start_id)
  moreover have "ws_len_rev (rev s) = 0" using b unfolding ascii_graph_def by (metis ws_len_rev_ascii)
  then have "trim_rev (rev s) = rev s" by (rule trim_rev_id)
  ultimately show ?thesis by (simp add: trim_def)
qed

section \<open>Machine words\<close>

lemma unat_word_of_nat64: "n < 2 ^ 64 \<Longrightarrow> unat (word_of_nat n :: 64 word) = n"
  by (simp add: unat_of_nat)

lemma pow2_less_63: "(2 :: nat) ^ i < 2 ^ 63 \<Longrightarrow> i < 63"
  by (rule power_less_imp_less_exp [of 2]) simp_all

lemma unat_pow2: "j < 64 \<Longrightarrow> unat (2 ^ j :: 64 word) = 2 ^ j"
proof -
  assume "j < 64"
  then have "(2 :: nat) ^ j < 2 ^ 64" by (rule power_strict_increasing) simp
  then have "unat (word_of_nat (2 ^ j) :: 64 word) = 2 ^ j" by (rule unat_word_of_nat64)
  then show ?thesis by simp
qed

lemma le_2_63_less: "n \<le> 2 ^ 63 \<Longrightarrow> (n :: nat) < 2 ^ 64"
  by simp

section \<open>Fixed-width big-endian integers\<close>

text \<open>\<^verbatim>\<open>u64::to_be_bytes\<close> and \<^verbatim>\<open>i64::to_be_bytes\<close>: the eight bytes of the word, most
  significant first.\<close>

definition to_be_bytes :: "64 word \<Rightarrow> bytes" where
  "to_be_bytes w = map (\<lambda>i. ucast (drop_bit (8 * i) w)) [7, 6, 5, 4, 3, 2, 1, 0]"

lemma length_to_be_bytes [simp]: "length (to_be_bytes w) = 8"
  by (simp add: to_be_bytes_def)

lemma ucast_drop_bit_bits:
  "(ucast (drop_bit k v) :: 8 word) = ucast (drop_bit k w) \<Longrightarrow> i < 8 \<Longrightarrow>
    bit (v :: 64 word) (k + i) = bit w (k + i)"
  by (drule arg_cong [where f = "\<lambda>x. bit x i"]) (simp add: bit_simps)

lemma to_be_bytes_inject [simp]: "to_be_bytes v = to_be_bytes w \<longleftrightarrow> v = w"
proof
  assume eq: "to_be_bytes v = to_be_bytes w"
  show "v = w"
  proof (rule bit_word_eqI)
    fix n
    assume "n < LENGTH(64)"
    then have n: "n div 8 < 8" "n mod 8 < 8" "n = 8 * (n div 8) + n mod 8"
      by simp_all
    have "(ucast (drop_bit (8 * j) v) :: 8 word) = ucast (drop_bit (8 * j) w)"
      if "j < 8" for j
    proof -
      from that have "j \<in> {0, 1, 2, 3, 4, 5, 6, 7}" by auto
      with eq show ?thesis by (auto simp: to_be_bytes_def)
    qed
    from ucast_drop_bit_bits [OF this [OF n(1)] n(2)] n(3)
    show "bit v n = bit w n" by simp
  qed
qed simp

section \<open>Characters as bytes\<close>

lemma of_char_byte: "(of_char x :: 8 word) = word_of_nat (of_char x)"
  unfolding of_char_def by (simp only: horner_sum_simps of_nat_add of_nat_mult of_nat_of_bool of_nat_numeral semiring_1_class.of_nat_0)

lemma unat_of_char_byte: "unat (of_char x :: 8 word) = of_char x"
proof -
  have "(of_char x :: nat) < 2 ^ LENGTH(8)" by simp
  then show ?thesis unfolding of_char_byte unat_of_nat by (rule mod_less)
qed

lemma inj_of_char: "map (of_char :: char \<Rightarrow> 8 word) s = map of_char t \<longleftrightarrow> s = t"
proof (rule inj_map_eq_map, rule injI)
  fix c d
  assume "(of_char c :: 8 word) = of_char d"
  from arg_cong [OF this, of unat] have "(of_char c :: nat) = of_char d" by (simp only: unat_of_char_byte)
  then show "c = d" by (simp only: of_char_eq_iff)
qed

end
