(* ===== verification/Agate_Crypto.thy ===== *)
theory Agate_Crypto
  imports Agate_Prelude
begin

text \<open>
  The crypto crate (\<^verbatim>\<open>crates/agate-crypto\<close>): self-describing algorithm
  identifiers with their byte codes, digests and their hexadecimal form, the
  hasher, signer and AEAD strategies, and the five use-case handlers.

  The primitives themselves (RustCrypto digests, \<^verbatim>\<open>ed25519-dalek\<close>, the AEAD
  constructions) are parameters: functions carried by the records
  \<^verbatim>\<open>hash_backend\<close>, \<^verbatim>\<open>ed25519_backend\<close> and \<^verbatim>\<open>aead_backend\<close> below.  Cargo features are
  the booleans of \<^verbatim>\<open>features\<close>.
\<close>

section \<open>Algorithm identifiers\<close>

datatype hash_algo = Sha256 | Sha512 | Sha3_256 | Streebog256 | Streebog512

datatype sign_algo = Ed25519 | GostR3410_2012_256 | GostR3410_2012_512

datatype aead_algo = Aes256Gcm | ChaCha20Poly1305 | KuznyechikMgm | MagmaMgm

fun hash_code :: "hash_algo \<Rightarrow> byte" where
  "hash_code Sha256 = 1"
| "hash_code Sha512 = 2"
| "hash_code Sha3_256 = 3"
| "hash_code Streebog256 = 4"
| "hash_code Streebog512 = 5"

definition hash_from_code :: "byte \<Rightarrow> hash_algo option" where
  "hash_from_code c =
    (if c = 1 then Some Sha256
     else if c = 2 then Some Sha512
     else if c = 3 then Some Sha3_256
     else if c = 4 then Some Streebog256
     else if c = 5 then Some Streebog512
     else None)"

fun sign_code :: "sign_algo \<Rightarrow> byte" where
  "sign_code Ed25519 = 1"
| "sign_code GostR3410_2012_256 = 2"
| "sign_code GostR3410_2012_512 = 3"

definition sign_from_code :: "byte \<Rightarrow> sign_algo option" where
  "sign_from_code c =
    (if c = 1 then Some Ed25519
     else if c = 2 then Some GostR3410_2012_256
     else if c = 3 then Some GostR3410_2012_512
     else None)"

fun aead_code :: "aead_algo \<Rightarrow> byte" where
  "aead_code Aes256Gcm = 1"
| "aead_code ChaCha20Poly1305 = 2"
| "aead_code KuznyechikMgm = 3"
| "aead_code MagmaMgm = 4"

definition aead_from_code :: "byte \<Rightarrow> aead_algo option" where
  "aead_from_code c =
    (if c = 1 then Some Aes256Gcm
     else if c = 2 then Some ChaCha20Poly1305
     else if c = 3 then Some KuznyechikMgm
     else if c = 4 then Some MagmaMgm
     else None)"

fun key_len :: "aead_algo \<Rightarrow> nat" where
  "key_len Aes256Gcm = 32"
| "key_len ChaCha20Poly1305 = 32"
| "key_len KuznyechikMgm = 32"
| "key_len MagmaMgm = 32"

fun nonce_len :: "aead_algo \<Rightarrow> nat" where
  "nonce_len Aes256Gcm = 12"
| "nonce_len ChaCha20Poly1305 = 12"
| "nonce_len KuznyechikMgm = 16"
| "nonce_len MagmaMgm = 8"

fun tag_len :: "aead_algo \<Rightarrow> nat" where
  "tag_len Aes256Gcm = 16"
| "tag_len ChaCha20Poly1305 = 16"
| "tag_len KuznyechikMgm = 16"
| "tag_len MagmaMgm = 8"

section \<open>Digests, signatures, ciphertexts\<close>

record digest =
  dg_algo :: hash_algo
  dg_bytes :: bytes

record signature =
  sg_algo :: sign_algo
  sg_key_id :: string
  sg_bytes :: bytes

record ciphertext =
  ct_algo :: aead_algo
  ct_bytes :: bytes

text \<open>\<^verbatim>\<open>write!(s, "{b:02x}")\<close>: two lowercase hexadecimal digits per byte.\<close>

definition hex_digit :: "nat \<Rightarrow> char" where
  "hex_digit n = ''0123456789abcdef'' ! (n mod 16)"

definition hex_byte :: "byte \<Rightarrow> string" where
  "hex_byte b = [hex_digit (unat b div 16), hex_digit (unat b)]"

definition hex_encode :: "bytes \<Rightarrow> string" where
  "hex_encode bs = concat (map hex_byte bs)"

definition to_hex :: "digest \<Rightarrow> string" where
  "to_hex d = hex_encode (dg_bytes d)"

section \<open>Errors\<close>

datatype crypto_error =
    UnsupportedHash hash_algo
  | UnsupportedSignature sign_algo
  | UnsupportedAead aead_algo
  | InvalidKey string
  | InvalidNonce string
  | EncryptionFailed
  | DecryptionFailed

text \<open>The derived \<^verbatim>\<open>Debug\<close> of an identifier prints its variant.\<close>

fun hash_algo_debug :: "hash_algo \<Rightarrow> string" where
  "hash_algo_debug Sha256 = ''Sha256''"
| "hash_algo_debug Sha512 = ''Sha512''"
| "hash_algo_debug Sha3_256 = ''Sha3_256''"
| "hash_algo_debug Streebog256 = ''Streebog256''"
| "hash_algo_debug Streebog512 = ''Streebog512''"

fun sign_algo_debug :: "sign_algo \<Rightarrow> string" where
  "sign_algo_debug Ed25519 = ''Ed25519''"
| "sign_algo_debug GostR3410_2012_256 = ''GostR3410_2012_256''"
| "sign_algo_debug GostR3410_2012_512 = ''GostR3410_2012_512''"

fun aead_algo_debug :: "aead_algo \<Rightarrow> string" where
  "aead_algo_debug Aes256Gcm = ''Aes256Gcm''"
| "aead_algo_debug ChaCha20Poly1305 = ''ChaCha20Poly1305''"
| "aead_algo_debug KuznyechikMgm = ''KuznyechikMgm''"
| "aead_algo_debug MagmaMgm = ''MagmaMgm''"

fun show_crypto_error :: "crypto_error \<Rightarrow> string" where
  "show_crypto_error (UnsupportedHash a) = ''hash algorithm '' @ hash_algo_debug a @ '' is not enabled (check cargo features)''"
| "show_crypto_error (UnsupportedSignature a) =
    ''signature algorithm '' @ sign_algo_debug a @ '' is not enabled (check cargo features)''"
| "show_crypto_error (UnsupportedAead a) = ''AEAD algorithm '' @ aead_algo_debug a @ '' is not enabled (check cargo features)''"
| "show_crypto_error (InvalidKey msg) = ''invalid key: '' @ msg"
| "show_crypto_error (InvalidNonce msg) = ''invalid nonce: '' @ msg"
| "show_crypto_error EncryptionFailed = ''encryption failed''"
| "show_crypto_error DecryptionFailed = ''decryption failed (authentication error)''"

section \<open>Build features and third-party primitives\<close>

record features =
  f_sha2 :: bool
  f_sha3 :: bool
  f_streebog :: bool
  f_ed25519 :: bool
  f_aes_gcm :: bool
  f_chacha :: bool
  f_gost_cipher :: bool

type_synonym hash_backend = "hash_algo \<Rightarrow> bytes \<Rightarrow> bytes"

record ed25519_backend =
  dalek_sign :: "bytes \<Rightarrow> bytes \<Rightarrow> bytes"
  dalek_public :: "bytes \<Rightarrow> bytes"
  dalek_parse_key :: "bytes \<Rightarrow> (string, bytes) result"
  dalek_verify :: "bytes \<Rightarrow> bytes \<Rightarrow> bytes \<Rightarrow> bool"

record aead_backend =
  rc_accepts_key :: "aead_algo \<Rightarrow> bytes \<Rightarrow> bool"
  rc_encrypt :: "aead_algo \<Rightarrow> bytes \<Rightarrow> bytes \<Rightarrow> bytes \<Rightarrow> bytes \<Rightarrow> bytes option"
  rc_decrypt :: "aead_algo \<Rightarrow> bytes \<Rightarrow> bytes \<Rightarrow> bytes \<Rightarrow> bytes \<Rightarrow> bytes option"

section \<open>Hashing\<close>

text \<open>\<^verbatim>\<open>DigestHasher\<close>: an algorithm tag and a digest constructor.  One \<^verbatim>\<open>hash\<close> call
  makes a fresh state, feeds it the data and finalises it; \<^verbatim>\<open>hs_make\<close> is that
  composition.\<close>

record hasher =
  hs_algo :: hash_algo
  hs_make :: "bytes \<Rightarrow> bytes"

definition hash_data :: "hasher \<Rightarrow> bytes \<Rightarrow> digest" where
  "hash_data h data = \<lparr>dg_algo = hs_algo h, dg_bytes = hs_make h data\<rparr>"

definition resolve_hasher :: "features \<Rightarrow> hash_backend \<Rightarrow> hash_algo \<Rightarrow> (crypto_error, hasher) result" where
  "resolve_hasher fs mk a =
    (if (case a of
           Sha256 \<Rightarrow> f_sha2 fs
         | Sha512 \<Rightarrow> f_sha2 fs
         | Sha3_256 \<Rightarrow> f_sha3 fs
         | Streebog256 \<Rightarrow> f_streebog fs
         | Streebog512 \<Rightarrow> f_streebog fs)
     then Inr \<lparr>hs_algo = a, hs_make = mk a\<rparr>
     else Inl (UnsupportedHash a))"

definition handle_hash :: "features \<Rightarrow> hash_backend \<Rightarrow> hash_algo \<Rightarrow> bytes \<Rightarrow> (crypto_error, digest) result" where
  "handle_hash fs mk a data = and_then (resolve_hasher fs mk a) (\<lambda>h. Inr (hash_data h data))"

section \<open>Signing\<close>

record signer =
  sn_seed :: bytes
  sn_key_id :: string

record verifier =
  vf_key :: bytes

definition signer_sign :: "ed25519_backend \<Rightarrow> signer \<Rightarrow> bytes \<Rightarrow> signature" where
  "signer_sign be s data =
    \<lparr>sg_algo = Ed25519, sg_key_id = sn_key_id s, sg_bytes = dalek_sign be (sn_seed s) data\<rparr>"

definition verifier_from_public :: "ed25519_backend \<Rightarrow> bytes \<Rightarrow> (crypto_error, verifier) result" where
  "verifier_from_public be pk =
    map_err InvalidKey (and_then (dalek_parse_key be pk) (\<lambda>k. Inr \<lparr>vf_key = k\<rparr>))"

definition verifier_verify :: "ed25519_backend \<Rightarrow> verifier \<Rightarrow> bytes \<Rightarrow> signature \<Rightarrow> bool" where
  "verifier_verify be v data sg =
    (if sg_algo sg \<noteq> Ed25519 then False
     else if length (sg_bytes sg) \<noteq> 64 then False
     else dalek_verify be (vf_key v) data (sg_bytes sg))"

definition factory_signer :: "features \<Rightarrow> sign_algo \<Rightarrow> bytes \<Rightarrow> string \<Rightarrow> (crypto_error, signer) result" where
  "factory_signer fs a secret kid =
    (if a = Ed25519 \<and> f_ed25519 fs
     then if length secret \<noteq> 32 then Inl (InvalidKey ''Ed25519 seed must be 32 bytes'')
          else Inr \<lparr>sn_seed = secret, sn_key_id = kid\<rparr>
     else Inl (UnsupportedSignature a))"

definition factory_verifier ::
    "features \<Rightarrow> ed25519_backend \<Rightarrow> sign_algo \<Rightarrow> bytes \<Rightarrow> (crypto_error, verifier) result" where
  "factory_verifier fs be a pk =
    (if a = Ed25519 \<and> f_ed25519 fs
     then if length pk \<noteq> 32 then Inl (InvalidKey ''Ed25519 public key must be 32 bytes'')
          else verifier_from_public be pk
     else Inl (UnsupportedSignature a))"

definition handle_sign ::
    "features \<Rightarrow> ed25519_backend \<Rightarrow> sign_algo \<Rightarrow> bytes \<Rightarrow> string \<Rightarrow> bytes \<Rightarrow>
      (crypto_error, signature) result" where
  "handle_sign fs be a key kid data =
    and_then (factory_signer fs a key kid) (\<lambda>s. Inr (signer_sign be s data))"

definition handle_verify ::
    "features \<Rightarrow> ed25519_backend \<Rightarrow> bytes \<Rightarrow> bytes \<Rightarrow> signature \<Rightarrow> (crypto_error, bool) result" where
  "handle_verify fs be pk data sg =
    and_then (factory_verifier fs be (sg_algo sg) pk) (\<lambda>v. Inr (verifier_verify be v data sg))"

section \<open>Authenticated encryption\<close>

record aead =
  ae_key :: bytes
  ae_algo :: aead_algo

definition is_mgm :: "aead_algo \<Rightarrow> bool" where
  "is_mgm a = (a = KuznyechikMgm \<or> a = MagmaMgm)"

definition aead_debug :: "aead_algo \<Rightarrow> string" where
  "aead_debug a = (case a of
     Aes256Gcm \<Rightarrow> ''Aes256Gcm'' | ChaCha20Poly1305 \<Rightarrow> ''ChaCha20Poly1305''
   | KuznyechikMgm \<Rightarrow> ''KuznyechikMgm'' | MagmaMgm \<Rightarrow> ''MagmaMgm'')"

definition checked_nonce :: "bytes \<Rightarrow> aead_algo \<Rightarrow> (crypto_error, bytes) result" where
  "checked_nonce nonce a =
    (if length nonce \<noteq> nonce_len a then Inl (InvalidNonce (aead_debug a @ '' expects a '' @ show_nat (nonce_len a) @
            ''-byte nonce, got '' @ show_nat (length nonce)))
     else if is_mgm a \<and> (case nonce of [] \<Rightarrow> False | b # _ \<Rightarrow> b AND 0x80 \<noteq> 0)
     then Inl (InvalidNonce ''MGM nonce must have its most significant bit cleared'')
     else Inr nonce)"

definition aead_encrypt ::
    "aead_backend \<Rightarrow> aead \<Rightarrow> bytes \<Rightarrow> bytes \<Rightarrow> bytes \<Rightarrow> (crypto_error, ciphertext) result" where
  "aead_encrypt be c nonce aad plaintext =
    and_then (checked_nonce nonce (ae_algo c)) (\<lambda>n.
      and_then (ok_or EncryptionFailed (rc_encrypt be (ae_algo c) (ae_key c) n aad plaintext))
        (\<lambda>bs. Inr \<lparr>ct_algo = ae_algo c, ct_bytes = bs\<rparr>))"

definition aead_decrypt ::
    "aead_backend \<Rightarrow> aead \<Rightarrow> bytes \<Rightarrow> bytes \<Rightarrow> ciphertext \<Rightarrow> (crypto_error, bytes) result" where
  "aead_decrypt be c nonce aad ct =
    and_then (checked_nonce nonce (ae_algo c)) (\<lambda>n.
      ok_or DecryptionFailed (rc_decrypt be (ae_algo c) (ae_key c) n aad (ct_bytes ct)))"

text \<open>\<^verbatim>\<open>rc_accepts_key\<close> stands for \<^verbatim>\<open>new_from_slice\<close> of a RustCrypto cipher succeeding on
  the key.\<close>

definition aead_name :: "aead_algo \<Rightarrow> string" where
  "aead_name a = (case a of
     Aes256Gcm \<Rightarrow> ''AES-256-GCM'' | ChaCha20Poly1305 \<Rightarrow> ''ChaCha20-Poly1305''
   | KuznyechikMgm \<Rightarrow> ''Kuznyechik-MGM'' | MagmaMgm \<Rightarrow> ''Magma-MGM'')"

definition aead_build :: "aead_backend \<Rightarrow> aead_algo \<Rightarrow> bytes \<Rightarrow> (crypto_error, aead) result" where
  "aead_build be a key =
    (if \<not> rc_accepts_key be a key
     then Inl (InvalidKey (aead_name a @ '' key must be '' @ show_nat (key_len a) @ '' bytes''))
     else Inr \<lparr>ae_key = key, ae_algo = a\<rparr>)"

definition factory_aead :: "features \<Rightarrow> aead_backend \<Rightarrow> aead_algo \<Rightarrow> bytes \<Rightarrow> (crypto_error, aead) result" where
  "factory_aead fs be a key =
    (if (case a of
           Aes256Gcm \<Rightarrow> f_aes_gcm fs
         | ChaCha20Poly1305 \<Rightarrow> f_chacha fs
         | KuznyechikMgm \<Rightarrow> f_gost_cipher fs
         | MagmaMgm \<Rightarrow> f_gost_cipher fs)
     then aead_build be a key
     else Inl (UnsupportedAead a))"

definition handle_encrypt ::
    "features \<Rightarrow> aead_backend \<Rightarrow> aead_algo \<Rightarrow> bytes \<Rightarrow> bytes \<Rightarrow> bytes \<Rightarrow> bytes \<Rightarrow>
      (crypto_error, ciphertext) result" where
  "handle_encrypt fs be a key nonce aad plaintext =
    and_then (factory_aead fs be a key) (\<lambda>c. aead_encrypt be c nonce aad plaintext)"

definition handle_decrypt ::
    "features \<Rightarrow> aead_backend \<Rightarrow> bytes \<Rightarrow> bytes \<Rightarrow> bytes \<Rightarrow> ciphertext \<Rightarrow>
      (crypto_error, bytes) result" where
  "handle_decrypt fs be key nonce aad ct =
    and_then (factory_aead fs be (ct_algo ct) key) (\<lambda>c. aead_decrypt be c nonce aad ct)"

section \<open>Byte codes\<close>

text \<open>The contract of a pair \<^verbatim>\<open>code\<close>/\<^verbatim>\<open>from_code\<close>: a partial inverse in both directions.\<close>

locale code_table =
  fixes code :: "'a \<Rightarrow> byte" and from_code :: "byte \<Rightarrow> 'a option"
  assumes from_code_code: "from_code (code a) = Some a"
    and code_from_code: "from_code c = Some a \<Longrightarrow> code a = c"
begin

lemma code_inject: "code a = code b \<longleftrightarrow> a = b"
  by (metis from_code_code option.inject)

lemma from_code_iff: "from_code c = Some a \<longleftrightarrow> c = code a"
  using from_code_code code_from_code by blast

lemma from_code_None_iff: "from_code c = None \<longleftrightarrow> c \<notin> range code"
  by (metis from_code_iff imageE option.exhaust option.simps(3) rangeI)

end

interpretation hash_codes: code_table hash_code hash_from_code
proof
  show "hash_from_code (hash_code a) = Some a" for a
    by (cases a) (simp_all add: hash_from_code_def)
  show "hash_from_code c = Some a \<Longrightarrow> hash_code a = c" for c a
    by (auto simp: hash_from_code_def split: if_splits)
qed

interpretation sign_codes: code_table sign_code sign_from_code
proof
  show "sign_from_code (sign_code a) = Some a" for a
    by (cases a) (simp_all add: sign_from_code_def)
  show "sign_from_code c = Some a \<Longrightarrow> sign_code a = c" for c a
    by (auto simp: sign_from_code_def split: if_splits)
qed

interpretation aead_codes: code_table aead_code aead_from_code
proof
  show "aead_from_code (aead_code a) = Some a" for a
    by (cases a) (simp_all add: aead_from_code_def)
  show "aead_from_code c = Some a \<Longrightarrow> aead_code a = c" for c a
    by (auto simp: aead_from_code_def split: if_splits)
qed

section \<open>Hexadecimal\<close>

lemma hex_digit_inject: "hex_digit m = hex_digit n \<longleftrightarrow> m mod 16 = n mod 16"
proof
  assume "hex_digit m = hex_digit n"
  moreover have "m mod 16 < length ''0123456789abcdef''" "n mod 16 < length ''0123456789abcdef''"
    by simp_all
  moreover have "distinct ''0123456789abcdef''" by simp
  ultimately show "m mod 16 = n mod 16"
    unfolding hex_digit_def by (simp only: nth_eq_iff_index_eq)
next
  assume "m mod 16 = n mod 16"
  then show "hex_digit m = hex_digit n" by (simp only: hex_digit_def)
qed

lemma hex_byte_inject: "hex_byte a = hex_byte b \<longleftrightarrow> a = b"
proof
  assume "hex_byte a = hex_byte b"
  then have "hex_digit (unat a div 16) = hex_digit (unat b div 16)"
      "hex_digit (unat a) = hex_digit (unat b)"
    by (simp_all only: hex_byte_def list.inject)
  then have "unat a div 16 mod 16 = unat b div 16 mod 16" "unat a mod 16 = unat b mod 16"
    by (simp_all only: hex_digit_inject)
  moreover have "unat a < 16 * 16" "unat b < 16 * 16"
    using unsigned_less [of a, where 'a = nat] unsigned_less [of b, where 'a = nat] by simp_all
  then have "unat a div 16 < 16" "unat b div 16 < 16"
    by (simp_all only: less_mult_imp_div_less)
  ultimately have "unat a div 16 = unat b div 16" "unat a mod 16 = unat b mod 16"
    by (simp_all only: mod_less)
  then have "unat a = unat b"
    by (metis div_mult_mod_eq)
  then show "a = b" by (simp only: word_unat_eq_iff)
qed simp

lemma length_hex_byte [simp]: "length (hex_byte b) = 2"
  by (simp add: hex_byte_def)

lemma length_hex_encode [simp]: "length (hex_encode bs) = 2 * length bs"
  by (induction bs) (simp_all add: hex_encode_def)

lemma hex_encode_inject: "hex_encode as = hex_encode bs \<longleftrightarrow> as = bs"
proof (induction as arbitrary: bs)
  case Nil
  then show ?case by (cases bs) (auto simp: hex_encode_def hex_byte_def)
next
  case (Cons a as)
  show ?case
  proof (cases bs)
    case Nil
    then show ?thesis by (simp add: hex_encode_def hex_byte_def)
  next
    case (Cons b bs')
    have "hex_encode (a # as) = hex_encode bs \<longleftrightarrow>
        hex_byte a = hex_byte b \<and> hex_encode as = hex_encode bs'"
      by (simp add: Cons hex_encode_def append_inj_left_len)
    then show ?thesis using Cons.IH [of bs'] by (simp add: Cons hex_byte_inject)
  qed
qed

section \<open>Documented behaviour of the primitives\<close>

definition ed25519_correct :: "ed25519_backend \<Rightarrow> bytes \<Rightarrow> bool" where
  "ed25519_correct be seed \<longleftrightarrow>
    length (dalek_public be seed) = 32 \<and>
    dalek_parse_key be (dalek_public be seed) = Inr (dalek_public be seed) \<and>
    (\<forall>data. length (dalek_sign be seed data) = 64 \<and>
      dalek_verify be (dalek_public be seed) data (dalek_sign be seed data))"

definition aead_correct :: "aead_backend \<Rightarrow> aead_algo \<Rightarrow> bytes \<Rightarrow> bool" where
  "aead_correct be a key \<longleftrightarrow>
    (\<forall>nonce aad pt ct. rc_encrypt be a key nonce aad pt = Some ct \<longrightarrow>
      rc_decrypt be a key nonce aad ct = Some pt)"

section \<open>Handlers\<close>

lemma checked_nonce_Inr_iff:
  "checked_nonce nonce a = Inr n \<longleftrightarrow>
    n = nonce \<and> length nonce = nonce_len a \<and> (is_mgm a \<longrightarrow> hd nonce AND 0x80 = 0)"
  by (cases nonce; cases a) (auto simp: checked_nonce_def is_mgm_def)

lemma handle_sign_verify:
  assumes "f_ed25519 fs" and "length seed = 32" and "ed25519_correct be seed"
  shows "\<exists>sg. handle_sign fs be Ed25519 seed kid data = Inr sg \<and>
    handle_verify fs be (dalek_public be seed) data sg = Inr True"
  using assms
  by (simp add: handle_sign_def handle_verify_def factory_signer_def factory_verifier_def
      signer_sign_def verifier_from_public_def verifier_verify_def ed25519_correct_def)

lemma handle_encrypt_Inr:
  assumes "handle_encrypt fs be a key nonce aad pt = Inr ct"
  shows "ct_algo ct = a" and "rc_encrypt be a key nonce aad pt = Some (ct_bytes ct)"
    and "factory_aead fs be a key = Inr \<lparr>ae_key = key, ae_algo = a\<rparr>"
    and "checked_nonce nonce a = Inr nonce"
  using assms
  by (auto simp: handle_encrypt_def aead_encrypt_def factory_aead_def aead_build_def
      and_then_eq_Inr checked_nonce_Inr_iff split: if_splits)

lemma handle_decrypt_encrypt:
  assumes "aead_correct be a key" and enc: "handle_encrypt fs be a key nonce aad pt = Inr ct"
  shows "handle_decrypt fs be key nonce aad ct = Inr pt"
  using handle_encrypt_Inr [OF enc] assms(1)
  by (simp add: handle_decrypt_def aead_decrypt_def aead_correct_def)

end
