(* ===== verification/Agate_Text.thy ===== *)
theory Agate_Text
  imports Agate_Prelude
begin

text \<open>
  The text and JSON vocabulary the policy and proxy crates share: the operations of
  \<^verbatim>\<open>str\<close> that search and split, ASCII case folding, and \<^verbatim>\<open>serde_json::Value\<close> with its
  accessors.  Parsing and printing of JSON text are the fields of a parameter.
\<close>

section \<open>ASCII\<close>

definition is_ascii :: "string \<Rightarrow> bool" where
  "is_ascii s = list_all (\<lambda>c. (of_char c :: nat) < 128) s"

text \<open>\<^verbatim>\<open>u8::to_ascii_lowercase\<close> and \<^verbatim>\<open>str::to_ascii_lowercase\<close>.\<close>

definition ascii_lower :: "char \<Rightarrow> char" where
  "ascii_lower c = (let n = of_char c :: nat in if 65 \<le> n \<and> n \<le> 90 then char_of (n + 32) else c)"

definition to_ascii_lowercase :: "string \<Rightarrow> string" where
  "to_ascii_lowercase s = map ascii_lower s"

lemma length_to_ascii_lowercase [simp]: "length (to_ascii_lowercase s) = length s"
  by (simp add: to_ascii_lowercase_def)

lemma to_ascii_lowercase_append [simp]:
  "to_ascii_lowercase (s @ t) = to_ascii_lowercase s @ to_ascii_lowercase t"
  by (simp add: to_ascii_lowercase_def)

lemma to_ascii_lowercase_drop: "to_ascii_lowercase (drop n s) = drop n (to_ascii_lowercase s)"
  by (simp add: to_ascii_lowercase_def drop_map)

lemma to_ascii_lowercase_take: "to_ascii_lowercase (take n s) = take n (to_ascii_lowercase s)"
  by (simp add: to_ascii_lowercase_def take_map)

lemma ascii_lower_idem [simp]: "ascii_lower (ascii_lower c) = ascii_lower c"
proof -
  have "(of_char c :: nat) < 256" by simp
  then show ?thesis by (auto simp: ascii_lower_def Let_def)
qed

lemma to_ascii_lowercase_idem [simp]: "to_ascii_lowercase (to_ascii_lowercase s) = to_ascii_lowercase s"
  by (simp add: to_ascii_lowercase_def)

section \<open>Searching\<close>

text \<open>\<^verbatim>\<open>str::find\<close> with a string needle, and \<^verbatim>\<open>str::contains\<close>.\<close>

fun str_find :: "string \<Rightarrow> string \<Rightarrow> nat option" where
  "str_find needle [] = (if needle = [] then Some 0 else None)"
| "str_find needle (c # s) =
    (if prefix needle (c # s) then Some 0 else map_option Suc (str_find needle s))"

definition contains :: "string \<Rightarrow> string \<Rightarrow> bool" where
  "contains needle s = (str_find needle s \<noteq> None)"

lemma str_find_None_iff: "str_find needle s = None \<longleftrightarrow> \<not> sublist needle s"
  by (induction s) (auto simp: sublist_Cons_right)

lemma contains_sublist [simp]: "contains needle s \<longleftrightarrow> sublist needle s"
  by (simp add: contains_def str_find_None_iff)

lemma str_find_SomeD:
  "str_find needle s = Some k \<Longrightarrow> s = take k s @ needle @ drop (k + length needle) s \<and> k + length needle \<le> length s"
proof (induction s arbitrary: k)
  case Nil
  then show ?case by (simp split: if_splits)
next
  case (Cons c s)
  show ?case
  proof (cases "prefix needle (c # s)")
    case True
    with Cons.prems have "k = 0" by simp
    moreover from True obtain t where "c # s = needle @ t" by (auto simp: prefix_def)
    ultimately show ?thesis by simp
  next
    case False
    with Cons show ?thesis by auto
  qed
qed

text \<open>The first occurrence: nothing starts before it.\<close>

lemma str_find_first:
  "str_find needle s = Some k \<Longrightarrow> needle \<noteq> [] \<Longrightarrow> \<not> sublist needle (take (k + length needle - 1) s)"
proof (induction s arbitrary: k)
  case (Cons c s)
  show ?case
  proof (cases "prefix needle (c # s)")
    case True
    with Cons.prems have "k = 0" by simp
    with Cons.prems(2) show ?thesis
      by (auto dest!: sublist_length_le simp: min_def split: if_splits) (metis One_nat_def diff_less length_greater_0_conv less_one not_less)
  next
    case False
    with Cons.prems obtain j where j: "k = Suc j" "str_find needle s = Some j" by auto
    from Cons.IH [OF j(2) Cons.prems(2)] have nj: "\<not> sublist needle (take (j + length needle - 1) s)" .
    have "take (k + length needle - 1) (c # s) = c # take (j + length needle - 1) s"
      using j(1) Cons.prems(2) by (cases needle) auto
    moreover have "\<not> prefix needle (c # take (j + length needle - 1) s)"
      using False by (metis append_take_drop_id prefix_def append_Cons prefix_prefix)
    ultimately show ?thesis using nj by (simp add: sublist_Cons_right)
  qed
qed simp

text \<open>\<^verbatim>\<open>str::split(char)\<close>: always at least one piece.\<close>

fun split_on :: "char \<Rightarrow> string \<Rightarrow> string list" where
  "split_on d [] = [[]]"
| "split_on d (c # s) =
    (if c = d then [] # split_on d s
     else case split_on d s of
       [] \<Rightarrow> [[c]]
     | p # ps \<Rightarrow> (c # p) # ps)"

lemma split_on_not_Nil [simp]: "split_on d s \<noteq> []"
  by (induction s) (auto split: list.splits)

lemma split_on_no_delim: "p \<in> set (split_on d s) \<Longrightarrow> d \<notin> set p"
  by (induction s arbitrary: p) (force split: list.splits if_splits)+

section \<open>JSON\<close>

text \<open>\<^verbatim>\<open>serde_json::Number\<close> distinguishes the three representations; a float is its bit pattern.\<close>

datatype json_number = PosInt u64 | NegInt i64 | Float "64 word"

datatype json =
    JNull
  | JBool bool
  | JNumber json_number
  | JString string
  | JArray "json list"
  | JObject "(string \<times> json) list"

text \<open>\<^verbatim>\<open>Value::get(&str)\<close> and the \<^verbatim>\<open>as_\<close> accessors.\<close>

definition json_get :: "string \<Rightarrow> json \<Rightarrow> json option" where
  "json_get k v = (case v of JObject kvs \<Rightarrow> map_of kvs k | _ \<Rightarrow> None)"

definition as_str :: "json \<Rightarrow> string option" where
  "as_str v = (case v of JString s \<Rightarrow> Some s | _ \<Rightarrow> None)"

definition as_array :: "json \<Rightarrow> json list option" where
  "as_array v = (case v of JArray xs \<Rightarrow> Some xs | _ \<Rightarrow> None)"

text \<open>\<^verbatim>\<open>serde_json::from_str\<close> (the error as its message) and \<^verbatim>\<open>Value::to_string\<close>.\<close>

record serde =
  sj_parse :: "string \<Rightarrow> (string, json) result"
  sj_print :: "json \<Rightarrow> string"

definition parse_ok :: "serde \<Rightarrow> string \<Rightarrow> json option" where
  "parse_ok sj s = (case sj_parse sj s of Inl _ \<Rightarrow> None | Inr v \<Rightarrow> Some v)"

end
