(* ===== verification/Run_Machine.thy ===== *)
theory Run_Machine
  imports Agate_Text "HOL-Library.Multiset"
begin

text \<open>
  The inspection domain of the proxy crate (\<^verbatim>\<open>crates/agate-proxy/src/domain/inspection\<close>): the
  protocol-neutral fragments and events, the budgets, and the aggregate \<^verbatim>\<open>Run\<close>, a state
  machine that orders the lifecycle, assembles tool calls and enforces the budgets.

  The hash map of open calls is the list of its entries; the order in which it is
  drained is an argument of \<^verbatim>\<open>drain_open\<close>.  Byte counts are natural numbers: every one of
  them is the length of a string in memory, so that no sum of two overflows.
\<close>

section \<open>Values\<close>

type_synonym uuid = "128 word"
type_synonym tool_call_id = string
type_synonym message_id = string
type_synonym deny_reason = string

datatype proxy_error = FieldError string

definition non_blank :: "string \<Rightarrow> string \<Rightarrow> (proxy_error, string) result" where
  "non_blank v msg = (if trim v = [] then Inl (FieldError msg) else Inr v)"

definition tool_call_id_new :: "string \<Rightarrow> (proxy_error, tool_call_id) result" where
  "tool_call_id_new v = non_blank v ''a tool call id must not be blank''"

definition message_id_new :: "string \<Rightarrow> (proxy_error, message_id) result" where
  "message_id_new v = non_blank v ''a message id must not be blank''"

datatype lifecycle_phase = RunStarted | RunFinished | RunError | StepStarted string | StepFinished string

datatype opaque_kind = Raw | Custom | Encrypted

datatype state_mutation =
    Snapshot nat string
  | Delta nat nat nat nat string   \<comment> \<open>operations, bytes, deepest path, largest value, payload\<close>

fun byte_size :: "state_mutation \<Rightarrow> nat" where
  "byte_size (Snapshot b _) = b"
| "byte_size (Delta _ b _ _ _) = b"

fun patch_bounds :: "state_mutation \<Rightarrow> (nat \<times> nat \<times> nat) option" where
  "patch_bounds (Delta ops _ depth val _) = Some (ops, depth, val)"
| "patch_bounds (Snapshot _ _) = None"

fun payload :: "state_mutation \<Rightarrow> string" where
  "payload (Snapshot _ p) = p"
| "payload (Delta _ _ _ _ p) = p"

datatype fragment =
    F_ToolCallStarted tool_call_id string
  | F_ToolCallArgs tool_call_id string
  | F_ToolCallEnded tool_call_id
  | F_ToolResult tool_call_id string
  | F_MessageChunk message_id string
  | F_StateMutation state_mutation
  | F_Lifecycle lifecycle_phase
  | F_Opaque opaque_kind

datatype agent_event =
    E_MessageChunk message_id string
  | E_ToolCall tool_call_id string string
  | E_ToolResult tool_call_id "string option" string
  | E_StateMutation state_mutation
  | E_Lifecycle lifecycle_phase
  | E_Opaque opaque_kind

datatype structural_outcome =
    Ready agent_event
  | ResolvedCall tool_call_id agent_event
  | Buffering tool_call_id
  | Reject deny_reason

datatype 'e verdict = V_Allow | V_Deny deny_reason | V_Transform 'e | V_Buffer | V_Terminate deny_reason

fun forwards :: "'e verdict \<Rightarrow> bool" where
  "forwards V_Allow = True"
| "forwards (V_Transform _) = True"
| "forwards _ = False"

fun stops :: "'e verdict \<Rightarrow> bool" where
  "stops (V_Deny _) = True"
| "stops (V_Terminate _) = True"
| "stops _ = False"

record patch_budget =
  pb_max_ops :: nat
  pb_max_path_depth :: nat
  pb_max_value_bytes :: nat

record budgets =
  bg_max_tool_args_bytes :: nat
  bg_max_state_bytes :: nat
  bg_max_open_tool_calls :: nat
  bg_patch :: patch_budget

definition patch_budget_default :: patch_budget where
  "patch_budget_default = \<lparr>pb_max_ops = 256, pb_max_path_depth = 32, pb_max_value_bytes = 64 * 1024\<rparr>"

definition budgets_new :: "nat \<Rightarrow> nat \<Rightarrow> nat \<Rightarrow> budgets" where
  "budgets_new args st open_calls =
    \<lparr>bg_max_tool_args_bytes = args, bg_max_state_bytes = st, bg_max_open_tool_calls = open_calls,
     bg_patch = patch_budget_default\<rparr>"

definition with_patch :: "budgets \<Rightarrow> patch_budget \<Rightarrow> budgets" where
  "with_patch b p = b\<lparr>bg_patch := p\<rparr>"

definition budgets_default :: budgets where
  "budgets_default = budgets_new (64 * 1024) (256 * 1024) 16"

section \<open>The aggregate\<close>

datatype phase = Pending | Running | Finished

record tool_call_buffer =
  tb_name :: string
  tb_arguments :: string

record run =
  run_id :: uuid
  run_phase :: phase
  run_open :: "(tool_call_id \<times> tool_call_buffer) list"
  run_names :: "tool_call_id \<rightharpoonup> string"
  run_budgets :: budgets

definition run_new :: "uuid \<Rightarrow> budgets \<Rightarrow> run" where
  "run_new i b = \<lparr>run_id = i, run_phase = Pending, run_open = [], run_names = Map.empty, run_budgets = b\<rparr>"

text \<open>Hash map operations on the list of entries.\<close>

definition hm_remove :: "'k \<Rightarrow> ('k \<times> 'v) list \<Rightarrow> ('k \<times> 'v) list" where
  "hm_remove k m = filter (\<lambda>e. fst e \<noteq> k) m"

fun hm_update :: "'k \<Rightarrow> ('v \<Rightarrow> 'v) \<Rightarrow> ('k \<times> 'v) list \<Rightarrow> ('k \<times> 'v) list" where
  "hm_update k f [] = []"
| "hm_update k f ((j, v) # m) = (if j = k then (j, f v) # m else (j, v) # hm_update k f m)"

definition inspect_lifecycle :: "lifecycle_phase \<Rightarrow> run \<Rightarrow> structural_outcome \<times> run" where
  "inspect_lifecycle p r =
    (case p of
       RunStarted \<Rightarrow>
         if run_phase r \<noteq> Pending then (Reject ''run started more than once'', r)
         else (Ready (E_Lifecycle p), r\<lparr>run_phase := Running\<rparr>)
     | RunFinished \<Rightarrow>
         if run_phase r \<noteq> Running then (Reject ''run ended without being active'', r)
         else (Ready (E_Lifecycle p), r\<lparr>run_phase := Finished\<rparr>)
     | RunError \<Rightarrow>
         if run_phase r \<noteq> Running then (Reject ''run ended without being active'', r)
         else (Ready (E_Lifecycle p), r\<lparr>run_phase := Finished\<rparr>)
     | _ \<Rightarrow>
         if run_phase r \<noteq> Running then (Reject ''step outside an active run'', r)
         else (Ready (E_Lifecycle p), r))"

definition tool_call_started :: "tool_call_id \<Rightarrow> string \<Rightarrow> run \<Rightarrow> structural_outcome \<times> run" where
  "tool_call_started i name r =
    (if map_of (run_open r) i \<noteq> None then (Reject ''tool call started twice'', r)
     else if length (run_open r) \<ge> bg_max_open_tool_calls (run_budgets r)
       then (Reject ''too many concurrent tool calls'', r)
     else (Buffering i,
       r\<lparr>run_names := (run_names r)(i \<mapsto> name),
         run_open := run_open r @ [(i, \<lparr>tb_name = name, tb_arguments = []\<rparr>)]\<rparr>))"

definition tool_call_args :: "tool_call_id \<Rightarrow> string \<Rightarrow> run \<Rightarrow> structural_outcome \<times> run" where
  "tool_call_args i delta r =
    (case map_of (run_open r) i of
       None \<Rightarrow> (Reject ''arguments for an unknown tool call'', r)
     | Some b \<Rightarrow>
         if length (tb_arguments b) + length delta > bg_max_tool_args_bytes (run_budgets r)
         then (Reject ''tool call arguments exceed budget'', r)
         else (Buffering i,
           r\<lparr>run_open := hm_update i (\<lambda>b. b\<lparr>tb_arguments := tb_arguments b @ delta\<rparr>) (run_open r)\<rparr>))"

definition tool_call_ended :: "tool_call_id \<Rightarrow> run \<Rightarrow> structural_outcome \<times> run" where
  "tool_call_ended i r =
    (case map_of (run_open r) i of
       Some b \<Rightarrow> (ResolvedCall i (E_ToolCall i (tb_name b) (tb_arguments b)),
                  r\<lparr>run_open := hm_remove i (run_open r)\<rparr>)
     | None \<Rightarrow> (Reject ''end of an unknown tool call'', r))"

definition check_mutation :: "budgets \<Rightarrow> state_mutation \<Rightarrow> deny_reason option" where
  "check_mutation b m =
    (if byte_size m > bg_max_state_bytes b then Some ''state mutation exceeds budget''
     else case patch_bounds m of
       None \<Rightarrow> None
     | Some (op_count, path_depth, value_bytes) \<Rightarrow>
         if op_count > pb_max_ops (bg_patch b) then Some ''state delta has too many operations''
         else if path_depth > pb_max_path_depth (bg_patch b) then Some ''state delta operation path is too deep''
         else if value_bytes > pb_max_value_bytes (bg_patch b)
           then Some ''state delta operation value exceeds budget''
         else None)"

definition inspect_content :: "fragment \<Rightarrow> run \<Rightarrow> structural_outcome \<times> run" where
  "inspect_content f r =
    (case f of
       F_ToolCallStarted i name \<Rightarrow> tool_call_started i name r
     | F_ToolCallArgs i delta \<Rightarrow> tool_call_args i delta r
     | F_ToolCallEnded i \<Rightarrow> tool_call_ended i r
     | F_ToolResult i content \<Rightarrow>
         (Ready (E_ToolResult i (run_names r i) content), r\<lparr>run_names := (run_names r)(i := None)\<rparr>)
     | F_MessageChunk message s \<Rightarrow> (Ready (E_MessageChunk message s), r)
     | F_StateMutation m \<Rightarrow>
         (case check_mutation (run_budgets r) m of
            Some reason \<Rightarrow> (Reject reason, r)
          | None \<Rightarrow> (Ready (E_StateMutation m), r))
     | F_Opaque k \<Rightarrow> (Ready (E_Opaque k), r)
     | F_Lifecycle _ \<Rightarrow> (Reject ''unexpected lifecycle event in content position'', r))"

definition run_inspect :: "fragment \<Rightarrow> run \<Rightarrow> structural_outcome \<times> run" where
  "run_inspect f r =
    (case f of
       F_Lifecycle p \<Rightarrow> inspect_lifecycle p r
     | _ \<Rightarrow>
         if run_phase r \<noteq> Running then (Reject ''event outside an active run'', r)
         else inspect_content f r)"

text \<open>\<^verbatim>\<open>order\<close> is the iteration order of the hash map.\<close>

definition drain_open ::
    "((tool_call_id \<times> tool_call_buffer) list \<Rightarrow> (tool_call_id \<times> tool_call_buffer) list) \<Rightarrow> run \<Rightarrow>
      (tool_call_id \<times> agent_event) list \<times> run" where
  "drain_open order r =
    (map (\<lambda>(i, b). (i, E_ToolCall i (tb_name b) (tb_arguments b))) (order (run_open r)),
     r\<lparr>run_open := []\<rparr>)"

section \<open>Hash maps\<close>

lemma hm_remove_lookup [simp]: "map_of (hm_remove k m) j = (if j = k then None else map_of m j)"
  by (induction m) (auto simp: hm_remove_def)

lemma hm_update_lookup [simp]:
  "map_of (hm_update k f m) j = (if j = k then map_option f (map_of m k) else map_of m j)"
  by (induction k f m rule: hm_update.induct) auto

lemma hm_update_keys [simp]: "map fst (hm_update k f m) = map fst m"
  by (induction k f m rule: hm_update.induct) auto

lemma hm_update_length [simp]: "length (hm_update k f m) = length m"
  by (metis hm_update_keys length_map)

lemma hm_remove_distinct [simp]: "distinct (map fst m) \<Longrightarrow> distinct (map fst (hm_remove k m))"
  by (simp add: hm_remove_def distinct_map_filter)

lemma hm_remove_length: "length (hm_remove k m) \<le> length m"
  by (simp add: hm_remove_def)

lemma hm_remove_fst [simp]: "fst ` set (hm_remove k m) = fst ` set m - {k}"
  by (auto simp: hm_remove_def)

lemma hm_update_fst [simp]: "fst ` set (hm_update k f m) = fst ` set m"
  by (metis hm_update_keys list.set_map)

section \<open>Histories\<close>

text \<open>A history of a run: the fragments fed to it, each with its outcome, oldest first.\<close>

inductive run_history :: "uuid \<Rightarrow> budgets \<Rightarrow> (fragment \<times> structural_outcome) list \<Rightarrow> run \<Rightarrow> bool"
  for i :: uuid and b :: budgets where
  start: "run_history i b [] (run_new i b)"
| step: "run_history i b h r \<Longrightarrow> run_inspect f r = (out, r') \<Longrightarrow> run_history i b (h @ [(f, out)]) r'"

inductive_cases run_history_snocE: "run_history i b (h @ [x]) r"

text \<open>The bounds the aggregate promises.\<close>

definition run_bounded :: "run \<Rightarrow> bool" where
  "run_bounded r \<longleftrightarrow>
    distinct (map fst (run_open r)) \<and>
    length (run_open r) \<le> bg_max_open_tool_calls (run_budgets r) \<and>
    (\<forall>(k, b) \<in> set (run_open r). length (tb_arguments b) \<le> bg_max_tool_args_bytes (run_budgets r)) \<and>
    (run_phase r = Pending \<longrightarrow> run_open r = [])"

lemma hm_update_bounded:
  "distinct (map fst m) \<Longrightarrow> map_of m k = Some v \<Longrightarrow>
    (\<forall>(j, x) \<in> set (hm_update k f m). P x) \<longleftrightarrow> P (f v) \<and> (\<forall>(j, x) \<in> set m. j \<noteq> k \<longrightarrow> P x)"
  by (induction k f m rule: hm_update.induct) (auto split: if_splits simp: rev_image_eqI)

lemma run_bounded_new [simp, agate_invs]: "run_bounded (run_new i b)"
  by (simp add: run_bounded_def run_new_def)

lemma tool_call_args_bounded:
  assumes "run_bounded r" and "tool_call_args k delta r = (out, r')" and "run_phase r = Running"
  shows "run_bounded r'"
proof (cases "map_of (run_open r) k")
  case None
  with assms show ?thesis by (simp add: tool_call_args_def)
next
  case (Some b)
  let ?f = "\<lambda>b. b\<lparr>tb_arguments := tb_arguments b @ delta\<rparr>"
  show ?thesis
  proof (cases "length (tb_arguments b) + length delta > bg_max_tool_args_bytes (run_budgets r)")
    case True
    with assms Some show ?thesis by (simp add: tool_call_args_def)
  next
    case False
    with assms Some have r': "r' = r\<lparr>run_open := hm_update k ?f (run_open r)\<rparr>"
      by (simp add: tool_call_args_def)
    have "\<forall>(j, x) \<in> set (hm_update k ?f (run_open r)).
        length (tb_arguments x) \<le> bg_max_tool_args_bytes (run_budgets r)"
      using assms(1) Some False by (subst hm_update_bounded) (auto simp: run_bounded_def)
    with assms(1,3) show ?thesis unfolding r' run_bounded_def by simp
  qed
qed

lemma run_inspect_bounded [agate_invs]:
  assumes "run_bounded r" and "run_inspect f r = (out, r')"
  shows "run_bounded r'"
proof -
  have lifecycle: "run_bounded r'" if "inspect_lifecycle p r = (out, r')" for p
    using that assms(1) by (auto simp: inspect_lifecycle_def run_bounded_def split: lifecycle_phase.splits if_splits)
  have started: "run_bounded r'" if "tool_call_started k n r = (out, r')" "run_phase r = Running" for k n
    using that assms(1)
    by (auto simp: tool_call_started_def run_bounded_def map_of_eq_None_iff split: if_splits)
  have ended: "run_bounded r'" if "tool_call_ended k r = (out, r')" "run_phase r = Running" for k
    using that assms(1)
    by (auto simp: tool_call_ended_def run_bounded_def hm_remove_def distinct_map_filter
        intro: le_trans [OF length_filter_le] split: option.splits)
  show ?thesis
    using assms(2) lifecycle started ended tool_call_args_bounded [OF assms(1)] assms(1)
    by (auto simp: run_inspect_def inspect_content_def run_bounded_def
        split: fragment.splits if_splits option.splits)
qed

lemma run_inspect_frame: "run_inspect f r = (out, r') \<Longrightarrow> run_budgets r' = run_budgets r \<and> run_id r' = run_id r"
  by (auto simp: run_inspect_def inspect_content_def inspect_lifecycle_def tool_call_started_def
      tool_call_args_def tool_call_ended_def
      split: fragment.splits lifecycle_phase.splits if_splits option.splits)

lemma run_history_bounded: "run_history i b h r \<Longrightarrow> run_bounded r \<and> run_budgets r = b"
proof (induction rule: run_history.induct)
  case start
  show ?case by (simp add: run_new_def run_bounded_new [unfolded run_new_def])
next
  case (step h r f out r')
  then show ?case using run_inspect_bounded run_inspect_frame by metis
qed

section \<open>Assembly\<close>

text \<open>A call is open with name \<^term>\<open>n\<close> and arguments \<^term>\<open>a\<close> when the history has an accepted start of it, no
  accepted start or end of it since, and \<^term>\<open>a\<close> is what was accepted as its arguments since.\<close>

definition accepted_delta :: "tool_call_id \<Rightarrow> fragment \<times> structural_outcome \<Rightarrow> string" where
  "accepted_delta k x =
    (case x of (F_ToolCallArgs j d, Buffering _) \<Rightarrow> if j = k then d else [] | _ \<Rightarrow> [])"

definition bounds_call :: "tool_call_id \<Rightarrow> fragment \<times> structural_outcome \<Rightarrow> bool" where
  "bounds_call k x =
    (case x of
       (F_ToolCallStarted j _, Buffering _) \<Rightarrow> j = k
     | (F_ToolCallEnded j, ResolvedCall _ _) \<Rightarrow> j = k
     | _ \<Rightarrow> False)"

definition call_open :: "tool_call_id \<Rightarrow> string \<Rightarrow> string \<Rightarrow> (fragment \<times> structural_outcome) list \<Rightarrow> bool" where
  "call_open k n a h \<longleftrightarrow>
    (\<exists>h1 h2. h = h1 @ (F_ToolCallStarted k n, Buffering k) # h2 \<and>
      list_all (\<lambda>x. \<not> bounds_call k x) h2 \<and> a = concat (map (accepted_delta k) h2))"

lemma call_open_start: "call_open k n [] (h @ [(F_ToolCallStarted k n, Buffering k)])"
  unfolding call_open_def by (rule exI [of _ h]) (rule exI [of _ "[]"], simp)

lemma call_open_snoc:
  "call_open k n a h \<Longrightarrow> \<not> bounds_call k x \<Longrightarrow> call_open k n (a @ accepted_delta k x) (h @ [x])"
  unfolding call_open_def by (elim exE) (rule_tac x = h1 in exI, rule_tac x = "h2 @ [x]" in exI, simp)

lemma run_inspect_open_change:
  assumes "run_inspect f r = (out, r')" and "map_of (run_open r') k = Some b"
  shows "(f = F_ToolCallStarted k (tb_name b) \<and> out = Buffering k \<and> tb_arguments b = []) \<or>
    (\<exists>b0. map_of (run_open r) k = Some b0 \<and> \<not> bounds_call k (f, out) \<and> tb_name b = tb_name b0 \<and>
      tb_arguments b = tb_arguments b0 @ accepted_delta k (f, out))"
proof (cases f)
  case (F_ToolCallStarted j n)
  with assms show ?thesis
    by (auto simp: run_inspect_def inspect_content_def tool_call_started_def bounds_call_def accepted_delta_def
        map_add_def split: if_splits option.splits)
next
  case (F_ToolCallArgs j d)
  with assms show ?thesis
    by (auto simp: run_inspect_def inspect_content_def tool_call_args_def bounds_call_def accepted_delta_def
        split: if_splits option.splits)
next
  case (F_ToolCallEnded j)
  with assms show ?thesis
    by (auto simp: run_inspect_def inspect_content_def tool_call_ended_def bounds_call_def accepted_delta_def
        split: if_splits option.splits)
next
  case (F_Lifecycle p)
  with assms show ?thesis
    by (auto simp: run_inspect_def inspect_lifecycle_def bounds_call_def accepted_delta_def
        split: if_splits lifecycle_phase.splits)
qed (use assms in \<open>auto simp: run_inspect_def inspect_content_def bounds_call_def accepted_delta_def
      split: if_splits option.splits\<close>)

lemma run_history_call_open:
  "run_history i b h r \<Longrightarrow> map_of (run_open r) k = Some c \<Longrightarrow> call_open k (tb_name c) (tb_arguments c) h"
proof (induction arbitrary: c rule: run_history.induct)
  case start
  then show ?case by (simp add: run_new_def)
next
  case (step h r f out r')
  from run_inspect_open_change [OF step.hyps(2) step.prems] show ?case
  proof (elim disjE conjE exE)
    assume "f = F_ToolCallStarted k (tb_name c)" "out = Buffering k" "tb_arguments c = []"
    then show ?thesis by (simp add: call_open_start)
  next
    fix b0
    assume "map_of (run_open r) k = Some b0" "\<not> bounds_call k (f, out)" "tb_name c = tb_name b0"
      "tb_arguments c = tb_arguments b0 @ accepted_delta k (f, out)"
    then show ?thesis using call_open_snoc step.IH by metis
  qed
qed

lemma run_inspect_resolved:
  "run_inspect f r = (ResolvedCall k e, r') \<Longrightarrow>
    f = F_ToolCallEnded k \<and> (\<exists>c. map_of (run_open r) k = Some c \<and> e = E_ToolCall k (tb_name c) (tb_arguments c))"
  by (auto simp: run_inspect_def inspect_content_def inspect_lifecycle_def tool_call_started_def
      tool_call_args_def tool_call_ended_def
      split: fragment.splits lifecycle_phase.splits if_splits option.splits)

section \<open>Lifecycle\<close>

fun is_reject :: "structural_outcome \<Rightarrow> bool" where
  "is_reject (Reject _) = True"
| "is_reject _ = False"

definition accepted :: "(fragment \<times> structural_outcome) list \<Rightarrow> fragment list" where
  "accepted h = map fst (filter (\<lambda>x. \<not> is_reject (snd x)) h)"

definition run_boundary :: "fragment \<Rightarrow> bool" where
  "run_boundary f \<longleftrightarrow> f \<in> {F_Lifecycle RunStarted, F_Lifecycle RunFinished, F_Lifecycle RunError}"

definition phase_shape :: "phase \<Rightarrow> fragment list \<Rightarrow> bool" where
  "phase_shape p fs \<longleftrightarrow>
    (case p of
       Pending \<Rightarrow> fs = []
     | Running \<Rightarrow> (\<exists>mid. fs = F_Lifecycle RunStarted # mid \<and> list_all (\<lambda>f. \<not> run_boundary f) mid)
     | Finished \<Rightarrow> (\<exists>mid e. fs = F_Lifecycle RunStarted # mid @ [F_Lifecycle e] \<and> e \<in> {RunFinished, RunError} \<and>
         list_all (\<lambda>f. \<not> run_boundary f) mid))"

lemma accepted_snoc: "accepted (h @ [(f, out)]) = accepted h @ (if is_reject out then [] else [f])"
  by (simp add: accepted_def)

lemma run_inspect_phase:
  assumes "run_inspect f r = (out, r')"
  shows "(is_reject out \<and> run_phase r' = run_phase r) \<or>
    (\<not> is_reject out \<and> f = F_Lifecycle RunStarted \<and> run_phase r = Pending \<and> run_phase r' = Running) \<or>
    (\<not> is_reject out \<and> f \<in> {F_Lifecycle RunFinished, F_Lifecycle RunError} \<and> run_phase r = Running \<and> run_phase r' = Finished) \<or>
    (\<not> is_reject out \<and> \<not> run_boundary f \<and> run_phase r = Running \<and> run_phase r' = Running)"
  using assms
  by (auto simp: run_inspect_def inspect_content_def inspect_lifecycle_def tool_call_started_def
      tool_call_args_def tool_call_ended_def run_boundary_def
      split: fragment.splits lifecycle_phase.splits if_splits option.splits)

lemma run_history_phase: "run_history i b h r \<Longrightarrow> phase_shape (run_phase r) (accepted h)"
proof (induction rule: run_history.induct)
  case start
  show ?case by (simp add: phase_shape_def run_new_def accepted_def)
next
  case (step h r f out r')
  from run_inspect_phase [OF step.hyps(2)] step.IH show ?case
    by (elim disjE) (auto simp: accepted_snoc phase_shape_def)
qed

section \<open>Properties\<close>

text \<open>C16: In every history of a run the resource bounds hold: at most the configured number of tool
  calls are open, under distinct ids, none has buffered more argument bytes than the budget, and a
  state mutation is only passed on within its size and patch bounds.\<close>

theorem run_stays_in_budget:
  assumes "run_history i b h r"
  shows "length (run_open r) \<le> bg_max_open_tool_calls b \<and> distinct (map fst (run_open r)) \<and>
    (\<forall>(k, c) \<in> set (run_open r). length (tb_arguments c) \<le> bg_max_tool_args_bytes b) \<and>
    (\<forall>m r'. run_inspect (F_StateMutation m) r = (Ready (E_StateMutation m), r') \<longrightarrow>
      byte_size m \<le> bg_max_state_bytes b \<and>
      (\<forall>ops depth val. patch_bounds m = Some (ops, depth, val) \<longrightarrow>
        ops \<le> pb_max_ops (bg_patch b) \<and> depth \<le> pb_max_path_depth (bg_patch b) \<and>
        val \<le> pb_max_value_bytes (bg_patch b)))"
proof -
  have rb: "run_bounded r" "run_budgets r = b" using run_history_bounded [OF assms] by simp_all
  have "byte_size m \<le> bg_max_state_bytes b \<and>
      (\<forall>ops depth val. patch_bounds m = Some (ops, depth, val) \<longrightarrow>
        ops \<le> pb_max_ops (bg_patch b) \<and> depth \<le> pb_max_path_depth (bg_patch b) \<and>
        val \<le> pb_max_value_bytes (bg_patch b))"
    if "run_inspect (F_StateMutation m) r = (Ready (E_StateMutation m), r')" for m r'
    using that rb(2)
    by (auto simp: run_inspect_def inspect_content_def check_mutation_def not_less
        split: if_splits option.splits)
  with rb show ?thesis by (auto simp: run_bounded_def)
qed

definition demo_budgets :: budgets where
  "demo_budgets = budgets_new 8 16 1"

definition demo_run :: run where
  "demo_run = (run_new 1 demo_budgets)\<lparr>run_phase := Running, run_names := [''c'' \<mapsto> ''fs''],
     run_open := [(''c'', \<lparr>tb_name = ''fs'', tb_arguments = ''{}''\<rparr>)]\<rparr>"

definition demo_history :: "(fragment \<times> structural_outcome) list" where
  "demo_history = [(F_Lifecycle RunStarted, Ready (E_Lifecycle RunStarted)),
     (F_ToolCallStarted ''c'' ''fs'', Buffering ''c''), (F_ToolCallArgs ''c'' ''{}'', Buffering ''c'')]"

lemmas run_eval = run_inspect_def inspect_lifecycle_def inspect_content_def tool_call_started_def
  tool_call_args_def tool_call_ended_def run_new_def demo_budgets_def budgets_new_def

lemma demo_run_history: "run_history 1 demo_budgets demo_history demo_run"
proof -
  let ?r1 = "(run_new 1 demo_budgets)\<lparr>run_phase := Running\<rparr>"
  let ?r2 = "?r1\<lparr>run_names := [''c'' \<mapsto> ''fs''], run_open := [(''c'', \<lparr>tb_name = ''fs'', tb_arguments = []\<rparr>)]\<rparr>"
  have "run_history 1 demo_budgets ([] @ [(F_Lifecycle RunStarted, Ready (E_Lifecycle RunStarted))]) ?r1"
    by (rule run_history.step [OF run_history.start]) (simp add: run_eval)
  then have "run_history 1 demo_budgets (([] @ [(F_Lifecycle RunStarted, Ready (E_Lifecycle RunStarted))]) @
      [(F_ToolCallStarted ''c'' ''fs'', Buffering ''c'')]) ?r2"
    by (rule run_history.step) (simp add: run_eval)
  then have "run_history 1 demo_budgets ((([] @ [(F_Lifecycle RunStarted, Ready (E_Lifecycle RunStarted))]) @
      [(F_ToolCallStarted ''c'' ''fs'', Buffering ''c'')]) @ [(F_ToolCallArgs ''c'' ''{}'', Buffering ''c'')]) demo_run"
    by (rule run_history.step) (simp add: run_eval demo_run_def)
  then show ?thesis by (simp add: demo_history_def)
qed

theorem run_stays_in_budget_witness:
  "length (run_open demo_run) \<le> 1 \<and> distinct (map fst (run_open demo_run)) \<and>
    list_all (\<lambda>(k, c). length (tb_arguments c) \<le> 8) (run_open demo_run)"
  using run_stays_in_budget [OF demo_run_history]
  by (simp add: demo_budgets_def budgets_new_def list_all_iff)

text \<open>C31: A tool call handed to the policy is the one the agent streamed: it is emitted only on the end of
  an open call, and its name and arguments are those of its accepted start and the concatenation of
  the argument pieces accepted since, with no other start or end of that id in between.\<close>

theorem resolved_call_is_assembled:
  assumes "run_history i b h r" and "run_inspect f r = (ResolvedCall k e, r')"
  shows "f = F_ToolCallEnded k \<and> map_of (run_open r') k = None \<and>
    (\<exists>n a. e = E_ToolCall k n a \<and> call_open k n a h \<and> length a \<le> bg_max_tool_args_bytes b)"
proof -
  obtain c where c: "f = F_ToolCallEnded k" "map_of (run_open r) k = Some c"
      "e = E_ToolCall k (tb_name c) (tb_arguments c)"
    using run_inspect_resolved [OF assms(2)] by blast
  have "map_of (run_open r') k = None"
    using assms(2) c by (auto simp: run_inspect_def inspect_content_def tool_call_ended_def split: if_splits)
  moreover have "length (tb_arguments c) \<le> bg_max_tool_args_bytes b"
    using run_history_bounded [OF assms(1)] map_of_SomeD [OF c(2)] by (auto simp: run_bounded_def)
  ultimately show ?thesis using c run_history_call_open [OF assms(1) c(2)] by blast
qed

theorem resolved_call_is_assembled_witness:
  "\<exists>r'. run_inspect (F_ToolCallEnded ''c'') demo_run = (ResolvedCall ''c'' (E_ToolCall ''c'' ''fs'' ''{}''), r') \<and>
    call_open ''c'' ''fs'' ''{}'' demo_history"
proof -
  obtain r' where r': "run_inspect (F_ToolCallEnded ''c'') demo_run =
      (ResolvedCall ''c'' (E_ToolCall ''c'' ''fs'' ''{}''), r')"
    by (simp add: run_eval demo_run_def)
  from resolved_call_is_assembled [OF demo_run_history r'] r' show ?thesis by auto
qed

text \<open>The accepted fragments of a run form one bracket: nothing before the run's start, exactly one
  start, and nothing after its end; everything outside is rejected.\<close>

lemma run_lifecycle_is_bracketed:
  assumes "run_history i b h r"
  shows "phase_shape (run_phase r) (accepted h)"
  by (rule run_history_phase [OF assms])

end
