(* ===== verification/Ssrf_Guard.thy ===== *)
theory Ssrf_Guard
  imports Run_Machine
begin

text \<open>
  The URL guard of the proxy crate
  (\<^verbatim>\<open>crates/agate-proxy/src/application/inspection/request.rs\<close>): which URLs in a text are refused.
  \<^verbatim>\<open>Url::parse\<close> and the host resolver are parameters; the address predicates of \<^verbatim>\<open>std::net\<close>
  are modelled on 32-bit and 128-bit words.
\<close>

unbundle bit_operations_syntax

section \<open>Addresses\<close>

type_synonym ipv4 = "32 word"
type_synonym ipv6 = "128 word"

datatype ip_addr = V4 ipv4 | V6 ipv6

definition octet :: "ipv4 \<Rightarrow> nat \<Rightarrow> nat" where
  "octet ip i = unat ip div 2 ^ (24 - 8 * i) mod 256"

text \<open>\<^verbatim>\<open>Ipv4Addr::is_loopback\<close>, \<^verbatim>\<open>is_private\<close>, \<^verbatim>\<open>is_link_local\<close>, \<^verbatim>\<open>is_unspecified\<close>, \<^verbatim>\<open>is_broadcast\<close>.\<close>

definition v4_loopback :: "ipv4 \<Rightarrow> bool" where
  "v4_loopback ip = (octet ip 0 = 127)"

definition v4_private :: "ipv4 \<Rightarrow> bool" where
  "v4_private ip =
    (octet ip 0 = 10 \<or> (octet ip 0 = 172 \<and> 16 \<le> octet ip 1 \<and> octet ip 1 \<le> 31) \<or>
     (octet ip 0 = 192 \<and> octet ip 1 = 168))"

definition v4_link_local :: "ipv4 \<Rightarrow> bool" where
  "v4_link_local ip = (octet ip 0 = 169 \<and> octet ip 1 = 254)"

definition is_blocked_v4 :: "ipv4 \<Rightarrow> bool" where
  "is_blocked_v4 ip = (v4_loopback ip \<or> v4_private ip \<or> v4_link_local ip \<or> ip = 0 \<or> ip = - 1)"

text \<open>\<^verbatim>\<open>Ipv6Addr::segments\<close> and \<^verbatim>\<open>to_ipv4_mapped\<close>.\<close>

definition segments :: "ipv6 \<Rightarrow> nat list" where
  "segments ip = map (\<lambda>i. unat ip div 2 ^ (16 * i) mod 65536) [7, 6, 5, 4, 3, 2, 1, 0]"

definition to_ipv4_mapped :: "ipv6 \<Rightarrow> ipv4 option" where
  "to_ipv4_mapped ip = (if unat ip div 2 ^ 32 = 0xFFFF then Some (word_of_nat (unat ip mod 2 ^ 32)) else None)"

definition is_blocked_v6 :: "ipv6 \<Rightarrow> bool" where
  "is_blocked_v6 ip =
    (case to_ipv4_mapped ip of
       Some mapped \<Rightarrow> is_blocked_v4 mapped
     | None \<Rightarrow>
         let first = List.hd (segments ip) in
         ip = 1 \<or> ip = 0 \<or> (word_of_nat first AND (0xFE00 :: 16 word)) = 0xFC00 \<or>
         (word_of_nat first AND (0xFFC0 :: 16 word)) = 0xFE80)"

fun is_blocked :: "ip_addr \<Rightarrow> bool" where
  "is_blocked (V4 ip) = is_blocked_v4 ip"
| "is_blocked (V6 ip) = is_blocked_v6 ip"

subsection \<open>Display\<close>

fun join :: "string \<Rightarrow> string list \<Rightarrow> string" where
  "join sep [] = []"
| "join sep [x] = x"
| "join sep (x # y # xs) = x @ sep @ join sep (y # xs)"

definition show_v4 :: "ipv4 \<Rightarrow> string" where
  "show_v4 ip = join ''.'' (map (\<lambda>i. show_nat (octet ip i)) [0, 1, 2, 3])"

definition hex_char :: "nat \<Rightarrow> char" where
  "hex_char n = (if n < 10 then char_of (48 + n) else char_of (87 + n))"

fun show_hex :: "nat \<Rightarrow> string" where
  "show_hex n = (if n < 16 then [hex_char n] else show_hex (n div 16) @ [hex_char (n mod 16)])"

declare show_hex.simps [simp del]

text \<open>The first longest run of zero segments, as start and length.\<close>

fun zero_runs :: "nat \<Rightarrow> nat list \<Rightarrow> (nat \<times> nat) \<Rightarrow> (nat \<times> nat) \<Rightarrow> nat \<times> nat" where
  "zero_runs i [] cur best = best"
| "zero_runs i (s # ss) cur best =
    (if s = 0 then
       let c = (if snd cur = 0 then (i, 1) else (fst cur, snd cur + 1)) in
       zero_runs (i + 1) ss c (if snd c > snd best then c else best)
     else zero_runs (i + 1) ss (0, 0) best)"

definition show_v6 :: "ipv6 \<Rightarrow> string" where
  "show_v6 ip =
    (case to_ipv4_mapped ip of
       Some v4 \<Rightarrow> ''::ffff:'' @ show_v4 v4
     | None \<Rightarrow>
         (case zero_runs 0 (segments ip) (0, 0) (0, 0) of (start, len) \<Rightarrow>
            let segs = segments ip in
            if len > 1 then
              join '':'' (map show_hex (take start segs)) @ ''::'' @
              join '':'' (map show_hex (drop (start + len) segs))
            else join '':'' (map show_hex segs)))"

fun show_ip :: "ip_addr \<Rightarrow> string" where
  "show_ip (V4 ip) = show_v4 ip"
| "show_ip (V6 ip) = show_v6 ip"

section \<open>URLs\<close>

datatype url_host = Host_Domain string | Host_Ipv4 ipv4 | Host_Ipv6 ipv6

record url =
  url_scheme :: string
  url_host_of :: "url_host option"

datatype url_verdict = Allowed | Blocked string | Resolve string

definition backtick :: "string \<Rightarrow> string" where
  "backtick s = [CHR 0x60] @ s @ [CHR 0x60]"

definition trim_set :: "char list" where
  "trim_set = ''.,()[]{}'' @ [CHR 0x22, CHR 0x27] @ ''<>''"

definition trim_matches :: "char list \<Rightarrow> string \<Rightarrow> string" where
  "trim_matches cs s = rev (dropWhile (\<lambda>c. c \<in> set cs) (rev (dropWhile (\<lambda>c. c \<in> set cs) s)))"

definition classify_url :: "(string \<Rightarrow> url option) \<Rightarrow> string \<Rightarrow> url_verdict" where
  "classify_url url_parse token =
    (case url_parse (trim_matches trim_set token) of
       None \<Rightarrow> Allowed
     | Some u \<Rightarrow>
         if url_scheme u \<noteq> ''http'' \<and> url_scheme u \<noteq> ''https''
         then Blocked (''disallowed URL scheme '' @ backtick (url_scheme u))
         else case url_host_of u of
           None \<Rightarrow> Allowed
         | Some (Host_Domain d) \<Rightarrow>
             let domain = to_ascii_lowercase d in
             if domain = ''localhost'' \<or> suffix ''.localhost'' domain \<or> domain = ''metadata.google.internal''
             then Blocked (''URL host '' @ backtick domain @ '' is not allowed'')
             else Resolve domain
         | Some (Host_Ipv4 ip) \<Rightarrow>
             if is_blocked_v4 ip then Blocked (''URL host '' @ show_v4 ip @ '' is a private/loopback address'')
             else Allowed
         | Some (Host_Ipv6 ip) \<Rightarrow>
             if is_blocked_v6 ip then Blocked (''URL host ['' @ show_v6 ip @ ''] is a private/loopback address'')
             else Allowed)"

text \<open>Splitting on white space and on the punctuation of JSON.\<close>

definition split_punct :: "char list" where
  "split_punct = [CHR 0x22, CHR 0x27] @ ''{},''"

definition sep_len :: "string \<Rightarrow> nat" where
  "sep_len s = (if ws_len s > 0 then ws_len s else case s of [] \<Rightarrow> 0 | c # _ \<Rightarrow> if c \<in> set split_punct then 1 else 0)"

lemma sep_len_le: "sep_len s \<le> length s"
  using ws_len_le [of s] by (cases s) (simp_all add: sep_len_def del: ws_len.simps)

function split_tokens :: "string \<Rightarrow> string \<Rightarrow> string list" where
  "split_tokens cur s =
    (if s = [] then [cur]
     else if sep_len s > 0 then cur # split_tokens [] (drop (sep_len s) s)
     else split_tokens (cur @ [List.hd s]) (tl s))"
  by pat_completeness auto
termination
proof (relation "measure (\<lambda>(cur, s). length s)", simp)
  fix cur s :: string
  assume "s \<noteq> []" "0 < sep_len s"
  then show "(([], drop (sep_len s) s), (cur, s)) \<in> measure (\<lambda>(cur, s). length s)"
    by simp
qed auto

declare split_tokens.simps [simp del]

definition resolved_reason :: "string \<Rightarrow> ip_addr list \<Rightarrow> string option" where
  "resolved_reason host ips =
    map_option (\<lambda>ip. ''URL host '' @ backtick host @ '' resolves to private/loopback address '' @ show_ip ip)
      (find is_blocked ips)"

fun scan_tokens :: "(string \<Rightarrow> url option) \<Rightarrow> (string \<Rightarrow> ip_addr list) \<Rightarrow> string list \<Rightarrow> deny_reason option" where
  "scan_tokens url_parse resolve [] = None"
| "scan_tokens url_parse resolve (t # ts) =
    (case classify_url url_parse t of
       Allowed \<Rightarrow> scan_tokens url_parse resolve ts
     | Blocked reason \<Rightarrow> Some reason
     | Resolve host \<Rightarrow>
         (case resolved_reason host (resolve host) of
            Some reason \<Rightarrow> Some reason
          | None \<Rightarrow> scan_tokens url_parse resolve ts))"

definition first_disallowed_url ::
    "(string \<Rightarrow> url option) \<Rightarrow> (string \<Rightarrow> ip_addr list) \<Rightarrow> string \<Rightarrow> deny_reason option" where
  "first_disallowed_url url_parse resolve s =
    scan_tokens url_parse resolve (filter (contains ''://'') (split_tokens [] s))"

section \<open>What the guard lets through\<close>

text \<open>The URL a token stands for is safe: http or https, not a loopback, private, link-local,
  unspecified or broadcast address, not a local name, and no address of its name is one of these.\<close>

definition safe_url :: "(string \<Rightarrow> ip_addr list) \<Rightarrow> url \<Rightarrow> bool" where
  "safe_url resolve u \<longleftrightarrow>
    url_scheme u \<in> {''http'', ''https''} \<and>
    (case url_host_of u of
       None \<Rightarrow> True
     | Some (Host_Ipv4 ip) \<Rightarrow> \<not> is_blocked (V4 ip)
     | Some (Host_Ipv6 ip) \<Rightarrow> \<not> is_blocked (V6 ip)
     | Some (Host_Domain d) \<Rightarrow>
         (let domain = to_ascii_lowercase d in
          domain \<notin> {''localhost'', ''metadata.google.internal''} \<and> \<not> suffix ''.localhost'' domain \<and>
          list_all (\<lambda>ip. \<not> is_blocked ip) (resolve domain)))"

lemma resolved_reason_None: "resolved_reason host ips = None \<longleftrightarrow> list_all (\<lambda>ip. \<not> is_blocked ip) ips"
  by (auto simp: resolved_reason_def find_None_iff list_all_iff)

lemma classify_url_safe:
  assumes "url_parse (trim_matches trim_set t) = Some u"
  shows "(case classify_url url_parse t of
      Allowed \<Rightarrow> True | Blocked _ \<Rightarrow> False | Resolve host \<Rightarrow> resolved_reason host (resolve host) = None) \<longleftrightarrow>
    safe_url resolve u"
proof (cases "url_scheme u = ''http'' \<or> url_scheme u = ''https''")
  case True
  then have sch: "\<not> (url_scheme u \<noteq> ''http'' \<and> url_scheme u \<noteq> ''https'')" by blast
  show ?thesis
  proof (cases "url_host_of u")
    case None
    with True sch assms show ?thesis by (simp only: classify_url_def safe_url_def) simp
  next
    case (Some host)
    show ?thesis
    proof (cases host)
      case (Host_Domain d)
      let ?local = "to_ascii_lowercase d = ''localhost'' \<or> suffix ''.localhost'' (to_ascii_lowercase d) \<or>
          to_ascii_lowercase d = ''metadata.google.internal''"
      have "safe_url resolve u \<longleftrightarrow> \<not> ?local \<and> resolved_reason (to_ascii_lowercase d) (resolve (to_ascii_lowercase d)) = None"
        using True Some Host_Domain by (auto simp: safe_url_def resolved_reason_None Let_def)
      moreover have "classify_url url_parse t =
          (if ?local then Blocked (''URL host '' @ backtick (to_ascii_lowercase d) @ '' is not allowed'')
           else Resolve (to_ascii_lowercase d))"
        using sch Some Host_Domain assms by (simp only: classify_url_def Let_def option.case url_host.case if_False)
      ultimately show ?thesis by simp
    next
      case (Host_Ipv4 ip)
      with True sch Some assms show ?thesis by (simp add: classify_url_def safe_url_def)
    next
      case (Host_Ipv6 ip)
      with True sch Some assms show ?thesis by (simp add: classify_url_def safe_url_def)
    qed
  qed
next
  case False
  with assms show ?thesis by (simp add: classify_url_def safe_url_def)
qed

lemma scan_tokens_None:
  "scan_tokens url_parse resolve ts = None \<longleftrightarrow>
    (\<forall>t \<in> set ts. \<forall>u. url_parse (trim_matches trim_set t) = Some u \<longrightarrow> safe_url resolve u)"
proof (induction ts)
  case (Cons t ts)
  show ?case
  proof (cases "url_parse (trim_matches trim_set t)")
    case None
    with Cons show ?thesis by (simp add: classify_url_def)
  next
    case (Some u)
    with Cons classify_url_safe [where url_parse = url_parse and t = t and resolve = resolve, OF Some] show ?thesis
      by (auto split: url_verdict.splits option.splits)
  qed
qed simp

lemma split_tokens_no_sep:
  "\<forall>k < length s. sep_len (drop k s) = 0 \<Longrightarrow> split_tokens cur s = [cur @ s]"
proof (induction s arbitrary: cur)
  case Nil
  show ?case by (simp add: split_tokens.simps)
next
  case (Cons c s)
  have "sep_len (c # s) = 0" using Cons.prems by (auto dest: spec [of _ 0])
  moreover have "\<forall>k < length s. sep_len (drop k s) = 0"
    using Cons.prems by (metis Suc_less_eq drop_Suc_Cons length_Cons)
  ultimately show ?case using Cons.IH by (simp add: split_tokens.simps [of cur "c # s"])
qed

lemma split_tokens_sublist: "t \<in> set (split_tokens cur s) \<Longrightarrow> sublist t (cur @ s)"
proof (induction cur s rule: split_tokens.induct)
  case (1 cur s)
  show ?case
  proof (cases "s = []")
    case True
    with 1 show ?thesis by (simp add: split_tokens.simps)
  next
    case ne: False
    show ?thesis
    proof (cases "sep_len s > 0")
      case True
      with ne 1(3) have "t = cur \<or> t \<in> set (split_tokens [] (drop (sep_len s) s))"
        by (simp add: split_tokens.simps [of cur s])
      then show ?thesis
      proof
        assume "t \<in> set (split_tokens [] (drop (sep_len s) s))"
        from 1(1) [OF ne True this] have "sublist t (drop (sep_len s) s)" by simp
        then have "sublist t s" by (meson sublist_drop sublist_order.order.trans)
        then show ?thesis by (meson sublist_append_leftI sublist_order.order.trans)
      qed simp
    next
      case False
      with ne 1(3) have "t \<in> set (split_tokens (cur @ [List.hd s]) (tl s))"
        by (simp add: split_tokens.simps [of cur s])
      from 1(2) [OF ne False this] ne show ?thesis by simp
    qed
  qed
qed

lemma no_scheme_no_screen: "\<not> sublist ''://'' s \<Longrightarrow> first_disallowed_url url_parse resolve s = None"
proof -
  assume s: "\<not> sublist ''://'' s"
  have "\<not> sublist ''://'' t" if "t \<in> set (split_tokens [] s)" for t
    using split_tokens_sublist [OF that] s by (metis append_Nil sublist_order.order.trans)
  then have "filter (contains ''://'') (split_tokens [] s) = []" by (simp add: filter_empty_conv)
  then show ?thesis by (simp add: first_disallowed_url_def)
qed

section \<open>Address ranges\<close>

lemma div_eq_range: "0 < m \<Longrightarrow> n div m = a \<longleftrightarrow> m * a \<le> n \<and> n < m * Suc a" for n m a :: nat
  by (auto simp: div_nat_eqI dividend_less_times_div)

lemma unat_32: "unat ip < 2 ^ 32" for ip :: ipv4
  using unsigned_less [of ip] by simp

lemma octet_0: "octet ip 0 = a \<longleftrightarrow> 2 ^ 24 * a \<le> unat ip \<and> unat ip < 2 ^ 24 * Suc a" if "a < 256"
proof -
  have "unat ip < 2 ^ 32" by (rule unat_32)
  then have "unat ip div 2 ^ 24 < 256" by (simp add: less_mult_imp_div_less)
  then show ?thesis using div_eq_range [of "2 ^ 24" "unat ip" a] by (simp add: octet_def)
qed

lemma octet_01: "octet ip 0 = a \<and> octet ip 1 = b \<longleftrightarrow> 2 ^ 16 * (256 * a + b) \<le> unat ip \<and> unat ip < 2 ^ 16 * Suc (256 * a + b)"
  if "a < 256" "b < 256"
proof -
  have "unat ip < 2 ^ 32" by (rule unat_32)
  then have q: "unat ip div 2 ^ 16 < 65536" by (simp add: less_mult_imp_div_less)
  have "unat ip div 2 ^ 24 = unat ip div 2 ^ 16 div 256" by (simp add: div_mult2_eq [symmetric])
  then have "octet ip 0 = unat ip div 2 ^ 16 div 256" "octet ip 1 = unat ip div 2 ^ 16 mod 256"
    using q by (simp_all add: octet_def)
  moreover have "x div 256 = a \<and> x mod 256 = b \<longleftrightarrow> x = 256 * a + b" for x
    using that by (metis div_mod_decomp mod_mult_self4 div_mult_self4 div_less mod_less add.commute add_0 mult.commute zero_neq_numeral)
  ultimately show ?thesis using div_eq_range [of "2 ^ 16" "unat ip" "256 * a + b"] by simp
qed

definition in_range :: "ipv4 \<Rightarrow> nat \<Rightarrow> nat \<Rightarrow> bool" where
  "in_range ip lo hi \<longleftrightarrow> lo \<le> unat ip \<and> unat ip \<le> hi"

lemma octet_less: "octet ip i < 256"
  by (simp add: octet_def)

lemma v4_ranges:
  "v4_loopback ip \<longleftrightarrow> in_range ip 0x7F000000 0x7FFFFFFF"
  "v4_link_local ip \<longleftrightarrow> in_range ip 0xA9FE0000 0xA9FEFFFF"
  "octet ip 0 = 10 \<longleftrightarrow> in_range ip 0x0A000000 0x0AFFFFFF"
  "octet ip 0 = 192 \<and> octet ip 1 = 168 \<longleftrightarrow> in_range ip 0xC0A80000 0xC0A8FFFF"
proof -
  have le: "a < b \<longleftrightarrow> a \<le> b - 1" if "0 < b" for a b :: nat using that by linarith
  show "v4_loopback ip \<longleftrightarrow> in_range ip 0x7F000000 0x7FFFFFFF"
    using octet_0 [of 127 ip] by (simp add: v4_loopback_def in_range_def le)
  show "v4_link_local ip \<longleftrightarrow> in_range ip 0xA9FE0000 0xA9FEFFFF"
    using octet_01 [of 169 254 ip] by (simp add: v4_link_local_def in_range_def le)
  show "octet ip 0 = 10 \<longleftrightarrow> in_range ip 0x0A000000 0x0AFFFFFF"
    using octet_0 [of 10 ip] by (simp add: in_range_def le)
  show "octet ip 0 = 192 \<and> octet ip 1 = 168 \<longleftrightarrow> in_range ip 0xC0A80000 0xC0A8FFFF"
    using octet_01 [of 192 168 ip] by (simp add: in_range_def le)
qed

lemma v4_172: "octet ip 0 = 172 \<and> 16 \<le> octet ip 1 \<and> octet ip 1 \<le> 31 \<longleftrightarrow> in_range ip 0xAC100000 0xAC1FFFFF"
proof
  assume a: "octet ip 0 = 172 \<and> 16 \<le> octet ip 1 \<and> octet ip 1 \<le> 31"
  then have "2 ^ 16 * (256 * 172 + octet ip 1) \<le> unat ip \<and> unat ip < 2 ^ 16 * Suc (256 * 172 + octet ip 1)"
    using octet_01 [of 172 "octet ip 1" ip] octet_less by simp
  with a show "in_range ip 0xAC100000 0xAC1FFFFF" by (auto simp: in_range_def)
next
  assume r: "in_range ip 0xAC100000 0xAC1FFFFF"
  then have o: "octet ip 0 = 172" using octet_0 [of 172 ip] by (simp add: in_range_def)
  then have "2 ^ 16 * (256 * 172 + octet ip 1) \<le> unat ip \<and> unat ip < 2 ^ 16 * Suc (256 * 172 + octet ip 1)"
    using octet_01 [of 172 "octet ip 1" ip] octet_less by simp
  with r o show "octet ip 0 = 172 \<and> 16 \<le> octet ip 1 \<and> octet ip 1 \<le> 31" by (auto simp: in_range_def)
qed

lemma unat_ends: "ip = 0 \<longleftrightarrow> in_range ip 0 0" "ip = - 1 \<longleftrightarrow> in_range ip 0xFFFFFFFF 0xFFFFFFFF" for ip :: ipv4
proof -
  have "unat (- 1 :: ipv4) = 0xFFFFFFFF" by (simp add: unsigned_minus_1_eq_mask mask_numeral)
  then show "ip = - 1 \<longleftrightarrow> in_range ip 0xFFFFFFFF 0xFFFFFFFF"
    by (auto simp: in_range_def word_unat_eq_iff)
  show "ip = 0 \<longleftrightarrow> in_range ip 0 0"
    by (auto simp: in_range_def word_unat_eq_iff)
qed

section \<open>Properties\<close>

text \<open>C14: The guard is exact: it lets a text through if and only if every piece of it (cut at white
  space, quotes, braces and commas) that contains a scheme separator and parses as a URL is safe, that is http or https whose
  host, if it has one, is an address outside the refused ranges (loopback, private or unique local, link-local, unspecified,
  broadcast), or a name other than \<^verbatim>\<open>localhost\<close>, its subdomains and \<^verbatim>\<open>metadata.google.internal\<close> none of
  whose resolved addresses is in these ranges; a name that does not resolve passes.\<close>

theorem url_guard_exact:
  "first_disallowed_url url_parse resolve s = None \<longleftrightarrow>
    (\<forall>t \<in> set (split_tokens [] s). sublist ''://'' t \<longrightarrow>
      (\<forall>u. url_parse (trim_matches trim_set t) = Some u \<longrightarrow> safe_url resolve u))"
  unfolding first_disallowed_url_def scan_tokens_None by auto

definition demo_url_parse :: "string \<Rightarrow> url option" where
  "demo_url_parse s =
    (if s = ''http://10.0.0.1'' then Some \<lparr>url_scheme = ''http'', url_host_of = Some (Host_Ipv4 0x0A000001)\<rparr>
     else if s = ''http://example.com'' then Some \<lparr>url_scheme = ''http'', url_host_of = Some (Host_Domain ''example.com'')\<rparr>
     else None)"

theorem url_guard_exact_witness:
  "first_disallowed_url demo_url_parse (\<lambda>_. [V4 0x08080808]) ''see http://10.0.0.1, ok'' \<noteq> None"
proof -
  let ?s = "''see http://10.0.0.1, ok''"
  have "''http://10.0.0.1'' \<in> set (split_tokens [] ?s)" by code_simp
  moreover have "sublist ''://'' ''http://10.0.0.1''" by code_simp
  moreover have "demo_url_parse (trim_matches trim_set ''http://10.0.0.1'') =
      Some \<lparr>url_scheme = ''http'', url_host_of = Some (Host_Ipv4 0x0A000001)\<rparr>" by code_simp
  moreover have "\<not> safe_url (\<lambda>_. [V4 0x08080808]) \<lparr>url_scheme = ''http'', url_host_of = Some (Host_Ipv4 0x0A000001)\<rparr>"
    by (simp add: safe_url_def is_blocked_v4_def v4_private_def octet_def)
  ultimately show ?thesis unfolding url_guard_exact by blast
qed

text \<open>C32: The refused IPv4 addresses are exactly 0.0.0.0, 10.0.0.0/8, 127.0.0.0/8, 169.254.0.0/16,
  172.16.0.0/12, 192.168.0.0/16 and 255.255.255.255, and an IPv6 address that embeds an IPv4
  address in the mapped form is refused exactly when the IPv4 address is.\<close>

theorem blocked_address_ranges:
  "(is_blocked (V4 ip) \<longleftrightarrow>
      in_range ip 0 0 \<or> in_range ip 0x0A000000 0x0AFFFFFF \<or> in_range ip 0x7F000000 0x7FFFFFFF \<or>
      in_range ip 0xA9FE0000 0xA9FEFFFF \<or> in_range ip 0xAC100000 0xAC1FFFFF \<or>
      in_range ip 0xC0A80000 0xC0A8FFFF \<or> in_range ip 0xFFFFFFFF 0xFFFFFFFF) \<and>
   is_blocked (V6 (word_of_nat (0xFFFF * 2 ^ 32 + unat ip))) = is_blocked (V4 ip)"
proof -
  have "unat (word_of_nat (0xFFFF * 2 ^ 32 + unat ip) :: ipv6) = 0xFFFF * 2 ^ 32 + unat ip"
    using unat_32 [of ip] by (subst unat_of_nat) simp
  moreover have "(0xFFFF * 2 ^ 32 + unat ip) div 2 ^ 32 = 0xFFFF" using unat_32 [of ip] by simp
  moreover have "(0xFFFF * 2 ^ 32 + unat ip) mod 2 ^ 32 = unat ip"
    using unat_32 [of ip] by (metis mod_mult_self3 mod_less)
  ultimately have "to_ipv4_mapped (word_of_nat (0xFFFF * 2 ^ 32 + unat ip)) = Some ip"
    by (simp only: to_ipv4_mapped_def if_True) (simp add: word_unat_eq_iff)
  then have "is_blocked (V6 (word_of_nat (0xFFFF * 2 ^ 32 + unat ip))) = is_blocked (V4 ip)"
    by (simp add: is_blocked_v6_def)
  moreover have "is_blocked (V4 ip) \<longleftrightarrow>
      in_range ip 0 0 \<or> in_range ip 0x0A000000 0x0AFFFFFF \<or> in_range ip 0x7F000000 0x7FFFFFFF \<or>
      in_range ip 0xA9FE0000 0xA9FEFFFF \<or> in_range ip 0xAC100000 0xAC1FFFFF \<or>
      in_range ip 0xC0A80000 0xC0A8FFFF \<or> in_range ip 0xFFFFFFFF 0xFFFFFFFF"
    unfolding is_blocked.simps is_blocked_v4_def v4_private_def v4_172 v4_ranges unat_ends by blast
  ultimately show ?thesis by blast
qed

text \<open>A JSON string may write every slash as a backslash followed by a slash.\<close>

fun escape_slashes :: "string \<Rightarrow> string" where
  "escape_slashes [] = []"
| "escape_slashes (c # s) = (if c = CHR ''/'' then [CHR 0x5C, CHR ''/''] else [c]) @ escape_slashes s"

lemma escape_slashes_head [simp]: "\<not> prefix ''//'' (escape_slashes s)"
  by (cases s) simp_all

lemma escape_slashes_no_scheme: "\<not> sublist ''://'' (escape_slashes s)"
  by (induction s) (auto simp: sublist_Cons_right escape_slashes_head)

text \<open>C33: The guard reads the raw text: tool-call arguments whose JSON writes the slashes of a URL
  as escapes, an equivalent spelling of the same string, are never screened, whatever the URL.\<close>

theorem escaped_urls_are_not_screened:
  "first_disallowed_url url_parse resolve (escape_slashes s) = None"
  by (rule no_scheme_no_screen [OF escape_slashes_no_scheme])

end
