(* ===== verification/Session_Memory.thy ===== *)
theory Session_Memory
  imports Run_Machine
begin

text \<open>
  The replay memory of the proxy crate: the port \<^verbatim>\<open>SessionMemory\<close> as a locale, its disabled and
  its process-local adapter (\<^verbatim>\<open>infrastructure/policy/session_memory.rs\<close>) and the Redis adapter
  (\<^verbatim>\<open>redis_session_memory.rs\<close>) over a parameter that stands for the server.  An instant of the
  monotonic clock is a natural number; the clock reading is an argument.
\<close>

section \<open>Adapters\<close>

definition noop_recall :: "nat \<Rightarrow> uuid \<Rightarrow> string \<Rightarrow> unit \<Rightarrow> deny_reason option \<times> unit" where
  "noop_recall now session tool m = (None, m)"

definition noop_remember :: "nat \<Rightarrow> uuid \<Rightarrow> string \<Rightarrow> deny_reason \<Rightarrow> unit \<Rightarrow> unit" where
  "noop_remember now session tool reason m = m"

record session_ledger =
  sl_expires_at :: nat
  sl_denied_tools :: "string \<rightharpoonup> deny_reason"

type_synonym sessions = "uuid \<rightharpoonup> session_ledger"

definition mem_recall :: "nat \<Rightarrow> nat \<Rightarrow> uuid \<Rightarrow> string \<Rightarrow> sessions \<Rightarrow> deny_reason option \<times> sessions" where
  "mem_recall ttl now session tool m =
    (case m session of
       None \<Rightarrow> (None, m)
     | Some ledger \<Rightarrow>
         if sl_expires_at ledger \<le> now then (None, m(session := None))
         else (sl_denied_tools ledger tool, m(session \<mapsto> ledger\<lparr>sl_expires_at := now + ttl\<rparr>)))"

definition mem_remember :: "nat \<Rightarrow> nat \<Rightarrow> uuid \<Rightarrow> string \<Rightarrow> deny_reason \<Rightarrow> sessions \<Rightarrow> sessions" where
  "mem_remember ttl now session tool reason m =
    (let ledger = (case m session of
           None \<Rightarrow> \<lparr>sl_expires_at = now + ttl, sl_denied_tools = Map.empty\<rparr>
         | Some l \<Rightarrow> l);
         ledger = ledger\<lparr>sl_expires_at := now + ttl\<rparr> in
     m(session \<mapsto>
       (if sl_denied_tools ledger tool = None
        then ledger\<lparr>sl_denied_tools := (sl_denied_tools ledger)(tool \<mapsto> reason)\<rparr> else ledger)))"

text \<open>One tick of the pruner.\<close>

definition mem_prune :: "nat \<Rightarrow> sessions \<Rightarrow> sessions" where
  "mem_prune now m =
    (\<lambda>s. case m s of None \<Rightarrow> None | Some l \<Rightarrow> if sl_expires_at l > now then Some l else None)"

section \<open>Redis\<close>

text \<open>The server: connecting, \<^verbatim>\<open>HGET\<close>, \<^verbatim>\<open>HSETNX\<close> and \<^verbatim>\<open>EXPIRE\<close>; \<^term>\<open>None\<close> is an error of the command.\<close>

record 'q redis_api =
  rd_connect :: "'q \<Rightarrow> bool \<times> 'q"
  rd_hget :: "string \<Rightarrow> string \<Rightarrow> 'q \<Rightarrow> string option option \<times> 'q"
  rd_hset_nx :: "string \<Rightarrow> string \<Rightarrow> string \<Rightarrow> 'q \<Rightarrow> unit option \<times> 'q"
  rd_expire :: "string \<Rightarrow> int \<Rightarrow> 'q \<Rightarrow> 'q"

record 'q redis_memory =
  rm_connected :: bool
  rm_cooldown_until :: "nat option"
  rm_ttl_secs :: int
  rm_server :: 'q

definition CONNECT_COOLDOWN :: nat where
  "CONNECT_COOLDOWN = 5"

definition redis_new :: "nat \<Rightarrow> 'q \<Rightarrow> 'q redis_memory" where
  "redis_new ttl_secs q =
    \<lparr>rm_connected = False, rm_cooldown_until = None,
     rm_ttl_secs = (if max 1 (int ttl_secs) < 2 ^ 63 then max 1 (int ttl_secs) else 2 ^ 63 - 1), rm_server = q\<rparr>"

definition redis_connection :: "'q redis_api \<Rightarrow> nat \<Rightarrow> 'q redis_memory \<Rightarrow> bool \<times> 'q redis_memory" where
  "redis_connection api now rm =
    (if rm_connected rm then (True, rm)
     else if (case rm_cooldown_until rm of None \<Rightarrow> False | Some deadline \<Rightarrow> now < deadline) then (False, rm)
     else case rd_connect api (rm_server rm) of
       (True, q) \<Rightarrow> (True, rm\<lparr>rm_connected := True, rm_server := q\<rparr>)
     | (False, q) \<Rightarrow> (False, rm\<lparr>rm_cooldown_until := Some (now + CONNECT_COOLDOWN), rm_server := q\<rparr>))"

definition redis_key :: "(uuid \<Rightarrow> string) \<Rightarrow> uuid \<Rightarrow> string" where
  "redis_key show_uuid session = ''agate:session:'' @ show_uuid session"

definition redis_recall ::
    "'q redis_api \<Rightarrow> (uuid \<Rightarrow> string) \<Rightarrow> nat \<Rightarrow> uuid \<Rightarrow> string \<Rightarrow> 'q redis_memory \<Rightarrow>
      deny_reason option \<times> 'q redis_memory" where
  "redis_recall api show_uuid now session tool rm =
    (case redis_connection api now rm of
       (False, rm) \<Rightarrow> (None, rm)
     | (True, rm) \<Rightarrow>
         let key = redis_key show_uuid session in
         (case rd_hget api key tool (rm_server rm) of (res, q) \<Rightarrow>
            let reason = (case res of None \<Rightarrow> None | Some r \<Rightarrow> r) in
            (reason, rm\<lparr>rm_server := if reason \<noteq> None then rd_expire api key (rm_ttl_secs rm) q else q\<rparr>)))"

definition redis_remember ::
    "'q redis_api \<Rightarrow> (uuid \<Rightarrow> string) \<Rightarrow> nat \<Rightarrow> uuid \<Rightarrow> string \<Rightarrow> deny_reason \<Rightarrow> 'q redis_memory \<Rightarrow> 'q redis_memory" where
  "redis_remember api show_uuid now session tool reason rm =
    (case redis_connection api now rm of
       (False, rm) \<Rightarrow> rm
     | (True, rm) \<Rightarrow>
         let key = redis_key show_uuid session in
         (case rd_hset_nx api key tool reason (rm_server rm) of
            (None, q) \<Rightarrow> rm\<lparr>rm_server := q\<rparr>
          | (Some _, q) \<Rightarrow> rm\<lparr>rm_server := rd_expire api key (rm_ttl_secs rm) q\<rparr>))"

section \<open>The port\<close>

text \<open>What every adapter promises: it only ever returns a reason it was given for that session and
  tool.  \<^verbatim>\<open>denied\<close> is the content of the ledger.\<close>

datatype mem_op = Recall nat uuid string | Remember nat uuid string deny_reason | Prune nat

locale replay_memory =
  fixes recall :: "nat \<Rightarrow> uuid \<Rightarrow> string \<Rightarrow> 'm \<Rightarrow> deny_reason option \<times> 'm"
    and remember :: "nat \<Rightarrow> uuid \<Rightarrow> string \<Rightarrow> deny_reason \<Rightarrow> 'm \<Rightarrow> 'm"
    and prune :: "nat \<Rightarrow> 'm \<Rightarrow> 'm"
    and denied :: "'m \<Rightarrow> uuid \<Rightarrow> string \<Rightarrow> deny_reason option"
  assumes recall_sound: "recall now s t m = (Some r, m') \<Longrightarrow> denied m s t = Some r"
    and recall_keeps: "denied (snd (recall now s t m)) s' t' = Some r \<Longrightarrow> denied m s' t' = Some r"
    and remember_adds: "denied (remember now s t r m) s' t' = Some r' \<Longrightarrow>
      denied m s' t' = Some r' \<or> (s' = s \<and> t' = t \<and> r' = r)"
    and prune_keeps: "denied (prune now m) s t = Some r \<Longrightarrow> denied m s t = Some r"
begin

fun apply_op :: "mem_op \<Rightarrow> 'm \<Rightarrow> 'm" where
  "apply_op (Recall now s t) m = snd (recall now s t m)"
| "apply_op (Remember now s t r) m = remember now s t r m"
| "apply_op (Prune now) m = prune now m"

lemma ops_only_add:
  "denied (fold apply_op ops m) s t = Some r \<Longrightarrow>
    denied m s t = Some r \<or> (\<exists>now. Remember now s t r \<in> set ops)"
proof (induction ops arbitrary: m)
  case (Cons x ops)
  from Cons.IH [of "apply_op x m"] Cons.prems
  consider "denied (apply_op x m) s t = Some r" | now where "Remember now s t r \<in> set ops" by auto
  then show ?case
  proof cases
    case 1
    then show ?thesis
      by (cases x) (auto dest: recall_keeps prune_keeps remember_adds)
  qed auto
qed simp

lemma recalled_was_remembered:
  assumes "\<And>s t. denied m s t = None" and "recall now s t (fold apply_op ops m) = (Some r, m')"
  shows "\<exists>now. Remember now s t r \<in> set ops"
  using ops_only_add recall_sound [OF assms(2)] assms(1) by fastforce

end

definition mem_denied :: "sessions \<Rightarrow> uuid \<Rightarrow> string \<Rightarrow> deny_reason option" where
  "mem_denied m s t = Option.bind (m s) (\<lambda>l. sl_denied_tools l t)"

interpretation noop: replay_memory noop_recall noop_remember "\<lambda>_ m. m" "\<lambda>_ _ _. None"
  by unfold_locales (simp_all add: noop_recall_def)

interpretation mem: replay_memory "mem_recall ttl" "mem_remember ttl" mem_prune mem_denied for ttl
  by unfold_locales
    (auto simp: mem_recall_def mem_remember_def mem_prune_def mem_denied_def Let_def
      split: option.splits if_splits)

section \<open>Quarantine\<close>

text \<open>Until the deadline the entry stays and cites the first reason.\<close>

definition quarantined :: "nat \<Rightarrow> uuid \<Rightarrow> string \<Rightarrow> deny_reason \<Rightarrow> sessions \<Rightarrow> bool" where
  "quarantined deadline s t r m \<longleftrightarrow>
    (\<exists>l. m s = Some l \<and> deadline \<le> sl_expires_at l \<and> sl_denied_tools l t = Some r)"

fun op_time :: "mem_op \<Rightarrow> nat" where
  "op_time (Recall now _ _) = now"
| "op_time (Remember now _ _ _) = now"
| "op_time (Prune now) = now"

lemma quarantined_step:
  assumes "quarantined (start + ttl) s t r m" and "start \<le> op_time x" and "op_time x < start + ttl"
  shows "quarantined (start + ttl) s t r (mem.apply_op ttl x m)"
  using assms
  by (cases x)
    (auto simp: quarantined_def mem_recall_def mem_remember_def mem_prune_def Let_def split: option.splits)

lemma quarantined_ops:
  "quarantined (start + ttl) s t r m \<Longrightarrow> list_all (\<lambda>x. start \<le> op_time x \<and> op_time x < start + ttl) ops \<Longrightarrow>
    quarantined (start + ttl) s t r (fold (mem.apply_op ttl) ops m)"
  by (induction ops arbitrary: m) (simp_all add: quarantined_step)

lemma mem_remember_quarantined:
  "quarantined (now + ttl) s t (case mem_denied m s t of None \<Rightarrow> r | Some r0 \<Rightarrow> r0) (mem_remember ttl now s t r m)"
  by (auto simp: quarantined_def mem_remember_def mem_denied_def Let_def split: option.splits)

lemma redis_cooldown:
  assumes "\<not> rm_connected rm" and "rm_cooldown_until rm = Some d" and "now < d"
  shows "redis_recall api sh now s t rm = (None, rm)" and "redis_remember api sh now s t r rm = rm"
  using assms by (simp_all add: redis_recall_def redis_remember_def redis_connection_def)

lemma redis_connect_failed:
  assumes "\<not> rm_connected rm" and "fst (rd_connect api (rm_server rm)) = False"
    and "case rm_cooldown_until rm of None \<Rightarrow> True | Some d \<Rightarrow> d \<le> now"
  shows "fst (redis_recall api sh now s t rm) = None \<and>
    rm_cooldown_until (snd (redis_recall api sh now s t rm)) = Some (now + CONNECT_COOLDOWN)"
  using assms by (cases "rd_connect api (rm_server rm)")
    (auto simp: redis_recall_def redis_connection_def split: option.splits)

section \<open>Properties\<close>

text \<open>The process-local replay memory quarantines: once a tool is remembered as denied in a session,
  every recall of it in that session before the time-to-live has passed returns the reason, the first one
  if it was denied before, whatever recalls, denials and prunings for any session happen in between;
  and started empty it never returns a reason that was not remembered for that session and tool.\<close>

lemma replay_memory_quarantines:
  assumes "list_all (\<lambda>x. start \<le> op_time x \<and> op_time x < start + ttl) ops" and "start \<le> now" and "now < start + ttl"
  shows "fst (mem_recall ttl now s t (fold (mem.apply_op ttl) ops (mem_remember ttl start s t r m))) =
      Some (case mem_denied m s t of None \<Rightarrow> r | Some r0 \<Rightarrow> r0) \<and>
    (\<forall>r' m'. mem_recall ttl now s t (fold (mem.apply_op ttl) ops Map.empty) = (Some r', m') \<longrightarrow>
      (\<exists>k. Remember k s t r' \<in> set ops))"
proof -
  let ?r = "case mem_denied m s t of None \<Rightarrow> r | Some r0 \<Rightarrow> r0"
  have "quarantined (start + ttl) s t ?r (fold (mem.apply_op ttl) ops (mem_remember ttl start s t r m))"
    by (rule quarantined_ops [OF mem_remember_quarantined assms(1)])
  with assms(3) have "fst (mem_recall ttl now s t (fold (mem.apply_op ttl) ops (mem_remember ttl start s t r m))) = Some ?r"
    by (auto simp: quarantined_def mem_recall_def)
  moreover have "\<exists>k. Remember k s t r' \<in> set ops"
    if "mem_recall ttl now s t (fold (mem.apply_op ttl) ops Map.empty) = (Some r', m')" for r' m'
    by (rule mem.recalled_was_remembered [OF _ that]) (simp add: mem_denied_def)
  ultimately show ?thesis by blast
qed

text \<open>The Redis memory fails open and fast: while a failed connection attempt is less than the
  cooldown old, neither operation touches the server or the adapter, and recall reports no quarantine.\<close>

lemma redis_memory_fails_open:
  assumes "\<not> rm_connected rm" and "fst (rd_connect api (rm_server rm)) = False"
    and "case rm_cooldown_until rm of None \<Rightarrow> True | Some d \<Rightarrow> d \<le> now" and "later < now + CONNECT_COOLDOWN"
  shows "\<exists>rm'. redis_recall api sh now s t rm = (None, rm') \<and>
    redis_recall api sh later s' t' rm' = (None, rm') \<and> redis_remember api sh later s' t' r rm' = rm'"
proof -
  obtain rm' where rm': "redis_recall api sh now s t rm = (None, rm')"
      "rm_cooldown_until rm' = Some (now + CONNECT_COOLDOWN)"
    using redis_connect_failed [OF assms(1-3)] by (metis prod.collapse)
  moreover have "\<not> rm_connected rm'"
    using rm'(1) assms(1-3) by (cases "rd_connect api (rm_server rm)")
      (auto simp: redis_recall_def redis_connection_def split: option.splits)
  ultimately show ?thesis using redis_cooldown [OF _ rm'(2) assms(4)] by blast
qed

definition demo_redis :: "nat redis_api" where
  "demo_redis = \<lparr>rd_connect = \<lambda>q. (False, q + 1), rd_hget = \<lambda>_ _ q. (None, q), rd_hset_nx = \<lambda>_ _ _ q. (None, q),
     rd_expire = \<lambda>_ _ q. q\<rparr>"

end
