(* ===== verification/Inspector.thy ===== *)
theory Inspector
  imports Ssrf_Guard Session_Memory
begin

text \<open>
  The inspection service of the proxy crate
  (\<^verbatim>\<open>crates/agate-proxy/src/application/inspection/inspector.rs\<close>): how a fragment, an assembled tool
  call and a request are judged, and what is recorded and remembered on the way.  The ports
  are the fields of a record over a state \<^verbatim>\<open>'s\<close> that stands for the policy, the audit sink and the
  replay memory together; host resolution is a function.  \<^verbatim>\<open>FailModePolicy\<close> is modelled
  over a policy whose answer may not arrive in time.
\<close>

section \<open>Types\<close>

record inspection_context =
  ic_session :: uuid
  ic_run :: uuid

datatype inspection_action =
    Forward
  | ForwardTransformed agent_event
  | Hold tool_call_id
  | FlushCall tool_call_id
  | DropCall tool_call_id deny_reason
  | Drop deny_reason
  | Terminate deny_reason

record request_content =
  rq_thread_id :: "string option"
  rq_run_id :: "string option"
  rq_offered_tools :: "string list"
  rq_user_messages :: "string list"
  rq_hidden_fields :: "string list"

datatype request_decision = R_Allow | R_Reject deny_reason

record 's ports =
  pt_decide :: "inspection_context \<Rightarrow> agent_event \<Rightarrow> 's \<Rightarrow> agent_event verdict \<times> 's"
  pt_record :: "inspection_context \<Rightarrow> agent_event \<Rightarrow> agent_event verdict \<Rightarrow> 's \<Rightarrow> 's"
  pt_recall :: "uuid \<Rightarrow> string \<Rightarrow> 's \<Rightarrow> deny_reason option \<times> 's"
  pt_remember :: "uuid \<Rightarrow> string \<Rightarrow> deny_reason \<Rightarrow> 's \<Rightarrow> 's"
  pt_url_parse :: "string \<Rightarrow> url option"
  pt_resolve :: "string \<Rightarrow> ip_addr list"

section \<open>Judging\<close>

definition REQUEST_ORIGIN :: string where
  "REQUEST_ORIGIN = ''request''"

fun url_bearing_text :: "agent_event \<Rightarrow> string option" where
  "url_bearing_text (E_ToolCall _ _ arguments) = Some arguments"
| "url_bearing_text (E_MessageChunk _ s) = Some s"
| "url_bearing_text (E_ToolResult _ _ content) = Some content"
| "url_bearing_text (E_StateMutation _) = None"
| "url_bearing_text (E_Lifecycle _) = None"
| "url_bearing_text (E_Opaque _) = None"

fun event_tool_name :: "agent_event \<Rightarrow> string option" where
  "event_tool_name (E_ToolCall _ name _) = Some name"
| "event_tool_name (E_MessageChunk _ _) = None"
| "event_tool_name (E_ToolResult _ _ _) = None"
| "event_tool_name (E_StateMutation _) = None"
| "event_tool_name (E_Lifecycle _) = None"
| "event_tool_name (E_Opaque _) = None"

definition disallowed_url :: "'s ports \<Rightarrow> string \<Rightarrow> deny_reason option" where
  "disallowed_url p s = first_disallowed_url (pt_url_parse p) (pt_resolve p) s"

definition record_deny :: "'s ports \<Rightarrow> inspection_context \<Rightarrow> agent_event \<Rightarrow> deny_reason \<Rightarrow> 's \<Rightarrow> 's" where
  "record_deny p c e reason s = pt_record p c e (V_Deny reason) s"

definition remember_tool_denial ::
    "'s ports \<Rightarrow> inspection_context \<Rightarrow> agent_event \<Rightarrow> deny_reason \<Rightarrow> 's \<Rightarrow> 's" where
  "remember_tool_denial p c e reason s =
    (case event_tool_name e of None \<Rightarrow> s | Some name \<Rightarrow> pt_remember p (ic_session c) name reason s)"

definition recall_tool :: "'s ports \<Rightarrow> inspection_context \<Rightarrow> agent_event \<Rightarrow> 's \<Rightarrow> deny_reason option \<times> 's" where
  "recall_tool p c e s =
    (case event_tool_name e of None \<Rightarrow> (None, s) | Some name \<Rightarrow> pt_recall p (ic_session c) name s)"

definition judge :: "'s ports \<Rightarrow> inspection_context \<Rightarrow> agent_event \<Rightarrow> 's \<Rightarrow> agent_event verdict \<times> 's" where
  "judge p c e s =
    (case recall_tool p c e s of
       (Some reason, s1) \<Rightarrow> (V_Deny reason, record_deny p c e reason s1)
     | (None, s1) \<Rightarrow>
         (case Option.bind (url_bearing_text e) (disallowed_url p) of
            Some reason \<Rightarrow>
              (V_Deny reason, remember_tool_denial p c e reason (record_deny p c e reason s1))
          | None \<Rightarrow>
              (case pt_decide p c e s1 of (v, s2) \<Rightarrow>
                 let s3 = pt_record p c e v s2 in
                 (v, case v of V_Deny reason \<Rightarrow> remember_tool_denial p c e reason s3 | _ \<Rightarrow> s3))))"

definition authorize_call ::
    "'s ports \<Rightarrow> inspection_context \<Rightarrow> tool_call_id \<Rightarrow> agent_event \<Rightarrow> 's \<Rightarrow> inspection_action \<times> 's" where
  "authorize_call p c i e s =
    (case judge p c e s of (v, s') \<Rightarrow>
       (case v of
          V_Allow \<Rightarrow> FlushCall i
        | V_Transform _ \<Rightarrow> FlushCall i
        | V_Buffer \<Rightarrow> FlushCall i
        | V_Deny reason \<Rightarrow> DropCall i reason
        | V_Terminate reason \<Rightarrow> Terminate reason, s'))"

definition inspect ::
    "'s ports \<Rightarrow> inspection_context \<Rightarrow> fragment \<Rightarrow> run \<Rightarrow> 's \<Rightarrow> inspection_action \<times> run \<times> 's" where
  "inspect p c f r s =
    (case run_inspect f r of (out, r') \<Rightarrow>
       (case out of
          Buffering i \<Rightarrow> (Hold i, r', s)
        | Reject reason \<Rightarrow> (Terminate reason, r', s)
        | Ready e \<Rightarrow>
            (case judge p c e s of (v, s') \<Rightarrow>
               (case v of
                  V_Allow \<Rightarrow> Forward
                | V_Buffer \<Rightarrow> Forward
                | V_Transform replacement \<Rightarrow> ForwardTransformed replacement
                | V_Deny reason \<Rightarrow> Drop reason
                | V_Terminate reason \<Rightarrow> Terminate reason, r', s'))
        | ResolvedCall i e \<Rightarrow> (case authorize_call p c i e s of (a, s') \<Rightarrow> (a, r', s'))))"

section \<open>Requests\<close>

definition reject_reason :: "'s ports \<Rightarrow> inspection_context \<Rightarrow> agent_event \<Rightarrow> 's \<Rightarrow> deny_reason option \<times> 's" where
  "reject_reason p c e s =
    (case pt_decide p c e s of (v, s') \<Rightarrow>
       (case v of
          V_Allow \<Rightarrow> (None, s')
        | V_Buffer \<Rightarrow> (None, s')
        | V_Deny reason \<Rightarrow> (Some reason, record_deny p c e reason s')
        | V_Terminate reason \<Rightarrow> (Some reason, record_deny p c e reason s')
        | V_Transform _ \<Rightarrow>
            (Some ''request content matched a redaction rule'',
             record_deny p c e ''request content matched a redaction rule'' s')))"

definition screen_text :: "'s ports \<Rightarrow> inspection_context \<Rightarrow> string \<Rightarrow> 's \<Rightarrow> deny_reason option \<times> 's" where
  "screen_text p c t s =
    (let e = E_MessageChunk REQUEST_ORIGIN t in
     case disallowed_url p t of
       Some reason \<Rightarrow> (Some reason, record_deny p c e reason s)
     | None \<Rightarrow> reject_reason p c e s)"

fun inspect_tools :: "'s ports \<Rightarrow> inspection_context \<Rightarrow> string list \<Rightarrow> 's \<Rightarrow> deny_reason option \<times> 's" where
  "inspect_tools p c [] s = (None, s)"
| "inspect_tools p c (name # names) s =
    (let e = E_ToolCall REQUEST_ORIGIN name [] in
     case pt_recall p (ic_session c) name s of
       (Some reason, s1) \<Rightarrow> (Some reason, record_deny p c e reason s1)
     | (None, s1) \<Rightarrow>
         (case reject_reason p c e s1 of
            (Some reason, s2) \<Rightarrow> (Some reason, pt_remember p (ic_session c) name reason s2)
          | (None, s2) \<Rightarrow> inspect_tools p c names s2))"

fun inspect_texts :: "'s ports \<Rightarrow> inspection_context \<Rightarrow> string list \<Rightarrow> 's \<Rightarrow> deny_reason option \<times> 's" where
  "inspect_texts p c [] s = (None, s)"
| "inspect_texts p c (t # ts) s =
    (case screen_text p c t s of
       (Some reason, s') \<Rightarrow> (Some reason, s')
     | (None, s') \<Rightarrow> inspect_texts p c ts s')"

definition inspect_request ::
    "'s ports \<Rightarrow> inspection_context \<Rightarrow> request_content \<Rightarrow> 's \<Rightarrow> request_decision \<times> 's" where
  "inspect_request p c rq s =
    (case inspect_tools p c (rq_offered_tools rq) s of
       (Some reason, s') \<Rightarrow> (R_Reject reason, s')
     | (None, s') \<Rightarrow>
         (case inspect_texts p c (rq_user_messages rq @ rq_hidden_fields rq) s' of
            (Some reason, s'') \<Rightarrow> (R_Reject reason, s'')
          | (None, s'') \<Rightarrow> (R_Allow, s'')))"

section \<open>Fail mode\<close>

datatype fail_mode = Open | Closed

text \<open>\<^verbatim>\<open>FailModePolicy::decide\<close>: the wrapped policy answers in time or not at all.\<close>

definition fail_mode_decide ::
    "fail_mode \<Rightarrow> (inspection_context \<Rightarrow> agent_event \<Rightarrow> 's \<Rightarrow> agent_event verdict option \<times> 's) \<Rightarrow>
      inspection_context \<Rightarrow> agent_event \<Rightarrow> 's \<Rightarrow> agent_event verdict \<times> 's" where
  "fail_mode_decide mode inner c e s =
    (case inner c e s of
       (Some v, s') \<Rightarrow> (v, s')
     | (None, s') \<Rightarrow>
         (case mode of
            Open \<Rightarrow> V_Allow
          | Closed \<Rightarrow> V_Terminate ''policy decision timed out (fail-closed)'', s'))"

section \<open>Ports with a pure policy and a log\<close>

text \<open>A policy that answers from the event alone, a sink that keeps the records in order, and the
  process-local memory: the state is the log and the ledger.\<close>

type_synonym audit_log = "(inspection_context \<times> agent_event \<times> agent_event verdict) list"

definition local_ports ::
    "(inspection_context \<Rightarrow> agent_event \<Rightarrow> agent_event verdict) \<Rightarrow> (string \<Rightarrow> url option) \<Rightarrow>
      (string \<Rightarrow> ip_addr list) \<Rightarrow> nat \<Rightarrow> nat \<Rightarrow> (audit_log \<times> sessions) ports" where
  "local_ports d url_parse resolve ttl now =
    \<lparr>pt_decide = \<lambda>c e s. (d c e, s),
     pt_record = \<lambda>c e v (log, m). (log @ [(c, e, v)], m),
     pt_recall = \<lambda>sess t (log, m). (case mem_recall ttl now sess t m of (r, m') \<Rightarrow> (r, (log, m'))),
     pt_remember = \<lambda>sess t r (log, m). (log, mem_remember ttl now sess t r m),
     pt_url_parse = url_parse, pt_resolve = resolve\<rparr>"

section \<open>Verdicts\<close>

lemma judge_cases:
  obtains (replay) reason s1 where "recall_tool p c e s = (Some reason, s1)"
      "judge p c e s = (V_Deny reason, record_deny p c e reason s1)"
  | (url) reason s1 where "recall_tool p c e s = (None, s1)"
      "Option.bind (url_bearing_text e) (disallowed_url p) = Some reason"
      "judge p c e s = (V_Deny reason, remember_tool_denial p c e reason (record_deny p c e reason s1))"
  | (policy) s1 v s2 where "recall_tool p c e s = (None, s1)"
      "Option.bind (url_bearing_text e) (disallowed_url p) = None" "pt_decide p c e s1 = (v, s2)"
      "judge p c e s = (v, case v of V_Deny reason \<Rightarrow> remember_tool_denial p c e reason (pt_record p c e v s2)
        | _ \<Rightarrow> pt_record p c e v s2)"
proof (cases "recall_tool p c e s")
  case (Pair x s1)
  show thesis
  proof (cases x)
    case None
    show thesis
    proof (cases "Option.bind (url_bearing_text e) (disallowed_url p)")
      case u: None
      obtain v s2 where "pt_decide p c e s1 = (v, s2)" by (cases "pt_decide p c e s1")
      with Pair None u show thesis by (intro policy) (auto simp: judge_def Let_def)
    next
      case (Some r)
      with Pair None show thesis by (intro url) (auto simp: judge_def)
    qed
  next
    case (Some r)
    with Pair show thesis by (intro replay) (auto simp: judge_def)
  qed
qed

text \<open>What is not stopped was decided by the policy, is not quarantined and carries no refused URL.\<close>

lemma judge_not_stopped:
  assumes "judge p c e s = (v, s')" and "\<not> stops v"
  shows "\<exists>s1 s2. recall_tool p c e s = (None, s1) \<and> pt_decide p c e s1 = (v, s2) \<and> s' = pt_record p c e v s2 \<and>
    (\<forall>t. url_bearing_text e = Some t \<longrightarrow> disallowed_url p t = None)"
  using assms by (cases rule: judge_cases [of p c e s]) (auto split: verdict.splits)

lemma local_ports_simps [simp]:
  "pt_decide (local_ports d up rs ttl now) c e s = (d c e, s)"
  "pt_record (local_ports d up rs ttl now) c e v (log, m) = (log @ [(c, e, v)], m)"
  "pt_recall (local_ports d up rs ttl now) sess t (log, m) = (case mem_recall ttl now sess t m of (r, m') \<Rightarrow> (r, (log, m')))"
  "pt_remember (local_ports d up rs ttl now) sess t r (log, m) = (log, mem_remember ttl now sess t r m)"
  "pt_url_parse (local_ports d up rs ttl now) = up" "pt_resolve (local_ports d up rs ttl now) = rs"
  by (simp_all add: local_ports_def)

lemma recall_tool_local:
  "recall_tool (local_ports d up rs ttl now) c e (log, m) =
    (case event_tool_name e of
       None \<Rightarrow> (None, (log, m))
     | Some t \<Rightarrow> (fst (mem_recall ttl now (ic_session c) t m), (log, snd (mem_recall ttl now (ic_session c) t m))))"
  by (simp add: recall_tool_def case_prod_beta split: option.splits)

lemma remember_tool_denial_local:
  "remember_tool_denial (local_ports d up rs ttl now) c e r (log, m) =
    (log, case event_tool_name e of None \<Rightarrow> m | Some t \<Rightarrow> mem_remember ttl now (ic_session c) t r m)"
  by (simp add: remember_tool_denial_def split: option.splits)

lemma record_deny_local:
  "record_deny (local_ports d up rs ttl now) c e r (log, m) = (log @ [(c, e, V_Deny r)], m)"
  by (simp add: record_deny_def)

lemma disallowed_url_local: "disallowed_url (local_ports d up rs ttl now) = first_disallowed_url up rs"
  by (rule ext) (simp add: disallowed_url_def)

lemmas local_judge = recall_tool_local remember_tool_denial_local record_deny_local disallowed_url_local

text \<open>The verdict and the effect of judging with a pure policy.\<close>

lemma judge_local:
  "judge (local_ports d up rs ttl now) c e (log, m) =
    (let q = Option.bind (event_tool_name e) (\<lambda>t. fst (mem_recall ttl now (ic_session c) t m));
         m1 = (case event_tool_name e of None \<Rightarrow> m | Some t \<Rightarrow> snd (mem_recall ttl now (ic_session c) t m));
         u = Option.bind (url_bearing_text e) (first_disallowed_url up rs);
         v = (case q of Some r \<Rightarrow> V_Deny r | None \<Rightarrow> (case u of Some r \<Rightarrow> V_Deny r | None \<Rightarrow> d c e)) in
     (v, (log @ [(c, e, v)],
       case v of
         V_Deny r \<Rightarrow> (case event_tool_name e of
             Some t \<Rightarrow> if q = None then mem_remember ttl now (ic_session c) t r m1 else m1
           | None \<Rightarrow> m1)
       | _ \<Rightarrow> m1)))"
proof (cases "event_tool_name e")
  case None
  then show ?thesis
    by (auto simp: judge_def Let_def local_judge split: option.splits verdict.splits)
next
  case (Some t)
  then show ?thesis
    by (cases "mem_recall ttl now (ic_session c) t m")
      (auto simp: judge_def Let_def local_judge split: option.splits verdict.splits)
qed

lemma mem_recall_again:
  "0 < ttl \<Longrightarrow> fst (mem_recall ttl now s t' (snd (mem_recall ttl now s t m))) = fst (mem_recall ttl now s t' m)"
  by (auto simp: mem_recall_def split: option.splits)

section \<open>Request screening\<close>

definition lets_pass :: "agent_event verdict \<Rightarrow> bool" where
  "lets_pass v = (v = V_Allow \<or> v = V_Buffer)"

definition tool_passes ::
    "(inspection_context \<Rightarrow> agent_event \<Rightarrow> agent_event verdict) \<Rightarrow> nat \<Rightarrow> nat \<Rightarrow> inspection_context \<Rightarrow> sessions \<Rightarrow> string \<Rightarrow> bool" where
  "tool_passes d ttl now c m name \<longleftrightarrow>
    fst (mem_recall ttl now (ic_session c) name m) = None \<and> lets_pass (d c (E_ToolCall REQUEST_ORIGIN name []))"

definition text_passes ::
    "(inspection_context \<Rightarrow> agent_event \<Rightarrow> agent_event verdict) \<Rightarrow> (string \<Rightarrow> url option) \<Rightarrow> (string \<Rightarrow> ip_addr list) \<Rightarrow>
      inspection_context \<Rightarrow> string \<Rightarrow> bool" where
  "text_passes d up rs c t \<longleftrightarrow>
    first_disallowed_url up rs t = None \<and> lets_pass (d c (E_MessageChunk REQUEST_ORIGIN t))"

lemma reject_reason_local:
  "fst (reject_reason (local_ports d up rs ttl now) c e (log, m)) = None \<longleftrightarrow> lets_pass (d c e)"
  "lets_pass (d c e) \<Longrightarrow> reject_reason (local_ports d up rs ttl now) c e (log, m) = (None, (log, m))"
  by (auto simp: reject_reason_def lets_pass_def split: verdict.splits)

lemma inspect_tools_local:
  assumes "0 < ttl"
  shows "fst (inspect_tools (local_ports d up rs ttl now) c names (log, m)) = None \<longleftrightarrow>
    list_all (tool_passes d ttl now c m) names"
proof (induction names arbitrary: m)
  case (Cons name names)
  obtain q m1 where q: "mem_recall ttl now (ic_session c) name m = (q, m1)" by (cases "mem_recall ttl now (ic_session c) name m")
  have same: "tool_passes d ttl now c m1 t = tool_passes d ttl now c m t" for t
    using mem_recall_again [OF assms, of now "ic_session c" t name m] q by (simp add: tool_passes_def)
  let ?e = "E_ToolCall REQUEST_ORIGIN name []"
  show ?case
  proof (cases "q = None \<and> lets_pass (d c ?e)")
    case True
    then have "inspect_tools (local_ports d up rs ttl now) c (name # names) (log, m) =
        inspect_tools (local_ports d up rs ttl now) c names (log, m1)"
      using q reject_reason_local(2) [of d c ?e] by (simp add: Let_def)
    moreover have "tool_passes d ttl now c m name" using True q by (simp add: tool_passes_def)
    ultimately show ?thesis by (simp add: Cons.IH same)
  next
    case False
    then have "\<not> tool_passes d ttl now c m name" using q by (simp add: tool_passes_def)
    moreover have "fst (inspect_tools (local_ports d up rs ttl now) c (name # names) (log, m)) \<noteq> None"
      using False q reject_reason_local(1) [of d up rs ttl now c ?e log m1]
      by (auto simp: Let_def split: option.splits prod.splits)
    ultimately show ?thesis by simp
  qed
qed simp

lemma inspect_texts_local:
  "fst (inspect_texts (local_ports d up rs ttl now) c ts (log, m)) = None \<longleftrightarrow> list_all (text_passes d up rs c) ts"
proof (induction ts)
  case (Cons t ts)
  show ?case
  proof (cases "text_passes d up rs c t")
    case True
    then have "screen_text (local_ports d up rs ttl now) c t (log, m) = (None, (log, m))"
      by (simp add: screen_text_def Let_def text_passes_def disallowed_url_def reject_reason_local(2))
    with True Cons show ?thesis by simp
  next
    case False
    then have "fst (screen_text (local_ports d up rs ttl now) c t (log, m)) \<noteq> None"
      using reject_reason_local(1) [of d up rs ttl now c "E_MessageChunk REQUEST_ORIGIN t" log m]
      by (auto simp: screen_text_def Let_def text_passes_def disallowed_url_def split: option.splits)
    with False show ?thesis by (auto split: option.splits prod.splits)
  qed
qed simp

lemma inspect_tools_state:
  "fst (inspect_tools (local_ports d up rs ttl now) c names (log, m)) = None \<Longrightarrow>
    \<exists>m'. inspect_tools (local_ports d up rs ttl now) c names (log, m) = (None, (log, m'))"
proof (induction names arbitrary: m)
  case (Cons name names)
  obtain q m1 where q: "mem_recall ttl now (ic_session c) name m = (q, m1)" by (cases "mem_recall ttl now (ic_session c) name m")
  let ?e = "E_ToolCall REQUEST_ORIGIN name []"
  have ok: "q = None \<and> lets_pass (d c ?e)"
    using Cons.prems q reject_reason_local(1) [of d up rs ttl now c ?e log m1]
    by (auto simp: Let_def split: option.splits prod.splits)
  then have "inspect_tools (local_ports d up rs ttl now) c (name # names) (log, m) =
      inspect_tools (local_ports d up rs ttl now) c names (log, m1)"
    using q reject_reason_local(2) [of d c ?e] by (simp add: Let_def)
  with Cons show ?case by simp
qed simp

section \<open>What happens between two calls\<close>

text \<open>One operation of a proxy whose replay memory is process-local: judging an event or screening a request, of any session
  and under any policy and name resolution, or a tick of the pruner.\<close>

datatype activity =
    Judged nat "inspection_context \<Rightarrow> agent_event \<Rightarrow> agent_event verdict" "string \<Rightarrow> url option" "string \<Rightarrow> ip_addr list"
      inspection_context agent_event
  | Screened nat "inspection_context \<Rightarrow> agent_event \<Rightarrow> agent_event verdict" "string \<Rightarrow> url option" "string \<Rightarrow> ip_addr list"
      inspection_context request_content
  | Pruned nat

fun activity_time :: "activity \<Rightarrow> nat" where
  "activity_time (Judged now _ _ _ _ _) = now"
| "activity_time (Screened now _ _ _ _ _) = now"
| "activity_time (Pruned now) = now"

fun act_on :: "nat \<Rightarrow> activity \<Rightarrow> audit_log \<times> sessions \<Rightarrow> audit_log \<times> sessions" where
  "act_on ttl (Judged now d up rs c e) s = snd (judge (local_ports d up rs ttl now) c e s)"
| "act_on ttl (Screened now d up rs c rq) s = snd (inspect_request (local_ports d up rs ttl now) c rq s)"
| "act_on ttl (Pruned now) s = (fst s, mem_prune now (snd s))"

lemma quarantined_kept:
  assumes "quarantined (start + ttl) s t r m" and "start \<le> now" and "now < start + ttl"
  shows "quarantined (start + ttl) s t r (snd (mem_recall ttl now s' t' m))"
    and "quarantined (start + ttl) s t r (mem_remember ttl now s' t' r' m)"
    and "quarantined (start + ttl) s t r (mem_prune now m)"
  using quarantined_step [OF assms(1), of "Recall now s' t'"] quarantined_step [OF assms(1), of "Remember now s' t' r'"]
    quarantined_step [OF assms(1), of "Prune now"] assms(2,3) by simp_all

lemma reject_reason_memory: "snd (snd (reject_reason (local_ports d up rs ttl now) c e (log, m))) = m"
  by (auto simp: reject_reason_def record_deny_local split: verdict.splits)

lemma inspect_texts_memory: "snd (snd (inspect_texts (local_ports d up rs ttl now) c ts (log, m))) = m"
proof (induction ts arbitrary: log)
  case (Cons t ts)
  have "snd (snd (screen_text (local_ports d up rs ttl now) c t (log, m))) = m"
    by (auto simp: screen_text_def Let_def record_deny_local reject_reason_memory split: option.splits)
  then show ?case by (auto simp: Cons split: prod.splits option.splits)
qed simp

lemma inspect_tools_quarantined:
  assumes "start \<le> now" and "now < start + ttl"
  shows "quarantined (start + ttl) s t r m \<Longrightarrow>
    quarantined (start + ttl) s t r (snd (snd (inspect_tools (local_ports d up rs ttl now) c names (log, m))))"
proof (induction names arbitrary: log m)
  case (Cons name names)
  obtain q m1 where q: "mem_recall ttl now (ic_session c) name m = (q, m1)" by (cases "mem_recall ttl now (ic_session c) name m")
  then have m1: "quarantined (start + ttl) s t r m1"
    using quarantined_kept(1) [OF Cons.prems assms, of "ic_session c" name] by simp
  obtain v log2 m2 where v: "reject_reason (local_ports d up rs ttl now) c (E_ToolCall REQUEST_ORIGIN name []) (log, m1) = (v, (log2, m2))"
    by (cases "reject_reason (local_ports d up rs ttl now) c (E_ToolCall REQUEST_ORIGIN name []) (log, m1)") auto
  then have "m2 = m1" using reject_reason_memory [of d up rs ttl now c "E_ToolCall REQUEST_ORIGIN name []" log m1] by simp
  with q v m1 Cons.IH quarantined_kept(2) [OF m1 assms] show ?case
    by (auto simp: Let_def record_deny_local split: option.splits)
qed simp

lemma act_on_quarantined:
  assumes "quarantined (start + ttl) s t r (snd st)" and "start \<le> activity_time a" and "activity_time a < start + ttl"
  shows "quarantined (start + ttl) s t r (snd (act_on ttl a st))"
proof (cases a)
  case (Judged now d up rs c e)
  obtain log m where st: "st = (log, m)" by (cases st)
  note kept = quarantined_kept [OF _ assms(2,3), unfolded Judged activity_time.simps]
  have "quarantined (start + ttl) s t r m" using assms(1) st by simp
  with Judged st kept(1) [OF this] kept(2) [OF kept(1) [OF this]] kept(2) [OF this] show ?thesis
    by (simp add: judge_local Let_def split: option.splits verdict.splits)
next
  case (Screened now d up rs c rq)
  obtain log m where st: "st = (log, m)" by (cases st)
  obtain v log1 m1 where v: "inspect_tools (local_ports d up rs ttl now) c (rq_offered_tools rq) (log, m) = (v, (log1, m1))"
    by (cases "inspect_tools (local_ports d up rs ttl now) c (rq_offered_tools rq) (log, m)") auto
  have "quarantined (start + ttl) s t r m1"
    using inspect_tools_quarantined [of start now ttl s t r m d up rs c "rq_offered_tools rq" log] assms Screened st v by simp
  moreover have "snd (act_on ttl a st) = m1"
    using Screened st v inspect_texts_memory [of d up rs ttl now c "rq_user_messages rq @ rq_hidden_fields rq" log1 m1]
    by (auto simp: inspect_request_def split: option.splits prod.splits)
  ultimately show ?thesis by simp
next
  case (Pruned now)
  with quarantined_kept(3) [OF assms(1-2)] assms(3) show ?thesis by simp
qed

lemma activities_quarantined:
  "quarantined (start + ttl) s t r (snd st) \<Longrightarrow> list_all (\<lambda>a. start \<le> activity_time a \<and> activity_time a < start + ttl) acts \<Longrightarrow>
    quarantined (start + ttl) s t r (snd (fold (act_on ttl) acts st))"
  by (induction acts arbitrary: st) (simp_all add: act_on_quarantined)

lemma denial_quarantines:
  assumes "judge (local_ports d up rs ttl now) c (E_ToolCall i name a) (log, m) = (V_Deny r, (log1, m1))"
  shows "\<exists>r0. quarantined (now + ttl) (ic_session c) name r0 m1"
proof (cases "fst (mem_recall ttl now (ic_session c) name m)")
  case None
  with assms(1) have "\<exists>m0. m1 = mem_remember ttl now (ic_session c) name r m0"
    by (auto simp: judge_local Let_def split: option.splits)
  then show ?thesis using mem_remember_quarantined by blast
next
  case (Some r0)
  with assms(1) have "m1 = snd (mem_recall ttl now (ic_session c) name m)"
    by (auto simp: judge_local Let_def)
  with Some show ?thesis
    by (auto simp: quarantined_def mem_recall_def split: option.splits if_splits)
qed

section \<open>Properties\<close>

text \<open>A denied tool result does not quarantine its tool: judging it leaves the replay memory exactly as
  it was.\<close>

lemma denied_result_is_not_remembered:
  "\<exists>v log'. judge (local_ports d up rs ttl now) c (E_ToolResult i name content) (log, m) = (v, (log', m))"
  by (auto simp: judge_local Let_def split: verdict.splits)

text \<open>A request is forwarded exactly when it passes every screen: each offered tool is not
  quarantined in the session and the policy lets a call to it pass, and each user message and hidden field
  carries no refused URL and the policy lets it pass unchanged.\<close>

lemma request_screen_exact:
  assumes "0 < ttl"
  shows "fst (inspect_request (local_ports d up rs ttl now) c rq (log, m)) = R_Allow \<longleftrightarrow>
    list_all (tool_passes d ttl now c m) (rq_offered_tools rq) \<and>
    list_all (text_passes d up rs c) (rq_user_messages rq) \<and> list_all (text_passes d up rs c) (rq_hidden_fields rq)"
proof (cases "fst (inspect_tools (local_ports d up rs ttl now) c (rq_offered_tools rq) (log, m)) = None")
  case True
  then obtain m' where m': "inspect_tools (local_ports d up rs ttl now) c (rq_offered_tools rq) (log, m) = (None, (log, m'))"
    using inspect_tools_state by blast
  have "fst (inspect_request (local_ports d up rs ttl now) c rq (log, m)) = R_Allow \<longleftrightarrow>
      fst (inspect_texts (local_ports d up rs ttl now) c (rq_user_messages rq @ rq_hidden_fields rq) (log, m')) = None"
    using m' by (auto simp: inspect_request_def split: option.splits prod.splits)
  with True show ?thesis by (simp add: inspect_tools_local [OF assms] inspect_texts_local)
next
  case False
  then have "\<not> list_all (tool_passes d ttl now c m) (rq_offered_tools rq)"
    by (simp add: inspect_tools_local [OF assms])
  moreover from False have "fst (inspect_request (local_ports d up rs ttl now) c rq (log, m)) \<noteq> R_Allow"
    by (auto simp: inspect_request_def split: option.splits prod.splits)
  ultimately show ?thesis by blast
qed

text \<open>C10: A denied tool call is not retried while the process-local replay memory holds it.  After a call to a tool is denied in a
  session, and whatever else is judged, screened and pruned in between, in this or other sessions and under other
  policies, a call to the same tool in the same session, in any run and with any id and arguments, is denied again at every time before
  the time-to-live of the memory has passed since the denial, even where the policy would allow it; and a request
  that offers the tool is rejected.\<close>

theorem denied_tool_stays_denied:
  assumes "judge (local_ports d up rs ttl now) c (E_ToolCall i name a) (log, m) = (V_Deny r, st)"
    and "list_all (\<lambda>x. now \<le> activity_time x \<and> activity_time x < now + ttl) acts" and "fold (act_on ttl) acts st = st'"
    and "ic_session c' = ic_session c" and "now \<le> later" and "later < now + ttl"
  shows "(\<exists>r'. fst (judge (local_ports d' up' rs' ttl later) c' (E_ToolCall i' name a') st') = V_Deny r') \<and>
    (name \<in> set (rq_offered_tools rq) \<longrightarrow> fst (inspect_request (local_ports d' up' rs' ttl later) c' rq st') \<noteq> R_Allow)"
proof -
  obtain log1 m1 where st: "st = (log1, m1)" by (cases st)
  obtain log2 m2 where st': "st' = (log2, m2)" by (cases st')
  from assms(5,6) have ttl: "0 < ttl" by simp
  from denial_quarantines [OF assms(1) [unfolded st]] obtain r0 where "quarantined (now + ttl) (ic_session c) name r0 (snd st)"
    using st by auto
  then have "quarantined (now + ttl) (ic_session c) name r0 m2"
    using activities_quarantined [OF _ assms(2)] assms(3) st' by fastforce
  with assms(4,6) have recalled: "fst (mem_recall ttl later (ic_session c') name m2) = Some r0"
    by (auto simp: quarantined_def mem_recall_def)
  then have "\<exists>r'. fst (judge (local_ports d' up' rs' ttl later) c' (E_ToolCall i' name a') st') = V_Deny r'"
    by (simp add: st' judge_local Let_def)
  moreover have "fst (inspect_request (local_ports d' up' rs' ttl later) c' rq st') \<noteq> R_Allow" if "name \<in> set (rq_offered_tools rq)"
    using that recalled unfolding st' request_screen_exact [OF ttl] by (auto simp: list_all_iff tool_passes_def)
  ultimately show ?thesis by blast
qed

definition demo_context :: inspection_context where
  "demo_context = \<lparr>ic_session = 1, ic_run = 2\<rparr>"

theorem denied_tool_stays_denied_witness:
  "\<exists>st r'. judge (local_ports (\<lambda>c e. V_Deny ''no'') (\<lambda>_. None) (\<lambda>_. []) 60 10) demo_context
      (E_ToolCall ''a'' ''fs'' ''{}'') ([], Map.empty) = (V_Deny ''no'', st) \<and>
    fst (judge (local_ports (\<lambda>c e. V_Allow) (\<lambda>_. None) (\<lambda>_. []) 60 50) (demo_context\<lparr>ic_run := 3\<rparr>) (E_ToolCall ''b'' ''fs'' ''x'')
      (fold (act_on 60) [Judged 20 (\<lambda>c e. V_Allow) (\<lambda>_. None) (\<lambda>_. []) demo_context (E_ToolCall ''c'' ''ls'' ''{}''), Pruned 40] st)) =
      V_Deny r'"
proof -
  have "split_tokens [] ''{}'' = [[], [], []]" by code_simp
  then have "\<exists>st. judge (local_ports (\<lambda>c e. V_Deny ''no'') (\<lambda>_. None) (\<lambda>_. []) 60 10) demo_context
      (E_ToolCall ''a'' ''fs'' ''{}'') ([], Map.empty) = (V_Deny ''no'', st)"
    by (simp add: judge_local Let_def first_disallowed_url_def mem_recall_def demo_context_def)
  then obtain st where run: "judge (local_ports (\<lambda>c e. V_Deny ''no'') (\<lambda>_. None) (\<lambda>_. []) 60 10) demo_context
      (E_ToolCall ''a'' ''fs'' ''{}'') ([], Map.empty) = (V_Deny ''no'', st)" by blast
  from denied_tool_stays_denied [OF run _ refl, of "[Judged 20 (\<lambda>c e. V_Allow) (\<lambda>_. None) (\<lambda>_. []) demo_context (E_ToolCall ''c'' ''ls'' ''{}''), Pruned 40]"
      "demo_context\<lparr>ic_run := 3\<rparr>" 50 "\<lambda>c e. V_Allow" "\<lambda>_. None" "\<lambda>_. []" "''b''" "''x''" "\<lparr>rq_thread_id = None, rq_run_id = None, rq_offered_tools = [], rq_user_messages = [], rq_hidden_fields = []\<rparr>"] run
  show ?thesis by auto
qed

section \<open>Requests through any ports\<close>

text \<open>An event the policy let pass, in some state of its ports.\<close>

definition let_through :: "'s ports \<Rightarrow> inspection_context \<Rightarrow> agent_event \<Rightarrow> bool" where
  "let_through p c e \<longleftrightarrow> (\<exists>s. lets_pass (fst (pt_decide p c e s)))"

lemma reject_reason_passes: "reject_reason p c e s = (None, s') \<Longrightarrow> let_through p c e"
  by (auto simp: reject_reason_def let_through_def lets_pass_def intro!: exI [of _ s] split: prod.splits verdict.splits)

lemma inspect_tools_passes:
  "inspect_tools p c names s = (None, s') \<Longrightarrow> list_all (\<lambda>n. let_through p c (E_ToolCall REQUEST_ORIGIN n [])) names"
  by (induction names arbitrary: s) (auto simp: Let_def dest: reject_reason_passes split: prod.splits option.splits)

lemma inspect_texts_passes:
  "inspect_texts p c ts s = (None, s') \<Longrightarrow>
    list_all (\<lambda>t. let_through p c (E_MessageChunk REQUEST_ORIGIN t) \<and> disallowed_url p t = None) ts"
  by (induction ts arbitrary: s)
    (auto simp: screen_text_def Let_def dest: reject_reason_passes split: prod.splits option.splits)

text \<open>Whatever the ports are, an admitted request was let through piece by piece.\<close>

lemma admitted_request_passes:
  assumes "inspect_request p c rq s = (R_Allow, s')"
  shows "list_all (\<lambda>n. let_through p c (E_ToolCall REQUEST_ORIGIN n [])) (rq_offered_tools rq)"
    and "list_all (\<lambda>t. let_through p c (E_MessageChunk REQUEST_ORIGIN t) \<and> disallowed_url p t = None)
      (rq_user_messages rq @ rq_hidden_fields rq)"
  using assms inspect_tools_passes inspect_texts_passes
  by (fastforce simp: inspect_request_def split: prod.splits option.splits)+

end
