(* ===== verification/Agui_Mapper.thy ===== *)
theory Agui_Mapper
  imports Inspector
begin

text \<open>
  The AG-UI wire mapping of the proxy crate (\<^verbatim>\<open>crates/agate-proxy/src/infrastructure/ag_ui\<close>): one event
  of the response stream becomes a fragment (\<^verbatim>\<open>mapper.rs\<close>), a rewritten event becomes JSON
  again, and a request body becomes the facts the request leg inspects (\<^verbatim>\<open>request.rs\<close>).  JSON text
  is read and printed by the parameter \<^verbatim>\<open>sj\<close>.
\<close>

section \<open>Errors\<close>

datatype ag_ui_error =
    NotAnObject
  | MissingType
  | MissingField string string
  | BlankField string string
  | MalformedRequest

fun is_malformed_known :: "ag_ui_error \<Rightarrow> bool" where
  "is_malformed_known (MissingField _ _) = True"
| "is_malformed_known (BlankField _ _) = True"
| "is_malformed_known _ = False"

fun show_ag_ui_error :: "ag_ui_error \<Rightarrow> string" where
  "show_ag_ui_error NotAnObject = ''AG-UI event is not a JSON object''"
| "show_ag_ui_error MissingType = ''AG-UI event has no `type`''"
| "show_ag_ui_error (MissingField event field) = ''AG-UI '' @ event @ '' event is missing `'' @ field @ ''`''"
| "show_ag_ui_error (BlankField event field) = ''AG-UI '' @ event @ '' event has a blank `'' @ field @ ''`''"
| "show_ag_ui_error MalformedRequest = ''request body is not valid RunAgentInput JSON''"

section \<open>Event types\<close>

definition RUN_STARTED :: string where "RUN_STARTED = ''RUN_STARTED''"
definition RUN_FINISHED :: string where "RUN_FINISHED = ''RUN_FINISHED''"
definition RUN_ERROR :: string where "RUN_ERROR = ''RUN_ERROR''"
definition STEP_STARTED :: string where "STEP_STARTED = ''STEP_STARTED''"
definition STEP_FINISHED :: string where "STEP_FINISHED = ''STEP_FINISHED''"
definition TEXT_MESSAGE_CONTENT :: string where "TEXT_MESSAGE_CONTENT = ''TEXT_MESSAGE_CONTENT''"
definition TEXT_MESSAGE_CHUNK :: string where "TEXT_MESSAGE_CHUNK = ''TEXT_MESSAGE_CHUNK''"
definition TOOL_CALL_START :: string where "TOOL_CALL_START = ''TOOL_CALL_START''"
definition TOOL_CALL_ARGS :: string where "TOOL_CALL_ARGS = ''TOOL_CALL_ARGS''"
definition TOOL_CALL_END :: string where "TOOL_CALL_END = ''TOOL_CALL_END''"
definition TOOL_CALL_RESULT :: string where "TOOL_CALL_RESULT = ''TOOL_CALL_RESULT''"
definition STATE_SNAPSHOT :: string where "STATE_SNAPSHOT = ''STATE_SNAPSHOT''"
definition STATE_DELTA :: string where "STATE_DELTA = ''STATE_DELTA''"
definition RAW :: string where "RAW = ''RAW''"
definition CUSTOM :: string where "CUSTOM = ''CUSTOM''"
definition REASONING_ENCRYPTED_VALUE :: string where "REASONING_ENCRYPTED_VALUE = ''REASONING_ENCRYPTED_VALUE''"

lemmas event_types =
  RUN_STARTED_def RUN_FINISHED_def RUN_ERROR_def STEP_STARTED_def STEP_FINISHED_def TEXT_MESSAGE_CONTENT_def
  TEXT_MESSAGE_CHUNK_def TOOL_CALL_START_def TOOL_CALL_ARGS_def TOOL_CALL_END_def TOOL_CALL_RESULT_def
  STATE_SNAPSHOT_def STATE_DELTA_def RAW_def CUSTOM_def REASONING_ENCRYPTED_VALUE_def

section \<open>From the wire\<close>

definition as_object :: "json \<Rightarrow> (string \<times> json) list option" where
  "as_object v = (case v of JObject kvs \<Rightarrow> Some kvs | _ \<Rightarrow> None)"

definition string_field :: "json \<Rightarrow> string \<Rightarrow> string \<Rightarrow> (ag_ui_error, string) result" where
  "string_field value kind field =
    ok_or (MissingField kind field) (Option.bind (json_get field value) as_str)"

definition message_id_field :: "json \<Rightarrow> string \<Rightarrow> (ag_ui_error, message_id) result" where
  "message_id_field value kind =
    and_then (string_field value kind ''messageId'')
      (\<lambda>s. map_err (\<lambda>_. BlankField kind ''messageId'') (message_id_new s))"

definition tool_call_id_field :: "json \<Rightarrow> string \<Rightarrow> (ag_ui_error, tool_call_id) result" where
  "tool_call_id_field value kind =
    and_then (string_field value kind ''toolCallId'')
      (\<lambda>s. map_err (\<lambda>_. BlankField kind ''toolCallId'') (tool_call_id_new s))"

definition PATCH_OPS :: "string list" where
  "PATCH_OPS = [''add'', ''remove'', ''replace'', ''move'', ''copy'', ''test'']"

definition pointer_depth :: "string \<Rightarrow> nat" where
  "pointer_depth path = length (filter (\<lambda>c. c = CHR ''/'') path)"

record delta_measure =
  dm_op_count :: nat
  dm_max_path_depth :: nat
  dm_max_value_bytes :: nat

text \<open>One operation of a patch: the running maxima of path depth and value size.\<close>

definition measure_op :: "serde \<Rightarrow> string \<Rightarrow> json \<Rightarrow> nat \<Rightarrow> nat \<Rightarrow> (ag_ui_error, nat \<times> nat) result" where
  "measure_op sj kind op depth vbytes =
    and_then (ok_or (MissingField kind ''delta'') (as_object op)) (\<lambda>obj.
    and_then (ok_or (MissingField kind ''op'') (Option.bind (map_of obj ''op'') as_str)) (\<lambda>op_kind.
    if op_kind \<notin> set PATCH_OPS then Inl (MissingField kind ''op'')
    else and_then (ok_or (MissingField kind ''path'') (Option.bind (map_of obj ''path'') as_str)) (\<lambda>path.
      let depth = max depth (pointer_depth path) in
      if op_kind = ''add'' \<or> op_kind = ''replace'' \<or> op_kind = ''test'' then
        and_then (ok_or (MissingField kind ''value'') (map_of obj ''value'')) (\<lambda>value.
          Inr (depth, max vbytes (length (sj_print sj value))))
      else if op_kind = ''move'' \<or> op_kind = ''copy'' then
        and_then (ok_or (MissingField kind ''from'') (Option.bind (map_of obj ''from'') as_str)) (\<lambda>source.
          Inr (max depth (pointer_depth source), vbytes))
      else Inr (depth, vbytes))))"

fun measure_ops :: "serde \<Rightarrow> string \<Rightarrow> json list \<Rightarrow> nat \<Rightarrow> nat \<Rightarrow> (ag_ui_error, nat \<times> nat) result" where
  "measure_ops sj kind [] depth vbytes = Inr (depth, vbytes)"
| "measure_ops sj kind (op # ops) depth vbytes =
    and_then (measure_op sj kind op depth vbytes) (\<lambda>(depth', vbytes'). measure_ops sj kind ops depth' vbytes')"

definition measure_delta :: "serde \<Rightarrow> json \<Rightarrow> string \<Rightarrow> (ag_ui_error, delta_measure) result" where
  "measure_delta sj delta kind =
    and_then (ok_or (MissingField kind ''delta'') (as_array delta)) (\<lambda>ops.
    and_then (measure_ops sj kind ops 0 0) (\<lambda>(depth, vbytes).
      Inr \<lparr>dm_op_count = length ops, dm_max_path_depth = depth, dm_max_value_bytes = vbytes\<rparr>))"

definition to_fragment :: "serde \<Rightarrow> json \<Rightarrow> (ag_ui_error, fragment option) result" where
  "to_fragment sj value =
    and_then (ok_or NotAnObject (as_object value)) (\<lambda>obj.
    and_then (ok_or MissingType (Option.bind (map_of obj ''type'') as_str)) (\<lambda>kind.
      if kind = RUN_STARTED then Inr (Some (F_Lifecycle RunStarted))
      else if kind = RUN_FINISHED then Inr (Some (F_Lifecycle RunFinished))
      else if kind = RUN_ERROR then Inr (Some (F_Lifecycle RunError))
      else if kind = STEP_STARTED then
        and_then (string_field value kind ''stepName'') (\<lambda>n. Inr (Some (F_Lifecycle (StepStarted n))))
      else if kind = STEP_FINISHED then
        and_then (string_field value kind ''stepName'') (\<lambda>n. Inr (Some (F_Lifecycle (StepFinished n))))
      else if kind = TEXT_MESSAGE_CONTENT \<or> kind = TEXT_MESSAGE_CHUNK then
        and_then (message_id_field value kind) (\<lambda>m.
        and_then (string_field value kind ''delta'') (\<lambda>t. Inr (Some (F_MessageChunk m t))))
      else if kind = TOOL_CALL_START then
        and_then (tool_call_id_field value kind) (\<lambda>i.
        and_then (string_field value kind ''toolCallName'') (\<lambda>n. Inr (Some (F_ToolCallStarted i n))))
      else if kind = TOOL_CALL_ARGS then
        and_then (tool_call_id_field value kind) (\<lambda>i.
        and_then (string_field value kind ''delta'') (\<lambda>d. Inr (Some (F_ToolCallArgs i d))))
      else if kind = TOOL_CALL_END then
        and_then (tool_call_id_field value kind) (\<lambda>i. Inr (Some (F_ToolCallEnded i)))
      else if kind = TOOL_CALL_RESULT then
        and_then (tool_call_id_field value kind) (\<lambda>i.
        and_then (string_field value kind ''content'') (\<lambda>c. Inr (Some (F_ToolResult i c))))
      else if kind = STATE_SNAPSHOT then
        and_then (ok_or (MissingField kind ''snapshot'') (json_get ''snapshot'' value)) (\<lambda>v.
          let p = sj_print sj v in Inr (Some (F_StateMutation (Snapshot (length p) p))))
      else if kind = STATE_DELTA then
        and_then (ok_or (MissingField kind ''delta'') (json_get ''delta'' value)) (\<lambda>delta.
        and_then (measure_delta sj delta kind) (\<lambda>dm.
          let p = sj_print sj delta in
          Inr (Some (F_StateMutation
            (Delta (dm_op_count dm) (length p) (dm_max_path_depth dm) (dm_max_value_bytes dm) p)))))
      else if kind = RAW then Inr (Some (F_Opaque Raw))
      else if kind = CUSTOM then Inr (Some (F_Opaque Custom))
      else if kind = REASONING_ENCRYPTED_VALUE then Inr (Some (F_Opaque Encrypted))
      else Inr None))"

section \<open>To the wire\<close>

fun to_event :: "agent_event \<Rightarrow> json option" where
  "to_event (E_MessageChunk message t) =
    Some (JObject [(''type'', JString TEXT_MESSAGE_CONTENT), (''messageId'', JString message), (''delta'', JString t)])"
| "to_event (E_ToolResult i _ content) =
    Some (JObject [(''type'', JString TOOL_CALL_RESULT), (''toolCallId'', JString i), (''content'', JString content)])"
| "to_event (E_ToolCall _ _ _) = None"
| "to_event (E_StateMutation _) = None"
| "to_event (E_Lifecycle _) = None"
| "to_event (E_Opaque _) = None"

section \<open>Requests\<close>

definition parse_identifier :: "(string \<times> json) list \<Rightarrow> string \<Rightarrow> string option" where
  "parse_identifier obj key =
    (case Option.bind (map_of obj key) as_str of
       None \<Rightarrow> None
     | Some s \<Rightarrow> if trim s \<noteq> [] then Some (trim s) else None)"

fun parse_tools :: "json list \<Rightarrow> (ag_ui_error, string list) result" where
  "parse_tools [] = Inr []"
| "parse_tools (tool # tools) =
    and_then (ok_or MalformedRequest (Option.bind (json_get ''name'' tool) as_str)) (\<lambda>n.
    and_then (parse_tools tools) (\<lambda>ns. Inr (n # ns)))"

definition parse_offered_tools :: "(string \<times> json) list \<Rightarrow> (ag_ui_error, string list) result" where
  "parse_offered_tools obj =
    (case map_of obj ''tools'' of
       None \<Rightarrow> Inr []
     | Some tools \<Rightarrow> and_then (ok_or MalformedRequest (as_array tools)) parse_tools)"

primrec collect_string_leaves :: "json \<Rightarrow> string list" where
  "collect_string_leaves JNull = []"
| "collect_string_leaves (JBool b) = []"
| "collect_string_leaves (JNumber n) = []"
| "collect_string_leaves (JString t) = [t]"
| "collect_string_leaves (JArray items) = concat (map collect_string_leaves items)"
| "collect_string_leaves (JObject obj) = concat (map snd (map (map_prod id collect_string_leaves) obj))"

fun split_messages :: "json list \<Rightarrow> (ag_ui_error, string list \<times> string list) result" where
  "split_messages [] = Inr ([], [])"
| "split_messages (message # messages) =
    and_then (ok_or MalformedRequest (as_object message)) (\<lambda>obj.
    and_then (ok_or MalformedRequest (Option.bind (map_of obj ''role'') as_str)) (\<lambda>role.
      if role \<noteq> ''user'' \<and> role \<noteq> ''system'' then split_messages messages
      else and_then (ok_or MalformedRequest (Option.bind (map_of obj ''content'') as_str)) (\<lambda>content.
        and_then (split_messages messages) (\<lambda>(user, system).
          Inr (if role = ''user'' then (content # user, system) else (user, content # system))))))"

definition parse_messages :: "(string \<times> json) list \<Rightarrow> (ag_ui_error, string list \<times> string list) result" where
  "parse_messages obj =
    (case map_of obj ''messages'' of
       None \<Rightarrow> Inr ([], [])
     | Some messages \<Rightarrow> and_then (ok_or MalformedRequest (as_array messages)) split_messages)"

definition hidden_leaves :: "(string \<times> json) list \<Rightarrow> string list" where
  "hidden_leaves obj =
    concat (map (\<lambda>key. case map_of obj key of None \<Rightarrow> [] | Some v \<Rightarrow> collect_string_leaves v)
      [''context'', ''forwardedProps'', ''state''])"

definition parse_request :: "serde \<Rightarrow> string \<Rightarrow> (ag_ui_error, request_content) result" where
  "parse_request sj body =
    and_then (ok_or MalformedRequest (parse_ok sj body)) (\<lambda>value.
    and_then (ok_or MalformedRequest (as_object value)) (\<lambda>obj.
    and_then (parse_messages obj) (\<lambda>(user, system).
    and_then (parse_offered_tools obj) (\<lambda>tools.
      Inr \<lparr>rq_thread_id = parse_identifier obj ''threadId'', rq_run_id = parse_identifier obj ''runId'',
           rq_offered_tools = tools, rq_user_messages = user, rq_hidden_fields = system @ hidden_leaves obj\<rparr>))))"

section \<open>Patches\<close>

text \<open>What the operator's patch limits mean for one operation: a well-formed operation whose pointers
  are not too deep and whose value is not too large.\<close>

definition op_within :: "serde \<Rightarrow> nat \<Rightarrow> nat \<Rightarrow> json \<Rightarrow> bool" where
  "op_within sj depth vbytes op \<longleftrightarrow>
    (\<exists>k path. k \<in> set PATCH_OPS \<and> json_get ''op'' op = Some (JString k) \<and>
      json_get ''path'' op = Some (JString path) \<and> pointer_depth path \<le> depth \<and>
      (k \<in> {''add'', ''replace'', ''test''} \<longrightarrow>
        (\<exists>v. json_get ''value'' op = Some v \<and> length (sj_print sj v) \<le> vbytes)) \<and>
      (k \<in> {''move'', ''copy''} \<longrightarrow>
        (\<exists>source. json_get ''from'' op = Some (JString source) \<and> pointer_depth source \<le> depth)))"

lemma as_str_eq [simp]: "as_str v = Some s \<longleftrightarrow> v = JString s"
  by (cases v) (simp_all add: as_str_def)

lemma as_object_eq [simp]: "as_object v = Some kvs \<longleftrightarrow> v = JObject kvs"
  by (cases v) (auto simp: as_object_def)

lemma as_array_eq [simp]: "as_array v = Some xs \<longleftrightarrow> v = JArray xs"
  by (cases v) (auto simp: as_array_def)

lemma json_get_object [simp]: "json_get k (JObject kvs) = map_of kvs k"
  by (simp add: json_get_def)

lemma bind_str_eq [simp]: "Option.bind x as_str = Some s \<longleftrightarrow> x = Some (JString s)"
  by (cases x) simp_all

lemma op_withinI:
  "k \<in> set PATCH_OPS \<Longrightarrow> json_get ''op'' op = Some (JString k) \<Longrightarrow> json_get ''path'' op = Some (JString path) \<Longrightarrow>
    pointer_depth path \<le> depth \<Longrightarrow>
    (k \<in> {''add'', ''replace'', ''test''} \<Longrightarrow> \<exists>v. json_get ''value'' op = Some v \<and> length (sj_print sj v) \<le> vbytes) \<Longrightarrow>
    (k \<in> {''move'', ''copy''} \<Longrightarrow> \<exists>source. json_get ''from'' op = Some (JString source) \<and> pointer_depth source \<le> depth) \<Longrightarrow>
    op_within sj depth vbytes op"
  unfolding op_within_def by (rule exI [of _ k], rule exI [of _ path]) simp

lemma op_within_mono: "op_within sj a b op \<Longrightarrow> a \<le> a' \<Longrightarrow> b \<le> b' \<Longrightarrow> op_within sj a' b' op"
proof -
  assume within: "op_within sj a b op" and le: "a \<le> a'" "b \<le> b'"
  have up: "x \<le> a \<Longrightarrow> x \<le> a'" "x \<le> b \<Longrightarrow> x \<le> b'" for x using le by simp_all
  from within obtain k path where "k \<in> set PATCH_OPS" "json_get ''op'' op = Some (JString k)"
      "json_get ''path'' op = Some (JString path)" "pointer_depth path \<le> a"
      "k \<in> {''add'', ''replace'', ''test''} \<Longrightarrow> \<exists>v. json_get ''value'' op = Some v \<and> length (sj_print sj v) \<le> b"
      "k \<in> {''move'', ''copy''} \<Longrightarrow> \<exists>source. json_get ''from'' op = Some (JString source) \<and> pointer_depth source \<le> a"
    unfolding op_within_def by (elim exE conjE) simp
  then show ?thesis by (intro op_withinI [of k op path]) (simp_all add: up, (blast intro: up)+)
qed

lemma measure_op_kinds:
  assumes "map_of obj ''op'' = Some (JString k)" and "map_of obj ''path'' = Some (JString path)"
  shows "k \<in> {''add'', ''replace'', ''test''} \<Longrightarrow> measure_op sj kind (JObject obj) depth vbytes =
      (case map_of obj ''value'' of
         None \<Rightarrow> Inl (MissingField kind ''value'')
       | Some v \<Rightarrow> Inr (max depth (pointer_depth path), max vbytes (length (sj_print sj v))))"
    and "k \<in> {''move'', ''copy''} \<Longrightarrow> measure_op sj kind (JObject obj) depth vbytes =
      (case Option.bind (map_of obj ''from'') as_str of
         None \<Rightarrow> Inl (MissingField kind ''from'')
       | Some p \<Rightarrow> Inr (max (max depth (pointer_depth path)) (pointer_depth p), vbytes))"
    and "k = ''remove'' \<Longrightarrow> measure_op sj kind (JObject obj) depth vbytes = Inr (max depth (pointer_depth path), vbytes)"
  using assms by (auto simp: measure_op_def as_object_def as_str_def PATCH_OPS_def Let_def split: option.splits)

lemma PATCH_OPS_cases:
  "k \<in> set PATCH_OPS \<Longrightarrow> k \<in> {''add'', ''replace'', ''test''} \<or> k \<in> {''move'', ''copy''} \<or> k = ''remove''"
  unfolding PATCH_OPS_def list.set insert_iff empty_iff by (elim disjE) simp_all

lemma measure_op_object:
  assumes "measure_op sj kind op depth vbytes = Inr x"
  obtains obj k path where "op = JObject obj" "map_of obj ''op'' = Some (JString k)" "k \<in> set PATCH_OPS"
    "map_of obj ''path'' = Some (JString path)"
proof -
  note m = assms [unfolded measure_op_def]
  obtain obj where obj: "op = JObject obj" using m by (cases op) (simp_all add: as_object_def)
  obtain k where k: "map_of obj ''op'' = Some (JString k)"
    using m by (cases "Option.bind (map_of obj ''op'') as_str") (simp_all add: obj as_object_def)
  then have ops: "k \<in> set PATCH_OPS" using m by (cases "k \<in> set PATCH_OPS") (simp_all add: obj as_object_def as_str_def)
  obtain path where path: "map_of obj ''path'' = Some (JString path)"
    using m ops k by (cases "Option.bind (map_of obj ''path'') as_str") (simp_all add: obj as_object_def as_str_def)
  from that obj k ops path show thesis by blast
qed

lemma measure_op_within:
  assumes "measure_op sj kind op depth vbytes = Inr (depth', vbytes')"
  shows "depth \<le> depth' \<and> vbytes \<le> vbytes' \<and> op_within sj depth' vbytes' op"
proof -
  from assms obtain obj k path where o: "op = JObject obj" "map_of obj ''op'' = Some (JString k)"
      "k \<in> set PATCH_OPS" "map_of obj ''path'' = Some (JString path)" by (rule measure_op_object)
  note kinds = measure_op_kinds [OF o(2,4), of sj kind depth vbytes]
  have get: "json_get ''op'' op = Some (JString k)" "json_get ''path'' op = Some (JString path)" using o by simp_all
  note within = op_withinI [OF o(3) get, of depth' sj vbytes']
  from PATCH_OPS_cases [OF o(3)] show ?thesis
  proof (elim disjE)
    assume val: "k \<in> {''add'', ''replace'', ''test''}"
    obtain v where v: "map_of obj ''value'' = Some v" "depth' = max depth (pointer_depth path)"
        "vbytes' = max vbytes (length (sj_print sj v))"
      using assms kinds(1) [OF val] unfolding o(1) by (cases "map_of obj ''value''") simp_all
    have "k \<notin> {''move'', ''copy''}" using val by auto
    then have "op_within sj depth' vbytes' op" by (intro within) (simp_all add: v o(1))
    with v show ?thesis by simp
  next
    assume source: "k \<in> {''move'', ''copy''}"
    obtain p where p: "map_of obj ''from'' = Some (JString p)" "vbytes' = vbytes"
        "depth' = max (max depth (pointer_depth path)) (pointer_depth p)"
      using assms kinds(2) [OF source] unfolding o(1) by (cases "Option.bind (map_of obj ''from'') as_str") simp_all
    have "k \<notin> {''add'', ''replace'', ''test''}" using source by auto
    then have "op_within sj depth' vbytes' op" by (intro within) (simp_all add: p o(1))
    with p show ?thesis by simp
  next
    assume rem: "k = ''remove''"
    have r: "depth' = max depth (pointer_depth path)" "vbytes' = vbytes" using assms kinds(3) [OF rem] unfolding o(1) by simp_all
    have "op_within sj depth' vbytes' op" by (intro within) (simp_all add: rem r)
    with r show ?thesis by simp
  qed
qed

lemma measure_ops_within:
  "measure_ops sj kind ops depth vbytes = Inr (depth', vbytes') \<Longrightarrow>
    depth \<le> depth' \<and> vbytes \<le> vbytes' \<and> list_all (op_within sj depth' vbytes') ops"
proof (induction ops arbitrary: depth vbytes)
  case (Cons op ops)
  then obtain d1 v1 where one: "measure_op sj kind op depth vbytes = Inr (d1, v1)"
      "measure_ops sj kind ops d1 v1 = Inr (depth', vbytes')"
    by (auto simp: and_then_eq_Inr)
  from measure_op_within [OF one(1)] Cons.IH [OF one(2)] show ?case
    using op_within_mono [of sj d1 v1 op depth' vbytes'] by auto
qed simp

lemma to_fragment_delta:
  "map_of obj ''type'' = Some (JString STATE_DELTA) \<Longrightarrow> to_fragment sj (JObject obj) =
    and_then (ok_or (MissingField STATE_DELTA ''delta'') (map_of obj ''delta'')) (\<lambda>delta.
    and_then (measure_delta sj delta STATE_DELTA) (\<lambda>dm.
      let p = sj_print sj delta in
      Inr (Some (F_StateMutation
        (Delta (dm_op_count dm) (length p) (dm_max_path_depth dm) (dm_max_value_bytes dm) p)))))"
  by (simp add: to_fragment_def as_object_def as_str_def event_types)

text \<open>C35: A state delta that passes the structural checks is a JSON patch of at most the permitted
  number of operations, each a well-formed operation of RFC 6902 with its operand, whose path (and,
  for a move or a copy, source pointer) is at most as deep and whose value is at most as long as the run's patch budget.\<close>

theorem passed_delta_within_budget:
  assumes "json_get ''type'' value = Some (JString STATE_DELTA)" and "to_fragment sj value = Inr (Some f)"
    and "run_inspect f r = (Ready e, r')"
  shows "\<exists>ops. json_get ''delta'' value = Some (JArray ops) \<and>
    length ops \<le> pb_max_ops (bg_patch (run_budgets r)) \<and>
    list_all (op_within sj (pb_max_path_depth (bg_patch (run_budgets r))) (pb_max_value_bytes (bg_patch (run_budgets r)))) ops"
proof -
  obtain obj where v: "value = JObject obj" using assms(1) by (cases "value") (auto simp: json_get_def)
  obtain ops depth vbytes p where d: "map_of obj ''delta'' = Some (JArray ops)"
      "measure_ops sj STATE_DELTA ops 0 0 = Inr (depth, vbytes)"
      "f = F_StateMutation (Delta (length ops) (length p) depth vbytes p)"
    using assms(1,2) v by (auto simp: to_fragment_delta measure_delta_def and_then_eq_Inr Let_def)
  have "length ops \<le> pb_max_ops (bg_patch (run_budgets r)) \<and> depth \<le> pb_max_path_depth (bg_patch (run_budgets r)) \<and>
      vbytes \<le> pb_max_value_bytes (bg_patch (run_budgets r))"
    using assms(3) d(3)
    by (auto simp: run_inspect_def inspect_content_def check_mutation_def split: if_splits option.splits)
  with measure_ops_within [OF d(2)] d(1) v show ?thesis
    by (simp add: list_all_iff) (blast intro: op_within_mono)
qed

definition demo_delta :: json where
  "demo_delta = JObject [(''type'', JString ''STATE_DELTA''),
    (''delta'', JArray [JObject [(''op'', JString ''add''), (''path'', JString ''/a/b''), (''value'', JBool True)],
                       JObject [(''op'', JString ''move''), (''path'', JString ''/c''), (''from'', JString ''/a/b'')]])]"

definition demo_printer :: serde where
  "demo_printer = \<lparr>sj_parse = \<lambda>_. Inl ''error'', sj_print = \<lambda>v. case v of JBool True \<Rightarrow> ''true'' | _ \<Rightarrow> ''...''\<rparr>"

theorem passed_delta_within_budget_witness:
  "\<exists>ops. json_get ''delta'' demo_delta = Some (JArray ops) \<and> length ops \<le> 256 \<and>
    list_all (op_within demo_printer 32 65536) ops"
proof -
  let ?f = "F_StateMutation (Delta 2 3 2 4 ''...'')" and ?r = "(run_new 1 budgets_default)\<lparr>run_phase := Running\<rparr>"
  have "json_get ''type'' demo_delta = Some (JString STATE_DELTA)" by (simp add: demo_delta_def event_types)
  moreover have "to_fragment demo_printer demo_delta = Inr (Some ?f)" by code_simp
  moreover have "run_inspect ?f ?r = (Ready (E_StateMutation (Delta 2 3 2 4 ''...'')), ?r)"
    by (simp add: run_inspect_def inspect_content_def check_mutation_def run_new_def budgets_default_def budgets_new_def
        patch_budget_default_def)
  ultimately show ?thesis
    using passed_delta_within_budget [of demo_delta demo_printer ?f ?r]
    by (simp add: run_new_def budgets_default_def budgets_new_def patch_budget_default_def)
qed

section \<open>Rewritten events\<close>

text \<open>A rewritten message or result is read back as what it was rewritten to.\<close>

lemma to_event_fragment:
  "trim m \<noteq> [] \<Longrightarrow> to_event (E_MessageChunk m t) = Some v \<Longrightarrow> to_fragment sj v = Inr (Some (F_MessageChunk m t))"
  "trim i \<noteq> [] \<Longrightarrow> to_event (E_ToolResult i n t) = Some v \<Longrightarrow> to_fragment sj v = Inr (Some (F_ToolResult i t))"
  by (auto simp: to_fragment_def as_object_def as_str_def event_types message_id_field_def tool_call_id_field_def
      string_field_def message_id_new_def tool_call_id_new_def non_blank_def)

text \<open>The ids of a fragment are not blank, so that they correlate.\<close>

lemma id_field_not_blank:
  "message_id_field v k = Inr m \<Longrightarrow> trim m \<noteq> []"
  "tool_call_id_field v k = Inr m \<Longrightarrow> trim m \<noteq> []"
  by (auto simp: message_id_field_def tool_call_id_field_def message_id_new_def tool_call_id_new_def non_blank_def
      and_then_eq_Inr map_err_def split: sum.splits if_splits)

section \<open>Every text of a request is inspected\<close>

inductive string_leaf :: "string \<Rightarrow> json \<Rightarrow> bool" where
  leaf: "string_leaf t (JString t)"
| item: "x \<in> set items \<Longrightarrow> string_leaf t x \<Longrightarrow> string_leaf t (JArray items)"
| field: "(k, x) \<in> set obj \<Longrightarrow> string_leaf t x \<Longrightarrow> string_leaf t (JObject obj)"

inductive_simps string_leaf_simps [simp]:
  "string_leaf t JNull" "string_leaf t (JBool b)" "string_leaf t (JNumber n)" "string_leaf t (JString s)"
  "string_leaf t (JArray items)" "string_leaf t (JObject obj)"

lemma collect_string_leaves_iff: "t \<in> set (collect_string_leaves v) \<longleftrightarrow> string_leaf t v"
proof (induction v)
  case (JArray items)
  then show ?case by auto
next
  case (JObject obj)
  have IH: "t \<in> set (collect_string_leaves x) \<longleftrightarrow> string_leaf t x" if "(k, x) \<in> set obj" for k x
    using JObject [OF that] by simp
  have "t \<in> set (collect_string_leaves (JObject obj)) \<longleftrightarrow> (\<exists>(k, x) \<in> set obj. t \<in> set (collect_string_leaves x))"
    by (simp add: comp_def case_prod_beta)
  also have "\<dots> \<longleftrightarrow> (\<exists>(k, x) \<in> set obj. string_leaf t x)" using IH by blast
  finally show ?case by auto
qed auto

lemma parse_tools_names:
  "parse_tools tools = Inr ns \<Longrightarrow> tool \<in> set tools \<Longrightarrow> \<exists>n \<in> set ns. json_get ''name'' tool = Some (JString n)"
  by (induction tools arbitrary: ns) (auto simp: and_then_eq_Inr)

definition screened_role :: "json \<Rightarrow> bool" where
  "screened_role message \<longleftrightarrow> json_get ''role'' message \<in> {Some (JString ''user''), Some (JString ''system'')}"

lemma split_messages_contents:
  "split_messages ms = Inr (user, system) \<Longrightarrow> message \<in> set ms \<Longrightarrow> screened_role message \<Longrightarrow>
    \<exists>t \<in> set user \<union> set system. json_get ''content'' message = Some (JString t)"
proof (induction ms arbitrary: user system)
  case (Cons m ms)
  obtain obj role where m: "m = JObject obj" "map_of obj ''role'' = Some (JString role)"
    using Cons.prems(1) by (auto simp: and_then_eq_Inr)
  show ?case
  proof (cases "role \<noteq> ''user'' \<and> role \<noteq> ''system''")
    case True
    then have "split_messages ms = Inr (user, system)"
      using Cons.prems(1) m by (simp add: as_object_def as_str_def)
    moreover have "message \<noteq> m" using True m Cons.prems(3) by (auto simp: screened_role_def)
    ultimately show ?thesis using Cons.IH Cons.prems by auto
  next
    case False
    then obtain t user' system' where t: "map_of obj ''content'' = Some (JString t)"
        "split_messages ms = Inr (user', system')"
        "(user, system) = (if role = ''user'' then (t # user', system') else (user', t # system'))"
      using Cons.prems(1) m by (auto simp: as_object_def as_str_def and_then_eq_Inr split: option.splits)
    show ?thesis
    proof (cases "message = m")
      case True
      with t m show ?thesis by (auto split: if_splits)
    next
      case other: False
      with Cons.IH [OF t(2)] Cons.prems t(3) show ?thesis by (auto split: if_splits)
    qed
  qed
qed simp

text \<open>What holds of every text and of every tool that is handed to the screens holds of the string leaves, however
  deeply nested, of the context, the forwarded properties and the state, of the contents of the user and system
  messages, and of the offered tools.\<close>

lemma request_contents:
  assumes "parse_ok sj body = Some (JObject obj)" and "parse_request sj body = Inr rq"
    and texts: "list_all P (rq_user_messages rq @ rq_hidden_fields rq)" and names: "list_all N (rq_offered_tools rq)"
  shows "key \<in> {''context'', ''forwardedProps'', ''state''} \<Longrightarrow> map_of obj key = Some v \<Longrightarrow> string_leaf t v \<Longrightarrow> P t"
    and "map_of obj ''messages'' = Some (JArray ms) \<Longrightarrow> message \<in> set ms \<Longrightarrow> screened_role message \<Longrightarrow>
      \<exists>t. json_get ''content'' message = Some (JString t) \<and> P t"
    and "map_of obj ''tools'' = Some (JArray ts) \<Longrightarrow> tool \<in> set ts \<Longrightarrow>
      \<exists>n. json_get ''name'' tool = Some (JString n) \<and> N n"
proof -
  obtain user system tools where p: "parse_messages obj = Inr (user, system)" "parse_offered_tools obj = Inr tools"
      "rq_offered_tools rq = tools" "rq_user_messages rq = user" "rq_hidden_fields rq = system @ hidden_leaves obj"
    using assms(1,2) by (auto simp: parse_request_def and_then_eq_Inr)
  have passes: "list_all N tools" "list_all P user" "list_all P system" "list_all P (hidden_leaves obj)"
    using texts names p by simp_all
  show "P t"
    if "key \<in> {''context'', ''forwardedProps'', ''state''}" "map_of obj key = Some v" "string_leaf t v"
  proof -
    have "set (collect_string_leaves v) \<subseteq> set (hidden_leaves obj)"
      using that(1,2) by (auto simp: hidden_leaves_def)
    with that(3) passes(4) show ?thesis by (auto simp: collect_string_leaves_iff [symmetric] list_all_iff)
  qed
  show "\<exists>t. json_get ''content'' message = Some (JString t) \<and> P t"
    if "map_of obj ''messages'' = Some (JArray ms)" "message \<in> set ms" "screened_role message"
  proof -
    have "split_messages ms = Inr (user, system)" using p(1) that(1) by (simp add: parse_messages_def as_array_def)
    from split_messages_contents [OF this that(2,3)] passes(2,3) show ?thesis by (auto simp: list_all_iff)
  qed
  show "\<exists>n. json_get ''name'' tool = Some (JString n) \<and> N n"
    if "map_of obj ''tools'' = Some (JArray ts)" "tool \<in> set ts"
  proof -
    have "parse_tools ts = Inr tools" using p(2) that(1) by (simp add: parse_offered_tools_def as_array_def)
    from parse_tools_names [OF this that(2)] passes(1) show ?thesis by (auto simp: list_all_iff)
  qed
qed

end
