(* ===== verification/Utf8_Text.thy ===== *)
theory Utf8_Text
  imports Agate_Text
begin

text \<open>
  \<^verbatim>\<open>String::from_utf8_lossy\<close> of the Rust standard library, which the stream decoder applies to the
  bytes an agent sends: well-formed UTF-8 sequences are kept and each maximal ill-formed
  prefix of a sequence becomes the replacement character U+FFFD.  The lemmas say what a caller relies
  on: ASCII bytes are boundaries of the decoding, nothing ASCII is added or removed, and
  well-formed text is unchanged.
\<close>

section \<open>Decoding\<close>

text \<open>The byte at a position, 0 past the end.\<close>

definition byte_at :: "string \<Rightarrow> nat \<Rightarrow> nat" where
  "byte_at s i = (if i < length s then of_char (s ! i) else 0)"

definition utf8_cont :: "nat \<Rightarrow> bool" where
  "utf8_cont b = (0x80 \<le> b \<and> b \<le> 0xBF)"

definition second_of_3 :: "nat \<Rightarrow> nat \<Rightarrow> bool" where
  "second_of_3 a b =
    (if a = 0xE0 then 0xA0 \<le> b \<and> b \<le> 0xBF
     else if a = 0xED then 0x80 \<le> b \<and> b \<le> 0x9F
     else utf8_cont b)"

definition second_of_4 :: "nat \<Rightarrow> nat \<Rightarrow> bool" where
  "second_of_4 a b =
    (if a = 0xF0 then 0x90 \<le> b \<and> b \<le> 0xBF
     else if a = 0xF4 then 0x80 \<le> b \<and> b \<le> 0x8F
     else utf8_cont b)"

text \<open>The sequence a non-empty text starts with: whether it is well formed, and the number of bytes
  inspected.\<close>

definition utf8_step :: "string \<Rightarrow> bool \<times> nat" where
  "utf8_step s =
    (let a = byte_at s 0; b = byte_at s 1 in
     if a < 0x80 then (True, 1)
     else if 0xC2 \<le> a \<and> a \<le> 0xDF then if utf8_cont b then (True, 2) else (False, 1)
     else if 0xE0 \<le> a \<and> a \<le> 0xEF then
       if \<not> second_of_3 a b then (False, 1)
       else if \<not> utf8_cont (byte_at s 2) then (False, 2)
       else (True, 3)
     else if 0xF0 \<le> a \<and> a \<le> 0xF4 then
       if \<not> second_of_4 a b then (False, 1)
       else if \<not> utf8_cont (byte_at s 2) then (False, 2)
       else if \<not> utf8_cont (byte_at s 3) then (False, 3)
       else (True, 4)
     else (False, 1))"

lemma utf8_step_pos: "0 < snd (utf8_step s)"
  by (simp add: utf8_step_def Let_def)

definition REPLACEMENT :: string where
  "REPLACEMENT = [CHR 0xEF, CHR 0xBF, CHR 0xBD]"

function from_utf8_lossy :: "string \<Rightarrow> string" where
  "from_utf8_lossy s =
    (if s = [] then []
     else (if fst (utf8_step s) then take (snd (utf8_step s)) s else REPLACEMENT) @
       from_utf8_lossy (drop (snd (utf8_step s)) s))"
  by pat_completeness auto
termination
  by (relation "measure length") (simp_all add: utf8_step_pos)

declare from_utf8_lossy.simps [simp del]

function utf8_valid :: "string \<Rightarrow> bool" where
  "utf8_valid s =
    (if s = [] then True
     else fst (utf8_step s) \<and> utf8_valid (drop (snd (utf8_step s)) s))"
  by pat_completeness auto
termination
  by (relation "measure length") (simp_all add: utf8_step_pos)

declare utf8_valid.simps [simp del]

section \<open>Boundaries\<close>

definition ascii_char :: "char \<Rightarrow> bool" where
  "ascii_char c \<longleftrightarrow> (of_char c :: nat) < 0x80"

lemma lossy_Nil [simp]: "from_utf8_lossy [] = []"
  by (simp add: from_utf8_lossy.simps)

lemma utf8_valid_Nil [simp]: "utf8_valid []"
  by (simp add: utf8_valid.simps)

lemma utf8_step_ascii: "ascii_char c \<Longrightarrow> utf8_step (c # s) = (True, 1)"
  by (simp add: utf8_step_def byte_at_def ascii_char_def)

lemma lossy_ascii: "ascii_char c \<Longrightarrow> from_utf8_lossy (c # s) = c # from_utf8_lossy s"
  by (subst from_utf8_lossy.simps) (simp add: utf8_step_ascii)

lemma utf8_valid_ascii: "ascii_char c \<Longrightarrow> utf8_valid (c # s) = utf8_valid s"
  by (subst utf8_valid.simps) (simp add: utf8_step_ascii)

text \<open>Past the end, and at an ASCII byte, there is no continuation byte.\<close>

lemma not_cont_small: "b < 0x80 \<Longrightarrow> \<not> utf8_cont b \<and> \<not> second_of_3 a b \<and> \<not> second_of_4 a b"
  by (auto simp: utf8_cont_def second_of_3_def second_of_4_def)

lemma byte_at_past: "length s \<le> i \<Longrightarrow> byte_at s i = 0"
  by (simp add: byte_at_def)

lemma cont_inside:
  "utf8_cont (byte_at s i) \<Longrightarrow> i < length s"
  "second_of_3 a (byte_at s i) \<Longrightarrow> i < length s"
  "second_of_4 a (byte_at s i) \<Longrightarrow> i < length s"
  using not_cont_small [of 0] by (metis byte_at_past not_less zero_less_numeral)+

lemma utf8_step_le: "s \<noteq> [] \<Longrightarrow> snd (utf8_step s) \<le> length s"
  using cont_inside(1) [of s 1] cont_inside(1) [of s 2] cont_inside(1) [of s 3]
    cont_inside(2) [of "byte_at s 0" s 1] cont_inside(3) [of "byte_at s 0" s 1]
  by (auto simp: utf8_step_def Let_def Suc_le_eq)

lemma byte_at_append:
  "i < length s \<Longrightarrow> byte_at (s @ t) i = byte_at s i"
  "byte_at (s @ c # t) (length s) = of_char c"
  by (simp_all add: byte_at_def nth_append)

lemma cont_append:
  assumes "ascii_char c" and "i \<le> length s"
  shows "utf8_cont (byte_at (s @ c # t) i) = utf8_cont (byte_at s i)"
    and "second_of_3 a (byte_at (s @ c # t) i) = second_of_3 a (byte_at s i)"
    and "second_of_4 a (byte_at (s @ c # t) i) = second_of_4 a (byte_at s i)"
proof -
  have c: "(of_char c :: nat) < 0x80" using assms(1) by (simp add: ascii_char_def)
  consider "i < length s" | "i = length s" using assms(2) by linarith
  then have "byte_at (s @ c # t) i = byte_at s i \<or> byte_at (s @ c # t) i < 0x80 \<and> byte_at s i < 0x80"
    by cases (use c in \<open>simp_all add: byte_at_append byte_at_past\<close>)
  then show "utf8_cont (byte_at (s @ c # t) i) = utf8_cont (byte_at s i)"
    "second_of_3 a (byte_at (s @ c # t) i) = second_of_3 a (byte_at s i)"
    "second_of_4 a (byte_at (s @ c # t) i) = second_of_4 a (byte_at s i)"
    using not_cont_small by metis+
qed

lemma utf8_step_append:
  assumes "ascii_char c" and "s \<noteq> []"
  shows "utf8_step (s @ c # t) = utf8_step s"
proof -
  have "byte_at (s @ c # t) 0 = byte_at s 0" using assms(2) by (simp add: byte_at_append)
  moreover have "1 \<le> length s" using assms(2) by (cases s) auto
  moreover have "utf8_cont (byte_at s 1) \<Longrightarrow> 2 \<le> length s" "second_of_3 a (byte_at s 1) \<Longrightarrow> 2 \<le> length s"
    "second_of_4 a (byte_at s 1) \<Longrightarrow> 2 \<le> length s" "utf8_cont (byte_at s 2) \<Longrightarrow> 3 \<le> length s" for a
    using cont_inside(1) [of s 1] cont_inside(1) [of s 2] cont_inside(2) [of a s 1] cont_inside(3) [of a s 1]
    by simp_all
  ultimately show ?thesis
    using cont_append [OF assms(1)] by (auto simp: utf8_step_def Let_def)
qed

lemma lossy_append_ascii:
  "ascii_char c \<Longrightarrow> from_utf8_lossy (s @ c # t) = from_utf8_lossy s @ c # from_utf8_lossy t"
proof (induction s rule: from_utf8_lossy.induct)
  case (1 s)
  show ?case
  proof (cases "s = []")
    case True
    with "1.prems" show ?thesis by (simp add: lossy_ascii)
  next
    case False
    from utf8_step_append [OF "1.prems" False, of t] utf8_step_le [OF False] "1.IH" [OF False "1.prems"]
    have "from_utf8_lossy (s @ c # t) =
        (if fst (utf8_step s) then take (snd (utf8_step s)) s else REPLACEMENT) @
          from_utf8_lossy (drop (snd (utf8_step s)) s) @ c # from_utf8_lossy t"
      by (subst from_utf8_lossy.simps) simp
    with False show ?thesis by (simp add: from_utf8_lossy.simps [of s])
  qed
qed

lemma utf8_valid_append_ascii: "ascii_char c \<Longrightarrow> utf8_valid (s @ c # t) \<longleftrightarrow> utf8_valid s \<and> utf8_valid t"
proof (induction s rule: utf8_valid.induct)
  case (1 s)
  show ?case
  proof (cases "s = []")
    case True
    with "1.prems" show ?thesis by (simp add: utf8_valid_ascii)
  next
    case False
    note step = utf8_step_append [OF "1.prems" False, of t]
    show ?thesis
    proof (cases "fst (utf8_step s)")
      case True
      from "1.IH" [OF False "1.prems"] utf8_step_le [OF False] step True False show ?thesis
        by (subst (1 2) utf8_valid.simps) simp
    next
      case bad: False
      with step False show ?thesis by (subst (1 2) utf8_valid.simps) simp
    qed
  qed
qed

lemma lossy_valid: "utf8_valid s \<Longrightarrow> from_utf8_lossy s = s"
proof (induction s rule: utf8_valid.induct)
  case (1 s)
  then show ?case
    by (subst from_utf8_lossy.simps, subst (asm) (2) utf8_valid.simps) auto
qed

lemma utf8_valid_is_ascii: "is_ascii s \<Longrightarrow> utf8_valid s"
  by (induction s) (simp_all add: utf8_valid_ascii ascii_char_def is_ascii_def)

text \<open>The ASCII bytes of a decoded text are those of the original, in order.\<close>

lemma cont_not_ascii:
  "utf8_cont (byte_at s i) \<Longrightarrow> \<not> ascii_char (s ! i)"
  "second_of_3 a (byte_at s i) \<Longrightarrow> \<not> ascii_char (s ! i)"
  "second_of_4 a (byte_at s i) \<Longrightarrow> \<not> ascii_char (s ! i)"
  unfolding ascii_char_def by (metis not_cont_small cont_inside(1) byte_at_def,
    metis not_cont_small cont_inside(2) byte_at_def, metis not_cont_small cont_inside(3) byte_at_def)

lemma utf8_step_multi:
  assumes "s \<noteq> []" and "\<not> ascii_char (List.hd s)" and "x \<in> set (take (snd (utf8_step s)) s)"
  shows "\<not> ascii_char x"
proof -
  from assms(3) obtain i where i: "i < snd (utf8_step s)" "i < length s" "x = s ! i"
    by (auto simp: in_set_conv_nth)
  let ?a = "byte_at s 0"
  have zero: "\<not> ascii_char (s ! 0)" using assms(1,2) by (cases s) auto
  then have big0: "\<not> ?a < 0x80" using assms(1) by (simp add: byte_at_def ascii_char_def)
  have two: "1 < snd (utf8_step s) \<Longrightarrow>
      utf8_cont (byte_at s 1) \<or> second_of_3 ?a (byte_at s 1) \<or> second_of_4 ?a (byte_at s 1)"
    using big0 unfolding utf8_step_def Let_def by (simp split: if_splits)
  have three: "2 < snd (utf8_step s) \<Longrightarrow> utf8_cont (byte_at s 2)"
    using big0 unfolding utf8_step_def Let_def by (simp split: if_splits)
  have four: "3 < snd (utf8_step s) \<Longrightarrow> utf8_cont (byte_at s 3)"
    using big0 unfolding utf8_step_def Let_def by (simp split: if_splits)
  have five: "snd (utf8_step s) \<le> 4" unfolding utf8_step_def Let_def by simp
  have "i = 0 \<or> i = 1 \<or> i = 2 \<or> i = 3" using i(1) five by linarith
  then show ?thesis
    using i zero two three four cont_not_ascii(1) [of s 1] cont_not_ascii(2,3) [of ?a s 1]
      cont_not_ascii(1) [of s 2] cont_not_ascii(1) [of s 3]
    by blast
qed

lemma lossy_filter_ascii: "filter ascii_char (from_utf8_lossy s) = filter ascii_char s"
proof (induction s rule: from_utf8_lossy.induct)
  case (1 s)
  show ?case
  proof (cases s)
    case (Cons c u)
    show ?thesis
    proof (cases "ascii_char c")
      case True
      have "snd (utf8_step s) = 1" using True Cons by (simp add: utf8_step_ascii)
      with "1.IH" Cons True show ?thesis by (simp add: lossy_ascii)
    next
      case False
      let ?n = "snd (utf8_step s)"
      have none: "filter ascii_char (take ?n s) = []"
        using utf8_step_multi [of s] Cons False by (auto simp: filter_empty_conv)
      have rep: "filter ascii_char REPLACEMENT = []" by (simp add: REPLACEMENT_def ascii_char_def)
      have "filter ascii_char (from_utf8_lossy s) = filter ascii_char (drop ?n s)"
        using "1.IH" Cons none rep by (subst from_utf8_lossy.simps) simp
      also have "\<dots> = filter ascii_char (take ?n s @ drop ?n s)" by (simp only: filter_append none append_Nil)
      finally show ?thesis by simp
    qed
  qed simp
qed

lemma lossy_set_ascii: "ascii_char c \<Longrightarrow> c \<in> set (from_utf8_lossy s) \<longleftrightarrow> c \<in> set s"
  using arg_cong [OF lossy_filter_ascii [of s], of set] by auto

lemma lossy_eq_Nil [simp]: "from_utf8_lossy s = [] \<longleftrightarrow> s = []"
proof (cases "s = []")
  case False
  then have "take (snd (utf8_step s)) s \<noteq> []" using utf8_step_pos [of s] by simp
  with False show ?thesis by (subst from_utf8_lossy.simps) (auto simp: REPLACEMENT_def)
qed simp

text \<open>The first byte of a decoded text is ASCII only if it is the first byte of the original.\<close>

lemma lossy_hd_ascii:
  assumes "ascii_char c"
  shows "(\<exists>t. from_utf8_lossy s = c # t) \<longleftrightarrow> (\<exists>t. s = c # t)"
proof (cases s)
  case (Cons a u)
  show ?thesis
  proof (cases "ascii_char a")
    case True
    with Cons show ?thesis by (simp add: lossy_ascii)
  next
    case False
    obtain m where m: "snd (utf8_step s) = Suc m" using utf8_step_pos [of s] by (metis gr0_implies_Suc)
    have "\<exists>b t. from_utf8_lossy s = b # t \<and> \<not> ascii_char b"
      using Cons False m by (subst from_utf8_lossy.simps) (auto simp: REPLACEMENT_def ascii_char_def)
    with assms Cons False show ?thesis by auto
  qed
qed simp

section \<open>Decoded text is well formed\<close>

lemma byte_at_take_append: "i < n \<Longrightarrow> n \<le> length s \<Longrightarrow> byte_at (take n s @ t) i = byte_at s i"
  by (simp add: byte_at_def nth_append)

lemma utf8_step_take:
  assumes "s \<noteq> []" and "utf8_step s = (True, n)"
  shows "utf8_step (take n s @ t) = (True, n)"
proof -
  have n: "0 < n" "n \<le> length s" using utf8_step_pos [of s] utf8_step_le [OF assms(1)] assms(2) by simp_all
  have at0: "byte_at (take n s @ t) 0 = byte_at s 0" using byte_at_take_append n by blast
  have at1: "2 \<le> n \<Longrightarrow> byte_at (take n s @ t) 1 = byte_at s 1" using byte_at_take_append [of 1] n by simp
  have at2: "3 \<le> n \<Longrightarrow> byte_at (take n s @ t) 2 = byte_at s 2" using byte_at_take_append [of 2] n by simp
  have at3: "4 \<le> n \<Longrightarrow> byte_at (take n s @ t) 3 = byte_at s 3" using byte_at_take_append [of 3] n by simp
  have "n = 1 \<or> n = 2 \<or> n = 3 \<or> n = 4" using assms(2) unfolding utf8_step_def Let_def by (simp split: if_splits)
  then show ?thesis using assms(2) at0 at1 at2 at3 unfolding utf8_step_def Let_def
    by (elim disjE) (simp_all split: if_splits)
qed

lemma utf8_step_REPLACEMENT: "utf8_step (REPLACEMENT @ t) = (True, 3)"
  by (simp add: utf8_step_def byte_at_def REPLACEMENT_def second_of_3_def utf8_cont_def)

lemma utf8_valid_lossy: "utf8_valid (from_utf8_lossy s)"
proof (induction s rule: from_utf8_lossy.induct)
  case (1 s)
  show ?case
  proof (cases "s = []")
    case False
    obtain ok n where step: "utf8_step s = (ok, n)" by fastforce
    have le: "n \<le> length s" using utf8_step_le [OF False] step by simp
    let ?rest = "from_utf8_lossy (drop n s)"
    have IH: "utf8_valid ?rest" using "1.IH" [OF False] step by simp
    show ?thesis
    proof (cases ok)
      case True
      have "from_utf8_lossy s = take n s @ ?rest" using False step True by (subst from_utf8_lossy.simps) simp
      moreover have "utf8_step (take n s @ ?rest) = (True, n)" using utf8_step_take [OF False] step True by simp
      ultimately show ?thesis using IH le by (subst utf8_valid.simps) simp
    next
      case bad: False
      have "from_utf8_lossy s = REPLACEMENT @ ?rest" using False step bad by (subst from_utf8_lossy.simps) simp
      moreover have "length REPLACEMENT = 3" by (simp add: REPLACEMENT_def)
      ultimately show ?thesis using IH by (subst utf8_valid.simps) (simp add: utf8_step_REPLACEMENT)
    qed
  qed simp
qed

lemma lossy_idem [simp]: "from_utf8_lossy (from_utf8_lossy s) = from_utf8_lossy s"
  by (rule lossy_valid [OF utf8_valid_lossy])

end
