(* ===== verification/Sse_Codec.thy ===== *)
theory Sse_Codec
  imports Utf8_Text
begin

text \<open>
  The Server-Sent Events transport of the proxy crate (\<^verbatim>\<open>crates/agate-proxy/src/infrastructure/sse\<close>):
  the incremental decoder \<^verbatim>\<open>SseDecoder\<close> and the encoder of one event.  The decoder is compared with a
  reference reading of an event stream in which, as the format prescribes, a line ends with a
  line feed, a carriage return, or both.
\<close>

section \<open>The decoder\<close>

abbreviation LF :: char where "LF \<equiv> CHR 0x0A"
abbreviation CR :: char where "CR \<equiv> CHR 0x0D"

record sse_event =
  ev_data :: string
  ev_event :: "string option"
  ev_id :: "string option"
  ev_raw :: string

record sse_decoder =
  sd_buffer :: string
  sd_raw :: string
  sd_data :: string
  sd_event :: "string option"
  sd_id :: "string option"
  sd_has_data :: bool

definition sse_new :: sse_decoder where
  "sse_new = \<lparr>sd_buffer = [], sd_raw = [], sd_data = [], sd_event = None, sd_id = None, sd_has_data = False\<rparr>"

definition pending_len :: "sse_decoder \<Rightarrow> nat" where
  "pending_len d = length (sd_buffer d) + length (sd_raw d)"

text \<open>The name and the value of a field: the value loses one leading space.\<close>

definition split_field :: "string \<Rightarrow> string \<times> string" where
  "split_field line =
    (case str_find '':'' line of
       Some colon \<Rightarrow>
         (let value = drop (colon + 1) line in
          (take colon line, case value of CHR '' '' # rest \<Rightarrow> rest | _ \<Rightarrow> value))
     | None \<Rightarrow> (line, []))"

definition parse_field :: "string \<Rightarrow> sse_decoder \<Rightarrow> sse_decoder" where
  "parse_field content d =
    (case split_field (from_utf8_lossy content) of (field, value) \<Rightarrow>
       if field = ''data'' then d\<lparr>sd_data := sd_data d @ value @ [LF], sd_has_data := True\<rparr>
       else if field = ''event'' then d\<lparr>sd_event := Some value\<rparr>
       else if field = ''id'' then d\<lparr>sd_id := Some value\<rparr>
       else d)"

definition dispatch :: "sse_decoder \<Rightarrow> sse_event option \<times> sse_decoder" where
  "dispatch d =
    (let d' = d\<lparr>sd_raw := [], sd_data := [], sd_event := None, sd_id := None, sd_has_data := False\<rparr> in
     if \<not> sd_has_data d then (None, d')
     else
       (Some \<lparr>ev_data = (if sd_data d \<noteq> [] \<and> last (sd_data d) = LF then butlast (sd_data d) else sd_data d),
              ev_event = sd_event d, ev_id = sd_id d, ev_raw = from_utf8_lossy (sd_raw d)\<rparr>, d'))"

text \<open>One line, given with its line feed.\<close>

definition line_content :: "string \<Rightarrow> string" where
  "line_content line =
    (let content = butlast line in
     if content \<noteq> [] \<and> last content = CR then butlast content else content)"

definition process_line :: "string \<Rightarrow> sse_decoder \<Rightarrow> sse_event list \<times> sse_decoder" where
  "process_line line d =
    (let d = d\<lparr>sd_raw := sd_raw d @ line\<rparr>; content = line_content line in
     if content = [] then
       (case dispatch d of (Some e, d') \<Rightarrow> ([e], d') | (None, d') \<Rightarrow> ([], d'))
     else if List.hd content \<noteq> CHR '':'' then ([], parse_field content d)
     else ([], d))"

lemma process_line_buffer:
  "process_line line (d\<lparr>sd_buffer := b\<rparr>) =
    (fst (process_line line d), snd (process_line line d)\<lparr>sd_buffer := b\<rparr>)"
  by (simp add: process_line_def dispatch_def parse_field_def Let_def split: prod.splits)

lemma process_line_keeps: "process_line line d = (es, d') \<Longrightarrow> sd_buffer d' = sd_buffer d"
  by (auto simp: process_line_def dispatch_def parse_field_def Let_def split: prod.splits if_splits)

text \<open>The position after the first line feed.\<close>

fun line_end :: "string \<Rightarrow> nat option" where
  "line_end [] = None"
| "line_end (c # s) = (if c = LF then Some 1 else map_option Suc (line_end s))"

lemma line_end_SomeD: "line_end s = Some n \<Longrightarrow> 0 < n \<and> n \<le> length s"
  by (induction s arbitrary: n) (auto split: if_splits)

function push_loop :: "sse_decoder \<Rightarrow> sse_event list \<times> sse_decoder" where
  "push_loop d =
    (case line_end (sd_buffer d) of
       None \<Rightarrow> ([], d)
     | Some n \<Rightarrow>
         (case process_line (take n (sd_buffer d)) (d\<lparr>sd_buffer := drop n (sd_buffer d)\<rparr>) of
            (es, d') \<Rightarrow> (case push_loop d' of (es', d'') \<Rightarrow> (es @ es', d''))))"
  by pat_completeness auto
termination
proof (relation "measure (\<lambda>d. length (sd_buffer d))", goal_cases)
  case (2 d n es d')
  from process_line_keeps [of _ _ es d'] 2 line_end_SomeD [of "sd_buffer d" n] show ?case by fastforce
qed simp

declare push_loop.simps [simp del]

definition sse_push :: "string \<Rightarrow> sse_decoder \<Rightarrow> sse_event list \<times> sse_decoder" where
  "sse_push chunk d = push_loop (d\<lparr>sd_buffer := sd_buffer d @ chunk\<rparr>)"

definition sse_encode :: "string \<Rightarrow> string" where
  "sse_encode data = ''data: '' @ data @ [LF, LF]"

text \<open>The chunks of a body, one after the other.\<close>

fun push_all :: "string list \<Rightarrow> sse_decoder \<Rightarrow> sse_event list \<times> sse_decoder" where
  "push_all [] d = ([], d)"
| "push_all (c # cs) d =
    (case sse_push c d of (es, d') \<Rightarrow> (case push_all cs d' of (es', d'') \<Rightarrow> (es @ es', d'')))"

section \<open>Reference\<close>

text \<open>The lines of a text, each ended by a line feed, a carriage return or both; an unfinished last line is
  not one.\<close>

definition drop_lf :: "string \<Rightarrow> string" where
  "drop_lf s = (case s of c # t \<Rightarrow> if c = LF then t else s | [] \<Rightarrow> [])"

lemma drop_lf_le: "length (drop_lf s) \<le> length s"
  by (simp add: drop_lf_def split: list.splits)

function ref_lines :: "string \<Rightarrow> string \<Rightarrow> string list" where
  "ref_lines l [] = []"
| "ref_lines l (c # s) =
    (if c = LF then l # ref_lines [] s
     else if c = CR then l # ref_lines [] (drop_lf s)
     else ref_lines (l @ [c]) s)"
  by pat_completeness auto
termination
  by (relation "measure (\<lambda>(l, s). length s)") (simp_all add: less_Suc_eq_le drop_lf_le)

text \<open>The data buffer and the event-type buffer of a client, and what it dispatches (data and type).\<close>

type_synonym client = "string \<times> string"

definition ref_line :: "string \<Rightarrow> client \<Rightarrow> (string \<times> string) list \<times> client" where
  "ref_line line st =
    (case st of (data, ev) \<Rightarrow>
       if line = [] then (if data = [] then [] else [(butlast data, ev)], ([], []))
       else if List.hd line = CHR '':'' then ([], st)
       else case split_field line of (field, value) \<Rightarrow>
         if field = ''data'' then ([], (data @ value @ [LF], ev))
         else if field = ''event'' then ([], (data, value))
         else ([], st))"

fun ref_events :: "string list \<Rightarrow> client \<Rightarrow> (string \<times> string) list \<times> client" where
  "ref_events [] st = ([], st)"
| "ref_events (l # ls) st =
    (case ref_line l st of (es, st') \<Rightarrow> (case ref_events ls st' of (es', st'') \<Rightarrow> (es @ es', st'')))"

definition ref_read :: "string \<Rightarrow> (string \<times> string) list" where
  "ref_read bytes = fst (ref_events (ref_lines [] (from_utf8_lossy bytes)) ([], []))"

text \<open>The encoding of the byte order mark.  A client drops one at the start of the stream before it reads the lines.\<close>

definition BOM :: string where
  "BOM = [CHR 0xEF, CHR 0xBB, CHR 0xBF]"

definition strip_bom :: "string \<Rightarrow> string" where
  "strip_bom bytes = (if prefix BOM bytes then drop (length BOM) bytes else bytes)"

definition client_read :: "string \<Rightarrow> (string \<times> string) list" where
  "client_read bytes = ref_read (strip_bom bytes)"

text \<open>A carriage return that is not followed by a line feed.\<close>

fun bare_cr :: "string \<Rightarrow> bool" where
  "bare_cr [] = False"
| "bare_cr (c # s) = (c = CR \<and> (s = [] \<or> List.hd s \<noteq> LF) \<or> bare_cr s)"

definition seen :: "sse_event \<Rightarrow> string \<times> string" where
  "seen e = (ev_data e, case ev_event e of None \<Rightarrow> [] | Some v \<Rightarrow> v)"

section \<open>Chunks do not matter\<close>

lemma line_end_None: "line_end s = None \<longleftrightarrow> LF \<notin> set s"
  by (induction s) auto

lemma line_end_append: "LF \<notin> set l \<Longrightarrow> line_end (l @ LF # r) = Some (Suc (length l))"
  by (induction l) auto

lemma push_loop_rest: "LF \<notin> set (sd_buffer d) \<Longrightarrow> push_loop d = ([], d)"
  by (subst push_loop.simps) (simp add: line_end_None [THEN iffD2])

lemma push_loop_line:
  assumes "sd_buffer d = l @ LF # r" and "LF \<notin> set l"
  shows "push_loop d =
    (case process_line (l @ [LF]) (d\<lparr>sd_buffer := r\<rparr>) of
       (es, d') \<Rightarrow> (case push_loop d' of (es', d'') \<Rightarrow> (es @ es', d'')))"
  by (subst push_loop.simps) (simp add: assms line_end_append)

lemma push_loop_append:
  "push_loop (d\<lparr>sd_buffer := b @ c\<rparr>) =
    (case push_loop (d\<lparr>sd_buffer := b\<rparr>) of (es, d1) \<Rightarrow>
       (case push_loop (d1\<lparr>sd_buffer := sd_buffer d1 @ c\<rparr>) of (es', d2) \<Rightarrow> (es @ es', d2)))"
proof (induction b arbitrary: d rule: measure_induct_rule [of length])
  case (less b)
  show ?case
  proof (cases "LF \<in> set b")
    case False
    then show ?thesis by (simp add: push_loop_rest)
  next
    case True
    then obtain l r where b: "b = l @ LF # r" "LF \<notin> set l" using split_list_first by metis
    obtain es d' where pl: "process_line (l @ [LF]) d = (es, d')" by fastforce
    have step: "push_loop (d\<lparr>sd_buffer := l @ LF # x\<rparr>) =
        (case push_loop (d'\<lparr>sd_buffer := x\<rparr>) of (es', d'') \<Rightarrow> (es @ es', d''))" for x
      using push_loop_line [of "d\<lparr>sd_buffer := l @ LF # x\<rparr>" l x] b(2) process_line_buffer [of "l @ [LF]" _ d] pl
      by simp
    have "length r < length b" using b(1) by simp
    from less.IH [OF this, of d'] step [of "r @ c"] step [of r] show ?thesis
      by (simp add: b(1) split: prod.splits)
  qed
qed

lemma sse_push_append:
  "sse_push (c1 @ c2) d =
    (case sse_push c1 d of (es, d1) \<Rightarrow> (case sse_push c2 d1 of (es', d2) \<Rightarrow> (es @ es', d2)))"
  using push_loop_append [of "sd_buffer d @ c1" c2 d] by (simp add: sse_push_def)

lemma push_loop_buffer: "LF \<notin> set (sd_buffer (snd (push_loop d)))"
proof (induction d rule: measure_induct_rule [of "\<lambda>d. length (sd_buffer d)"])
  case (less d)
  show ?case
  proof (cases "LF \<in> set (sd_buffer d)")
    case False
    then show ?thesis by (simp add: push_loop_rest)
  next
    case True
    then obtain l r where b: "sd_buffer d = l @ LF # r" "LF \<notin> set l" using split_list_first by metis
    obtain es d' where pl: "process_line (l @ [LF]) (d\<lparr>sd_buffer := r\<rparr>) = (es, d')" by fastforce
    have "length (sd_buffer d') < length (sd_buffer d)" using process_line_keeps [OF pl] b(1) by simp
    from less.IH [OF this] push_loop_line [OF b] pl show ?thesis by (simp split: prod.splits)
  qed
qed

lemma push_all_concat:
  "LF \<notin> set (sd_buffer d) \<Longrightarrow> push_all cs d = sse_push (concat cs) d"
proof (induction cs arbitrary: d)
  case Nil
  then show ?case by (simp add: sse_push_def push_loop_rest)
next
  case (Cons c cs)
  obtain es d' where p: "sse_push c d = (es, d')" by fastforce
  have "LF \<notin> set (sd_buffer d')" using push_loop_buffer [of "d\<lparr>sd_buffer := sd_buffer d @ c\<rparr>"] p by (simp add: sse_push_def)
  from Cons.IH [OF this] p show ?case by (simp add: sse_push_append)
qed

section \<open>Lines\<close>

lemma ascii_ends [simp]: "ascii_char LF" "ascii_char CR"
  by (simp_all add: ascii_char_def)

lemma ref_lines_none: "LF \<notin> set u \<Longrightarrow> CR \<notin> set u \<Longrightarrow> ref_lines l u = []"
  by (induction u arbitrary: l) auto

lemma ref_lines_prefix: "LF \<notin> set u \<Longrightarrow> CR \<notin> set u \<Longrightarrow> ref_lines l (u @ s) = ref_lines (l @ u) s"
  by (induction u arbitrary: l) auto

lemma bare_cr_mid: "v = [] \<or> List.hd v \<noteq> LF \<Longrightarrow> bare_cr (u @ CR # v)"
  by (induction u) auto

lemma bare_cr_lf: "bare_cr (u @ LF # v) \<longleftrightarrow> bare_cr (u @ [LF]) \<or> bare_cr v"
  by (induction u) (auto simp: hd_append split: if_splits)

text \<open>Without bare carriage returns, one may only stand at the end of a line.\<close>

lemma line_content_lf: "line_content (l @ [LF]) = (if l \<noteq> [] \<and> last l = CR then butlast l else l)"
  by (simp add: line_content_def)

lemma line_cases:
  assumes "\<not> bare_cr (l @ [LF])" and "LF \<notin> set l"
  obtains (plain) "CR \<notin> set l" "line_content (l @ [LF]) = l"
  | (crlf) m where "l = m @ [CR]" "CR \<notin> set m" "line_content (l @ [LF]) = m"
proof (cases l rule: rev_cases)
  case Nil
  then show thesis using line_content_lf [of "[]"] by (intro plain) simp_all
next
  case (snoc m c)
  have inner: "CR \<notin> set m" using assms unfolding snoc
  proof (induction m)
    case (Cons a m)
    then show ?case by (cases m) auto
  qed simp
  show thesis
  proof (cases "c = CR")
    case True
    with snoc inner show thesis by (intro crlf) (simp_all add: line_content_lf del: append_assoc)
  next
    case False
    with snoc inner show thesis by (intro plain) (simp_all add: line_content_lf del: append_assoc)
  qed
qed

lemma ref_lines_lossy:
  assumes "\<not> bare_cr (l @ [LF])" and "LF \<notin> set l"
  shows "ref_lines [] (from_utf8_lossy (l @ LF # r)) =
    from_utf8_lossy (line_content (l @ [LF])) # ref_lines [] (from_utf8_lossy r)"
  using assms
proof (cases rule: line_cases)
  case plain
  then show ?thesis using assms(2)
    by (simp add: lossy_append_ascii ref_lines_prefix lossy_set_ascii)
next
  case (crlf m)
  then have "LF \<notin> set m" using assms(2) by simp
  then show ?thesis using crlf(2)
    by (simp add: crlf(1) lossy_append_ascii lossy_ascii ref_lines_prefix lossy_set_ascii drop_lf_def crlf(3) [unfolded crlf(1), simplified])
qed

lemma drop_lf_append: "s \<noteq> [] \<Longrightarrow> drop_lf (s @ t) = drop_lf s @ t"
  by (cases s) (simp_all add: drop_lf_def)

lemma ref_lines_append:
  "a \<noteq> [] \<Longrightarrow> last a = LF \<Longrightarrow> ref_lines l (a @ b) = ref_lines l a @ ref_lines [] b"
proof (induction l a rule: ref_lines.induct)
  case (2 l c s)
  show ?case
  proof (cases "s = []")
    case True
    with "2.prems" show ?thesis by simp
  next
    case False
    then have "last s = LF" using "2.prems" by simp
    moreover have "drop_lf s = [] \<or> drop_lf s \<noteq> [] \<and> last (drop_lf s) = LF"
      using False \<open>last s = LF\<close> by (cases s) (auto simp: drop_lf_def split: if_splits)
    ultimately show ?thesis using "2.IH" False by (auto simp: drop_lf_append)
  qed
qed simp

lemma ref_events_append:
  "ref_events (xs @ ys) st =
    (case ref_events xs st of (es, st1) \<Rightarrow> (case ref_events ys st1 of (es', st2) \<Rightarrow> (es @ es', st2)))"
  by (induction xs arbitrary: st) (simp_all split: prod.splits)

section \<open>Correctness\<close>

text \<open>The decoder's buffers are those of a client that has read the raw bytes of the event in progress.\<close>

definition raw_complete :: "string \<Rightarrow> bool" where
  "raw_complete r \<longleftrightarrow> (r \<noteq> [] \<longrightarrow> last r = LF)"

definition in_step :: "sse_decoder \<Rightarrow> client \<Rightarrow> bool" where
  "in_step d st \<longleftrightarrow>
    st = (sd_data d, case sd_event d of None \<Rightarrow> [] | Some v \<Rightarrow> v) \<and>
    (sd_has_data d \<longleftrightarrow> sd_data d \<noteq> []) \<and> (sd_data d \<noteq> [] \<longrightarrow> last (sd_data d) = LF) \<and>
    raw_complete (sd_raw d) \<and>
    ref_events (ref_lines [] (from_utf8_lossy (sd_raw d))) ([], []) = ([], st)"

lemma lossy_complete: "raw_complete r \<Longrightarrow> from_utf8_lossy (r @ s) = from_utf8_lossy r @ from_utf8_lossy s"
proof (cases r rule: rev_cases)
  case (snoc m c)
  assume "raw_complete r"
  then show ?thesis using lossy_append_ascii [of LF m s] lossy_append_ascii [of LF m "[]"] snoc
    by (simp add: raw_complete_def)
qed simp

lemma read_complete:
  assumes "raw_complete r"
  shows "ref_lines [] (from_utf8_lossy (r @ s)) = ref_lines [] (from_utf8_lossy r) @ ref_lines [] (from_utf8_lossy s)"
proof (cases r rule: rev_cases)
  case (snoc m c)
  then have "from_utf8_lossy r = from_utf8_lossy m @ [LF]"
    using assms lossy_append_ascii [of LF m "[]"] by (simp add: raw_complete_def)
  then show ?thesis unfolding lossy_complete [OF assms] by (intro ref_lines_append) simp_all
qed simp

lemma process_line_step:
  assumes "in_step d st" and "\<not> bare_cr (l @ [LF])" and "LF \<notin> set l"
    and "process_line (l @ [LF]) d = (es, d')"
    and "ref_line (from_utf8_lossy (line_content (l @ [LF]))) st = (os, st')"
  shows "map seen es = os \<and> in_step d' st' \<and> (\<forall>e \<in> set es. ref_read (ev_raw e) = [seen e])"
proof -
  let ?c = "line_content (l @ [LF])"
  have colon: "?c \<noteq> [] \<Longrightarrow> List.hd (from_utf8_lossy ?c) = CHR '':'' \<longleftrightarrow> List.hd ?c = CHR '':''"
    using lossy_hd_ascii [of "CHR '':''" ?c] by (cases ?c; cases "from_utf8_lossy ?c") (auto simp: ascii_char_def)
  have raw: "ref_lines [] (from_utf8_lossy (sd_raw d @ l @ [LF])) =
      ref_lines [] (from_utf8_lossy (sd_raw d)) @ [from_utf8_lossy ?c]"
    using read_complete [of "sd_raw d" "l @ [LF]"] assms(1) ref_lines_lossy [OF assms(2,3), of "[]"]
    by (simp add: in_step_def)
  have read: "ref_events (ref_lines [] (from_utf8_lossy (sd_raw d @ l @ [LF]))) ([], []) = (os, st')"
    using assms(1,5) unfolding raw by (simp add: ref_events_append in_step_def)
  show ?thesis
  proof (cases "?c = []")
    case True
    with assms read show ?thesis
      by (auto simp: process_line_def dispatch_def Let_def ref_line_def in_step_def seen_def ref_read_def
          raw_complete_def split: if_splits)
  next
    case False
    note c = colon [OF this]
    show ?thesis
    proof (cases "List.hd ?c = CHR '':''")
      case True
      with assms read c False show ?thesis
        by (auto simp: process_line_def Let_def ref_line_def in_step_def raw_complete_def)
    next
      case no: False
      obtain field val where f: "split_field (from_utf8_lossy ?c) = (field, val)" by fastforce
      have d': "es = []" "d' = parse_field ?c (d\<lparr>sd_raw := sd_raw d @ l @ [LF]\<rparr>)"
        using assms(4) False no by (simp_all add: process_line_def Let_def)
      have st': "os = []" "st' = (case st of (data, ev) \<Rightarrow>
          if field = ''data'' then (data @ val @ [LF], ev) else if field = ''event'' then (data, val) else st)"
        using assms(5) False no c f by (cases st; auto simp: ref_line_def split: if_splits)+
      have "in_step d' st'" using assms(1) read
        unfolding d'(2) st' parse_field_def f in_step_def raw_complete_def by simp
      with d'(1) st'(1) show ?thesis by simp
    qed
  qed
qed

lemma push_loop_step:
  assumes "in_step d st" and "\<not> bare_cr (sd_buffer d)" and "push_loop d = (es, d')"
  shows "map seen es = fst (ref_events (ref_lines [] (from_utf8_lossy (sd_buffer d))) st) \<and>
    (\<forall>e \<in> set es. ref_read (ev_raw e) = [seen e])"
  using assms
proof (induction d arbitrary: st es rule: measure_induct_rule [of "\<lambda>d. length (sd_buffer d)"])
  case (less d)
  show ?case
  proof (cases "LF \<in> set (sd_buffer d)")
    case False
    have "CR \<notin> set (sd_buffer d)"
    proof
      assume "CR \<in> set (sd_buffer d)"
      then obtain u v where "sd_buffer d = u @ CR # v" using split_list by metis
      with less.prems(2) False show False by (cases v) (use bare_cr_mid [of v u] in auto)
    qed
    with False less.prems(3) show ?thesis
      by (simp add: push_loop_rest ref_lines_none lossy_set_ascii)
  next
    case True
    then obtain l r where b: "sd_buffer d = l @ LF # r" "LF \<notin> set l" using split_list_first by metis
    obtain es1 d1 where p1: "process_line (l @ [LF]) (d\<lparr>sd_buffer := r\<rparr>) = (es1, d1)" by fastforce
    obtain es2 where p2: "push_loop d1 = (es2, d')" "es = es1 @ es2"
      using push_loop_line [OF b] p1 less.prems(3) by (auto split: prod.splits)
    obtain os st1 where o: "ref_line (from_utf8_lossy (line_content (l @ [LF]))) st = (os, st1)"
      by (metis surj_pair)
    have nb: "\<not> bare_cr (l @ [LF])" "\<not> bare_cr r" using less.prems(2) b(1) bare_cr_lf [of l r] by simp_all
    have "in_step (d\<lparr>sd_buffer := r\<rparr>) st" using less.prems(1) by (simp add: in_step_def)
    from process_line_step [OF this nb(1) b(2) p1 o]
    have one: "map seen es1 = os" "in_step d1 st1" "\<forall>e \<in> set es1. ref_read (ev_raw e) = [seen e]" by blast+
    have buf: "sd_buffer d1 = r" using process_line_keeps [OF p1] by simp
    have "length (sd_buffer d1) < length (sd_buffer d)" using buf b(1) by simp
    from less.IH [OF this one(2) _ p2(1)] buf nb(2)
    have two: "map seen es2 = fst (ref_events (ref_lines [] (from_utf8_lossy r)) st1)"
      "\<forall>e \<in> set es2. ref_read (ev_raw e) = [seen e]" by simp_all
    show ?thesis
      using one(1,3) two p2(2) o ref_lines_lossy [OF nb(1) b(2), of r] b(1) by (auto split: prod.splits)
  qed
qed

lemma in_step_new: "in_step sse_new ([], [])"
  by (simp add: in_step_def sse_new_def raw_complete_def)

section \<open>Properties\<close>

text \<open>C12: However the body is cut into chunks, the decoder reports exactly the events a client reads
  from the bytes by the rules of the format, and each event's raw frame, read on its own by a client,
  is that one event with exactly the data that was reported; provided every carriage return of the
  body is followed by a line feed and neither the body nor that raw frame starts with a byte order mark, which a client
  drops and the decoder does not.\<close>

theorem decoder_agrees_with_client:
  assumes "\<not> bare_cr (concat chunks)" and "\<not> prefix BOM (concat chunks)"
  shows "map seen (fst (push_all chunks sse_new)) = client_read (concat chunks) \<and>
    (\<forall>e \<in> set (fst (push_all chunks sse_new)). \<not> prefix BOM (ev_raw e) \<longrightarrow> client_read (ev_raw e) = [seen e])"
proof -
  let ?d = "sse_new\<lparr>sd_buffer := concat chunks\<rparr>"
  have "push_all chunks sse_new = push_loop ?d"
    by (simp add: push_all_concat sse_push_def sse_new_def)
  moreover have "in_step ?d ([], [])" using in_step_new by (simp add: in_step_def)
  ultimately have "map seen (fst (push_all chunks sse_new)) = ref_read (concat chunks) \<and>
      (\<forall>e \<in> set (fst (push_all chunks sse_new)). ref_read (ev_raw e) = [seen e])"
    using push_loop_step [of ?d "([], [])"] assms(1) by (cases "push_loop ?d") (simp add: ref_read_def)
  with assms(2) show ?thesis by (simp add: client_read_def strip_bom_def)
qed

theorem decoder_agrees_with_client_witness:
  "map seen (fst (push_all [''data: a'', [CR], LF # ''data:b'' @ [LF, LF]] sse_new)) = [(''a'' @ LF # ''b'', [])]"
proof -
  let ?c = "[''data: a'', [CR], LF # ''data:b'' @ [LF, LF]]"
  have "\<not> bare_cr (concat ?c)" by code_simp
  moreover have "\<not> prefix BOM (concat ?c)" by code_simp
  moreover have "client_read (concat ?c) = [(''a'' @ LF # ''b'', [])]" by code_simp
  ultimately show ?thesis using decoder_agrees_with_client [of ?c] by simp
qed

end
