(* ===== verification/Stream_Proxy.thy ===== *)
theory Stream_Proxy
  imports Agui_Mapper Sse_Codec
begin

text \<open>
  The response leg of the proxy (\<^verbatim>\<open>crates/agate-proxy/src/presentation/stream.rs\<close>): the bytes an
  agent streams are decoded, inspected event by event, and the frames for the client are
  emitted.  The state of one stream is a record; \<^verbatim>\<open>inspect_stream\<close> runs it over the chunks the
  upstream yields (each a chunk or an error, the stream ending with the list).  Metrics are
  a log of what was counted.  Counters are natural numbers: they count events and bytes that were in memory.
\<close>

section \<open>Settings and outcomes\<close>

record response_budget =
  rb_max_events :: nat
  rb_max_bytes :: nat

definition response_budget_unlimited :: response_budget where
  "response_budget_unlimited = \<lparr>rb_max_events = 0, rb_max_bytes = 0\<rparr>"

definition exceeded :: "response_budget \<Rightarrow> nat \<Rightarrow> nat \<Rightarrow> string option" where
  "exceeded b n_events n_bytes =
    (if rb_max_events b \<noteq> 0 \<and> n_events > rb_max_events b then Some ''response event budget exceeded''
     else if rb_max_bytes b \<noteq> 0 \<and> n_bytes > rb_max_bytes b then Some ''response byte budget exceeded''
     else None)"

datatype malformed_event_mode = MM_Forward | MM_Drop | MM_Terminate

record inspection_settings =
  is_budgets :: budgets
  is_malformed_mode :: malformed_event_mode
  is_response_budget :: response_budget
  is_max_frame_bytes :: nat

definition inspection_settings_default :: inspection_settings where
  "inspection_settings_default =
    \<lparr>is_budgets = budgets_default, is_malformed_mode = MM_Terminate,
     is_response_budget = response_budget_unlimited, is_max_frame_bytes = 0\<rparr>"

datatype upstream_error =
    UE_Connect string
  | UE_Timeout
  | UE_Status nat
  | UE_Stream string

fun upstream_error_label :: "upstream_error \<Rightarrow> string" where
  "upstream_error_label (UE_Connect _) = ''connect''"
| "upstream_error_label UE_Timeout = ''timeout''"
| "upstream_error_label (UE_Status _) = ''status''"
| "upstream_error_label (UE_Stream _) = ''stream''"

fun show_upstream_error :: "upstream_error \<Rightarrow> string" where
  "show_upstream_error (UE_Connect m) = ''could not connect to the upstream agent: '' @ m"
| "show_upstream_error UE_Timeout = ''the upstream agent timed out''"
| "show_upstream_error (UE_Status code) = ''the upstream agent answered HTTP '' @ show_nat code"
| "show_upstream_error (UE_Stream m) = ''the upstream response stream failed: '' @ m"

datatype inspection_outcome = IO_Forward | IO_Buffer | IO_Transform | IO_Deny | IO_Terminate

fun outcome_label :: "inspection_outcome \<Rightarrow> string" where
  "outcome_label IO_Forward = ''forward''"
| "outcome_label IO_Buffer = ''buffer''"
| "outcome_label IO_Transform = ''transform''"
| "outcome_label IO_Deny = ''deny''"
| "outcome_label IO_Terminate = ''terminate''"

text \<open>The calls of the metrics port.\<close>

datatype metric = RecordRun | RecordUpstreamError upstream_error | RecordInspected inspection_outcome

section \<open>One event\<close>

datatype decoded =
    D_Inspect fragment
  | D_PassThrough
  | D_MalformedDrop ag_ui_error
  | D_MalformedTerminate ag_ui_error

definition decode :: "serde \<Rightarrow> malformed_event_mode \<Rightarrow> string \<Rightarrow> decoded" where
  "decode sj mode data =
    (case sj_parse sj data of
       Inl _ \<Rightarrow> D_PassThrough
     | Inr v \<Rightarrow>
         (case to_fragment sj v of
            Inr (Some f) \<Rightarrow> D_Inspect f
          | Inl e \<Rightarrow>
              if is_malformed_known e then
                (case mode of
                   MM_Forward \<Rightarrow> D_PassThrough
                 | MM_Drop \<Rightarrow> D_MalformedDrop e
                 | MM_Terminate \<Rightarrow> D_MalformedTerminate e)
              else D_PassThrough
          | Inr None \<Rightarrow> D_PassThrough))"

fun is_run_end :: "fragment \<Rightarrow> bool" where
  "is_run_end (F_Lifecycle RunFinished) = True"
| "is_run_end (F_Lifecycle RunError) = True"
| "is_run_end _ = False"

definition run_error :: "serde \<Rightarrow> string \<Rightarrow> string" where
  "run_error sj message =
    sse_encode (sj_print sj (JObject [(''type'', JString ''RUN_ERROR''), (''message'', JString message)]))"

type_synonym holds = "(tool_call_id \<times> string list) list"

text \<open>\<^verbatim>\<open>holds.entry(id).or_default().push(raw)\<close> and \<^verbatim>\<open>holds.remove(&id).unwrap_or_default()\<close>.\<close>

definition hold_push :: "tool_call_id \<Rightarrow> string \<Rightarrow> holds \<Rightarrow> holds" where
  "hold_push i raw h =
    (case map_of h i of
       None \<Rightarrow> h @ [(i, [raw])]
     | Some _ \<Rightarrow> hm_update i (\<lambda>fs. fs @ [raw]) h)"

definition held :: "tool_call_id \<Rightarrow> holds \<Rightarrow> string list" where
  "held i h = (case map_of h i of None \<Rightarrow> [] | Some fs \<Rightarrow> fs)"

record emit =
  em_frames :: "string list"
  em_terminate :: bool

text \<open>The frames to relay for one action, the holds after it, and the outcome that is counted.\<close>

definition apply_action ::
    "serde \<Rightarrow> inspection_action \<Rightarrow> string \<Rightarrow> holds \<Rightarrow> emit \<times> holds \<times> inspection_outcome" where
  "apply_action sj action raw h =
    (case action of
       Forward \<Rightarrow> (\<lparr>em_frames = [raw], em_terminate = False\<rparr>, h, IO_Forward)
     | Hold i \<Rightarrow> (\<lparr>em_frames = [], em_terminate = False\<rparr>, hold_push i raw h, IO_Buffer)
     | FlushCall i \<Rightarrow> (\<lparr>em_frames = held i h @ [raw], em_terminate = False\<rparr>, hm_remove i h, IO_Forward)
     | DropCall i _ \<Rightarrow> (\<lparr>em_frames = [], em_terminate = False\<rparr>, hm_remove i h, IO_Deny)
     | ForwardTransformed e \<Rightarrow>
         (\<lparr>em_frames = [case to_event e of Some v \<Rightarrow> sse_encode (sj_print sj v) | None \<Rightarrow> raw], em_terminate = False\<rparr>,
          h, IO_Transform)
     | Drop _ \<Rightarrow> (\<lparr>em_frames = [], em_terminate = False\<rparr>, h, IO_Deny)
     | Terminate reason \<Rightarrow> (\<lparr>em_frames = [run_error sj reason], em_terminate = True\<rparr>, [], IO_Terminate))"

text \<open>The state of a stream: the ports' state included.\<close>

record 's stream_state =
  ss_run :: run
  ss_holds :: holds
  ss_events :: nat
  ss_bytes :: nat
  ss_ports :: 's
  ss_metrics :: "metric list"

text \<open>Judging the calls that were left open, in the order the hash map yields them.\<close>

fun sweep_calls ::
    "'s ports \<Rightarrow> inspection_context \<Rightarrow> (tool_call_id \<times> agent_event) list \<Rightarrow> 's stream_state \<Rightarrow>
      string list \<times> string option \<times> 's stream_state" where
  "sweep_calls p c [] st = ([], None, st)"
| "sweep_calls p c ((i, call) # calls) st =
    (case authorize_call p c i call (ss_ports st) of (action, s') \<Rightarrow>
       let st' = st\<lparr>ss_ports := s'\<rparr> in
       case action of
         FlushCall j \<Rightarrow>
           (case sweep_calls p c calls
               (st'\<lparr>ss_holds := hm_remove j (ss_holds st), ss_metrics := ss_metrics st @ [RecordInspected IO_Forward]\<rparr>) of
              (frames, t, st'') \<Rightarrow> (held j (ss_holds st) @ frames, t, st''))
       | DropCall j _ \<Rightarrow>
           sweep_calls p c calls
             (st'\<lparr>ss_holds := hm_remove j (ss_holds st), ss_metrics := ss_metrics st @ [RecordInspected IO_Deny]\<rparr>)
       | Terminate reason \<Rightarrow>
           ([], Some reason, st'\<lparr>ss_metrics := ss_metrics st @ [RecordInspected IO_Terminate]\<rparr>)
       | _ \<Rightarrow> sweep_calls p c calls st')"

type_synonym drain_order = "(tool_call_id \<times> tool_call_buffer) list \<Rightarrow> (tool_call_id \<times> tool_call_buffer) list"

definition sweep_open_calls ::
    "drain_order \<Rightarrow> 's ports \<Rightarrow> inspection_context \<Rightarrow> 's stream_state \<Rightarrow> string list \<times> string option \<times> 's stream_state" where
  "sweep_open_calls order p c st =
    (case drain_open order (ss_run st) of (calls, r') \<Rightarrow> sweep_calls p c calls (st\<lparr>ss_run := r'\<rparr>))"

definition count :: "metric \<Rightarrow> 's stream_state \<Rightarrow> 's stream_state" where
  "count m st = st\<lparr>ss_metrics := ss_metrics st @ [m]\<rparr>"

text \<open>The inspection of one fragment: the frames, whether the stream ends, the state.\<close>

definition inspect_fragment ::
    "serde \<Rightarrow> 's ports \<Rightarrow> inspection_context \<Rightarrow> fragment \<Rightarrow> string \<Rightarrow> 's stream_state \<Rightarrow>
      string list \<times> bool \<times> 's stream_state" where
  "inspect_fragment sj p c f raw st =
    (case inspect p c f (ss_run st) (ss_ports st) of (action, r', s') \<Rightarrow>
       (case apply_action sj action raw (ss_holds st) of (em, h', outcome) \<Rightarrow>
          (em_frames em, em_terminate em,
           count (RecordInspected outcome) (st\<lparr>ss_run := r', ss_ports := s', ss_holds := h'\<rparr>))))"

definition step_event ::
    "serde \<Rightarrow> drain_order \<Rightarrow> 's ports \<Rightarrow> inspection_context \<Rightarrow> inspection_settings \<Rightarrow> sse_event \<Rightarrow> 's stream_state \<Rightarrow>
      string list \<times> bool \<times> 's stream_state" where
  "step_event sj order p c se e st0 =
    (let st = st0\<lparr>ss_events := ss_events st0 + 1, ss_bytes := ss_bytes st0 + length (ev_raw e)\<rparr> in
     case exceeded (is_response_budget se) (ss_events st) (ss_bytes st) of
       Some reason \<Rightarrow> ([run_error sj reason], True, count (RecordInspected IO_Terminate) (st\<lparr>ss_holds := []\<rparr>))
     | None \<Rightarrow>
         (case decode sj (is_malformed_mode se) (ev_data e) of
            D_PassThrough \<Rightarrow> ([ev_raw e], False, st)
          | D_MalformedDrop _ \<Rightarrow> ([], False, count (RecordInspected IO_Deny) st)
          | D_MalformedTerminate _ \<Rightarrow>
              ([run_error sj ''malformed protocol event''], True,
               count (RecordInspected IO_Terminate) (st\<lparr>ss_holds := []\<rparr>))
          | D_Inspect f \<Rightarrow>
              if is_run_end f then
                (case sweep_open_calls order p c st of
                   (frames, Some reason, st') \<Rightarrow> (frames @ [run_error sj reason], True, st')
                 | (frames, None, st') \<Rightarrow>
                     (case inspect_fragment sj p c f (ev_raw e) st' of
                        (frames', t, st'') \<Rightarrow> (frames @ frames', t, st'')))
              else inspect_fragment sj p c f (ev_raw e) st))"

section \<open>The stream\<close>

fun step_events ::
    "serde \<Rightarrow> drain_order \<Rightarrow> 's ports \<Rightarrow> inspection_context \<Rightarrow> inspection_settings \<Rightarrow> sse_event list \<Rightarrow> 's stream_state \<Rightarrow>
      string list \<times> bool \<times> 's stream_state" where
  "step_events sj order p c se [] st = ([], False, st)"
| "step_events sj order p c se (e # es) st =
    (case step_event sj order p c se e st of
       (frames, True, st') \<Rightarrow> (frames, True, st')
     | (frames, False, st') \<Rightarrow>
         (case step_events sj order p c se es st' of (frames', t, st'') \<Rightarrow> (frames @ frames', t, st'')))"

fun step_chunks ::
    "serde \<Rightarrow> drain_order \<Rightarrow> 's ports \<Rightarrow> inspection_context \<Rightarrow> inspection_settings \<Rightarrow>
      (upstream_error, string) result list \<Rightarrow> sse_decoder \<Rightarrow> 's stream_state \<Rightarrow> string list \<times> 's stream_state" where
  "step_chunks sj order p c se [] d st =
    (case sweep_open_calls order p c st of
       (frames, t, st') \<Rightarrow> (frames @ (case t of None \<Rightarrow> [] | Some reason \<Rightarrow> [run_error sj reason]), st'))"
| "step_chunks sj order p c se (Inl err # chunks) d st =
    ([run_error sj (show_upstream_error err)], count (RecordUpstreamError err) st)"
| "step_chunks sj order p c se (Inr chunk # chunks) d st =
    (case sse_push chunk d of (es, d') \<Rightarrow>
       if is_max_frame_bytes se \<noteq> 0 \<and> pending_len d' > is_max_frame_bytes se then
         ([run_error sj ''response frame exceeded the size limit''],
          count (RecordInspected IO_Terminate) (st\<lparr>ss_holds := []\<rparr>))
       else
         (case step_events sj order p c se es st of
            (frames, True, st') \<Rightarrow> (frames, st')
          | (frames, False, st') \<Rightarrow>
              (case step_chunks sj order p c se chunks d' st' of (frames', st'') \<Rightarrow> (frames @ frames', st''))))"

definition stream_start :: "inspection_context \<Rightarrow> inspection_settings \<Rightarrow> 's \<Rightarrow> 's stream_state" where
  "stream_start c se s =
    \<lparr>ss_run = run_new (ic_run c) (is_budgets se), ss_holds = [], ss_events = 0, ss_bytes = 0,
     ss_ports = s, ss_metrics = []\<rparr>"

definition inspect_stream ::
    "serde \<Rightarrow> drain_order \<Rightarrow> 's ports \<Rightarrow> inspection_context \<Rightarrow> inspection_settings \<Rightarrow>
      (upstream_error, string) result list \<Rightarrow> 's \<Rightarrow> string list \<times> 's stream_state" where
  "inspect_stream sj order p c se upstream s = step_chunks sj order p c se upstream sse_new (stream_start c se s)"

section \<open>The calls in progress\<close>

text \<open>What a list of inspected fragments, each with its frame, says about a tool call that is not over: its
  name, its arguments so far, and its frames.\<close>

type_synonym progress = "(string \<times> string \<times> string list) option"

fun progress_step :: "tool_call_id \<Rightarrow> fragment \<times> string \<Rightarrow> progress \<Rightarrow> progress" where
  "progress_step k (F_ToolCallStarted i n, raw) x = (if i = k then Some (n, [], [raw]) else x)"
| "progress_step k (F_ToolCallArgs i d, raw) x =
    (if i = k then map_option (\<lambda>(n, a, fs). (n, a @ d, fs @ [raw])) x else x)"
| "progress_step k (F_ToolCallEnded i, raw) x = (if i = k then None else x)"
| "progress_step k (f, raw) x = (if is_run_end f then None else x)"

definition assembled :: "tool_call_id \<Rightarrow> (fragment \<times> string) list \<Rightarrow> progress" where
  "assembled k h = fold (progress_step k) h None"

definition buffer_of :: "string \<times> string \<times> string list \<Rightarrow> tool_call_buffer" where
  "buffer_of x = (case x of (n, a, fs) \<Rightarrow> \<lparr>tb_name = n, tb_arguments = a\<rparr>)"

definition in_progress :: "(tool_call_id \<Rightarrow> progress) \<Rightarrow> 's stream_state \<Rightarrow> bool" where
  "in_progress A st \<longleftrightarrow>
    (\<forall>k. map_of (run_open (ss_run st)) k = map_option buffer_of (A k) \<and>
         map_of (ss_holds st) k = map_option (snd \<circ> snd) (A k) \<and>
         (A k \<noteq> None \<longrightarrow> run_phase (ss_run st) = Running))"

lemma assembled_snoc: "assembled k (h @ [x]) = progress_step k x (assembled k h)"
  by (simp add: assembled_def)

lemma run_inspect_accepts:
  assumes "run_inspect f r = (out, r')" and "\<not> is_reject out"
  shows "(case f of
      F_ToolCallStarted i n \<Rightarrow> out = Buffering i \<and> map_of (run_open r) i = None \<and>
        map_of (run_open r') = (map_of (run_open r))(i \<mapsto> \<lparr>tb_name = n, tb_arguments = []\<rparr>)
    | F_ToolCallArgs i d \<Rightarrow> out = Buffering i \<and> map_of (run_open r) i \<noteq> None \<and>
        map_of (run_open r') = (map_of (run_open r))(i := map_option (\<lambda>b. b\<lparr>tb_arguments := tb_arguments b @ d\<rparr>) (map_of (run_open r) i))
    | F_ToolCallEnded i \<Rightarrow>
        (\<exists>b. map_of (run_open r) i = Some b \<and> out = ResolvedCall i (E_ToolCall i (tb_name b) (tb_arguments b))) \<and>
        map_of (run_open r') = (map_of (run_open r))(i := None)
    | _ \<Rightarrow> run_open r' = run_open r \<and> (\<exists>e. out = Ready e))"
proof (cases f)
  case (F_ToolCallStarted i n)
  with assms show ?thesis
    by (auto simp: run_inspect_def inspect_content_def tool_call_started_def map_add_def fun_eq_iff split: if_splits option.splits)
next
  case (F_ToolCallArgs i d)
  with assms show ?thesis
    by (auto simp: run_inspect_def inspect_content_def tool_call_args_def fun_eq_iff split: if_splits option.splits)
next
  case (F_ToolCallEnded i)
  with assms show ?thesis
    by (auto simp: run_inspect_def inspect_content_def tool_call_ended_def fun_eq_iff split: if_splits option.splits)
next
  case (F_Lifecycle p)
  with assms show ?thesis
    by (auto simp: run_inspect_def inspect_lifecycle_def split: if_splits lifecycle_phase.splits)
qed (use assms in \<open>auto simp: run_inspect_def inspect_content_def split: if_splits option.splits\<close>)

lemma hold_push_lookup: "map_of (hold_push i raw h) k = (if k = i then Some (held i h @ [raw]) else map_of h k)"
  by (auto simp: hold_push_def held_def map_add_def split: option.splits)

lemma authorize_call_cases:
  "authorize_call p c i e s = (a, s') \<Longrightarrow>
    (a = FlushCall i \<and> \<not> stops (fst (judge p c e s))) \<or>
    (\<exists>r. a = DropCall i r \<and> fst (judge p c e s) = V_Deny r) \<or>
    (\<exists>r. a = Terminate r \<and> fst (judge p c e s) = V_Terminate r)"
  by (auto simp: authorize_call_def split: prod.splits verdict.splits)

lemma inspect_cases:
  assumes "inspect p c f r s = (a, r', s')"
  obtains (reject) reason where "run_inspect f r = (Reject reason, r')" "a = Terminate reason" "s' = s"
  | (buffer) i where "run_inspect f r = (Buffering i, r')" "a = Hold i" "s' = s"
  | (resolved) i e where "run_inspect f r = (ResolvedCall i e, r')" "authorize_call p c i e s = (a, s')"
  | (ready) e where "run_inspect f r = (Ready e, r')" "snd (judge p c e s) = s'"
      "a = (case fst (judge p c e s) of V_Allow \<Rightarrow> Forward | V_Buffer \<Rightarrow> Forward
        | V_Transform replacement \<Rightarrow> ForwardTransformed replacement | V_Deny reason \<Rightarrow> Drop reason
        | V_Terminate reason \<Rightarrow> Terminate reason)"
proof -
  obtain out r1 where ri: "run_inspect f r = (out, r1)" by fastforce
  show thesis
  proof (cases out)
    case (Ready e)
    then show thesis using ri assms by (intro ready [of e]) (auto simp: inspect_def split: prod.splits)
  next
    case (ResolvedCall i e)
    then show thesis using ri assms by (intro resolved [of i e]) (auto simp: inspect_def split: prod.splits)
  next
    case (Buffering i)
    then show thesis using ri assms by (intro buffer [of i]) (auto simp: inspect_def)
  next
    case (Reject reason)
    then show thesis using ri assms by (intro reject [of reason]) (auto simp: inspect_def)
  qed
qed

lemma phase_kept:
  assumes "run_inspect f r = (out, r')" and "\<not> is_reject out" and "\<not> is_run_end f" and "run_phase r = Running"
  shows "run_phase r' = Running"
  using run_inspect_phase [OF assms(1)] assms(2-4) by (auto simp: run_boundary_def)

lemma content_running: "run_inspect f r = (out, r') \<Longrightarrow> \<not> is_reject out \<Longrightarrow> (\<forall>p. f \<noteq> F_Lifecycle p) \<Longrightarrow> run_phase r = Running"
  by (auto simp: run_inspect_def split: fragment.splits if_splits)

lemma in_progress_lookup:
  assumes "in_progress A st"
  shows "map_of (run_open (ss_run st)) k = map_option buffer_of (A k)"
    and "map_of (ss_holds st) k = map_option (snd \<circ> snd) (A k)"
    and "A k \<noteq> None \<Longrightarrow> run_phase (ss_run st) = Running"
  using assms by (simp_all add: in_progress_def)

lemma in_progress_held:
  assumes "in_progress A st"
  shows "held k (ss_holds st) = (case A k of None \<Rightarrow> [] | Some (n, a, fs) \<Rightarrow> fs)"
  using assms by (auto simp: held_def in_progress_lookup(2) split: option.splits)

text \<open>The fragment that an accepted outcome stands for.\<close>

lemma accepted_fragment:
  assumes "run_inspect f r = (out, r')"
  shows "out = Buffering i \<Longrightarrow> (\<exists>n. f = F_ToolCallStarted i n) \<or> (\<exists>d. f = F_ToolCallArgs i d)"
    and "out = ResolvedCall i e \<Longrightarrow> f = F_ToolCallEnded i"
    and "out = Ready e \<Longrightarrow> (\<forall>i n. f \<noteq> F_ToolCallStarted i n) \<and> (\<forall>i d. f \<noteq> F_ToolCallArgs i d) \<and> (\<forall>i. f \<noteq> F_ToolCallEnded i)"
  using run_inspect_accepts [OF assms] by (auto split: fragment.splits)

lemma progress_step_other:
  "(\<forall>i n. f \<noteq> F_ToolCallStarted i n) \<Longrightarrow> (\<forall>i d. f \<noteq> F_ToolCallArgs i d) \<Longrightarrow> (\<forall>i. f \<noteq> F_ToolCallEnded i) \<Longrightarrow>
    progress_step k (f, raw) x = (if is_run_end f then None else x)"
  by (cases f) simp_all

lemma inspect_fragment_progress:
  assumes inv: "in_progress A st" and step: "inspect_fragment sj p c f raw st = (frames, False, st')"
    and over: "is_run_end f \<Longrightarrow> \<forall>k. A k = None"
  shows "in_progress (\<lambda>k. progress_step k (f, raw) (A k)) st'"
proof -
  obtain a r' s' where i: "inspect p c f (ss_run st) (ss_ports st) = (a, r', s')" by (metis prod_cases3)
  obtain em h' oc where aa: "apply_action sj a raw (ss_holds st) = (em, h', oc)" by (metis prod_cases3)
  have st': "ss_run st' = r'" "ss_holds st' = h'" "em_terminate em = False"
    using step i aa by (auto simp: inspect_fragment_def count_def)
  note look = in_progress_lookup [OF inv] and held = in_progress_held [OF inv]
  from i show ?thesis
  proof (cases rule: inspect_cases)
    case (reject reason)
    with aa st' show ?thesis by (auto simp: apply_action_def)
  next
    case (buffer i)
    then have h': "h' = hold_push i raw (ss_holds st)" using aa by (simp add: apply_action_def)
    note acc = run_inspect_accepts [OF buffer(1)]
    have running: "run_phase r' = Running"
      using content_running [OF buffer(1)] phase_kept [OF buffer(1)] accepted_fragment(1) [OF buffer(1) refl] by auto
    from accepted_fragment(1) [OF buffer(1) refl] show ?thesis
    proof (elim disjE exE)
      fix n assume f: "f = F_ToolCallStarted i n"
      then have "A i = None" using acc look(1) [of i] by simp
      then show ?thesis using acc f running unfolding in_progress_def st' h'
        by (auto simp: hold_push_lookup held look(1,2) buffer_of_def)
    next
      fix d assume f: "f = F_ToolCallArgs i d"
      then obtain n a' fs where "A i = Some (n, a', fs)" using acc look(1) [of i] by (cases "A i") auto
      then show ?thesis using acc f running unfolding in_progress_def st' h'
        by (auto simp: hold_push_lookup held look(1,2) buffer_of_def)
    qed
  next
    case (resolved i e)
    note f = accepted_fragment(2) [OF resolved(1) refl]
    have h': "h' = hm_remove i (ss_holds st)"
      using authorize_call_cases [OF resolved(2)] aa st'(3) by (auto simp: apply_action_def)
    have running: "run_phase r' = Running"
      using content_running [OF resolved(1)] phase_kept [OF resolved(1)] f by auto
    show ?thesis using run_inspect_accepts [OF resolved(1)] running unfolding in_progress_def st' h' f
      by (auto simp: look(1,2))
  next
    case (ready e)
    note f = accepted_fragment(3) [OF ready(1) refl]
    have h': "h' = ss_holds st" using aa ready(3) st'(3) by (auto simp: apply_action_def split: verdict.splits)
    have opn: "run_open r' = run_open (ss_run st)"
      using run_inspect_accepts [OF ready(1)] f by (cases f) auto
    show ?thesis
    proof (cases "is_run_end f")
      case True
      then show ?thesis using over f unfolding in_progress_def st' h' opn
        by (simp add: progress_step_other look(1,2))
    next
      case False
      then show ?thesis using f phase_kept [OF ready(1) _ False] look(3) unfolding in_progress_def st' h' opn
        by (simp add: progress_step_other look(1,2))
    qed
  qed
qed

text \<open>The frames emitted for a fragment of a tool call.\<close>

definition ends_with_error :: "serde \<Rightarrow> string list \<Rightarrow> bool \<Rightarrow> bool" where
  "ends_with_error sj frames t \<longleftrightarrow> t \<and> (\<exists>reason. frames = [run_error sj reason])"

definition call_frames :: "serde \<Rightarrow> agent_event verdict \<Rightarrow> string list \<Rightarrow> string list \<times> bool" where
  "call_frames sj v fs =
    (case v of
       V_Deny _ \<Rightarrow> ([], False)
     | V_Terminate reason \<Rightarrow> ([run_error sj reason], True)
     | _ \<Rightarrow> (fs, False))"

lemma apply_action_authorized:
  assumes "authorize_call p c i e s = (a, s')"
  shows "apply_action sj a raw h =
    (let v = fst (judge p c e s); (frames, t) = call_frames sj v (held i h @ [raw]) in
     (\<lparr>em_frames = frames, em_terminate = t\<rparr>, if t then [] else hm_remove i h,
      case v of V_Deny _ \<Rightarrow> IO_Deny | V_Terminate _ \<Rightarrow> IO_Terminate | _ \<Rightarrow> IO_Forward))"
  using assms by (cases "judge p c e s") (auto simp: authorize_call_def apply_action_def call_frames_def Let_def split: verdict.splits)

lemma inspect_fragment_call_frames:
  assumes inv: "in_progress A st" and step: "inspect_fragment sj p c f raw st = (frames, t, st')"
  shows "f = F_ToolCallStarted k n \<Longrightarrow> frames = [] \<and> \<not> t \<or> ends_with_error sj frames t"
    and "f = F_ToolCallArgs k d \<Longrightarrow> frames = [] \<and> \<not> t \<or> ends_with_error sj frames t"
    and "f = F_ToolCallEnded k \<Longrightarrow> A k = None \<Longrightarrow> ends_with_error sj frames t"
    and "f = F_ToolCallEnded k \<Longrightarrow> A k = Some (n, args, fs) \<Longrightarrow>
      (frames, t) = call_frames sj (fst (judge p c (E_ToolCall k n args) (ss_ports st))) (fs @ [raw])"
proof -
  obtain a r' s' where i: "inspect p c f (ss_run st) (ss_ports st) = (a, r', s')" by (metis prod_cases3)
  obtain em h' oc where aa: "apply_action sj a raw (ss_holds st) = (em, h', oc)" by (metis prod_cases3)
  have em: "frames = em_frames em" "t = em_terminate em" using step i aa by (auto simp: inspect_fragment_def)
  note look = in_progress_lookup [OF inv] and held = in_progress_held [OF inv]
  have buffered: "frames = [] \<and> \<not> t \<or> ends_with_error sj frames t"
    if "(\<exists>n. f = F_ToolCallStarted k n) \<or> (\<exists>d. f = F_ToolCallArgs k d)"
    using i
  proof (cases rule: inspect_cases)
    case (resolved i e)
    with accepted_fragment(2) [OF resolved(1) refl] that show ?thesis by auto
  next
    case (ready e)
    with accepted_fragment(3) [OF ready(1) refl] that show ?thesis by auto
  qed (use aa em in \<open>auto simp: apply_action_def ends_with_error_def\<close>)
  show "f = F_ToolCallStarted k n \<Longrightarrow> frames = [] \<and> \<not> t \<or> ends_with_error sj frames t"
    "f = F_ToolCallArgs k d \<Longrightarrow> frames = [] \<and> \<not> t \<or> ends_with_error sj frames t"
    using buffered by blast+
  have ended: "(A k = None \<longrightarrow> ends_with_error sj frames t) \<and> (\<forall>n args fs. A k = Some (n, args, fs) \<longrightarrow>
      (frames, t) = call_frames sj (fst (judge p c (E_ToolCall k n args) (ss_ports st))) (fs @ [raw]))"
    if f: "f = F_ToolCallEnded k"
    using i
  proof (cases rule: inspect_cases)
    case (reject reason)
    have "A k = None"
    proof (rule ccontr)
      assume "A k \<noteq> None"
      then have "run_phase (ss_run st) = Running" "map_of (run_open (ss_run st)) k \<noteq> None"
        using look(3) [of k] look(1) [of k] by auto
      with reject(1) f show False
        by (auto simp: run_inspect_def inspect_content_def tool_call_ended_def split: option.splits)
    qed
    with reject aa em show ?thesis by (auto simp: apply_action_def ends_with_error_def)
  next
    case (buffer i)
    with accepted_fragment(1) [OF buffer(1) refl] f show ?thesis by auto
  next
    case (resolved i e)
    then have ik: "i = k" using accepted_fragment(2) [OF resolved(1) refl] f by simp
    obtain b where b: "map_of (run_open (ss_run st)) k = Some b" "e = E_ToolCall k (tb_name b) (tb_arguments b)"
      using run_inspect_accepts [OF resolved(1)] f ik by auto
    then obtain n args fs where A: "A k = Some (n, args, fs)" "b = \<lparr>tb_name = n, tb_arguments = args\<rparr>"
      using look(1) [of k] by (cases "A k") (auto simp: buffer_of_def)
    from aa apply_action_authorized [OF resolved(2), of sj raw "ss_holds st"] em A b(2) ik
    show ?thesis by (auto simp: held split_beta Let_def prod_eq_iff)
  next
    case (ready e)
    with accepted_fragment(3) [OF ready(1) refl] f show ?thesis by auto
  qed
  show "f = F_ToolCallEnded k \<Longrightarrow> A k = None \<Longrightarrow> ends_with_error sj frames t"
    and "f = F_ToolCallEnded k \<Longrightarrow> A k = Some (n, args, fs) \<Longrightarrow>
      (frames, t) = call_frames sj (fst (judge p c (E_ToolCall k n args) (ss_ports st))) (fs @ [raw])"
    using ended by blast+
qed

section \<open>Sweeping\<close>

lemma sweep_calls_run: "sweep_calls p c calls st = (frames, t, st') \<Longrightarrow>
    ss_run st' = ss_run st \<and> ss_events st' = ss_events st"
proof (induction calls arbitrary: st frames)
  case (Cons x calls)
  obtain i e where x: "x = (i, e)" by fastforce
  obtain a s1 where au: "authorize_call p c i e (ss_ports st) = (a, s1)" by fastforce
  from authorize_call_cases [OF au] Cons au x show ?case by (fastforce simp: Let_def split: prod.splits)
qed simp

lemma sweep_calls_holds:
  "sweep_calls p c calls st = (frames, None, st') \<Longrightarrow>
    map_of (ss_holds st') k = (if k \<in> fst ` set calls then None else map_of (ss_holds st) k)"
proof (induction calls arbitrary: st frames)
  case (Cons x calls)
  obtain i e where x: "x = (i, e)" by fastforce
  obtain a s1 where au: "authorize_call p c i e (ss_ports st) = (a, s1)" by fastforce
  from authorize_call_cases [OF au] show ?case
  proof (elim disjE exE conjE)
    assume "a = FlushCall i"
    with Cons.prems x au obtain fs where
      "sweep_calls p c calls (st\<lparr>ss_ports := s1, ss_holds := hm_remove i (ss_holds st),
        ss_metrics := ss_metrics st @ [RecordInspected IO_Forward]\<rparr>) = (fs, None, st')"
      by (auto simp: Let_def split: prod.splits)
    from Cons.IH [OF this] x show ?thesis by auto
  next
    fix r assume "a = DropCall i r"
    with Cons.prems x au have
      "sweep_calls p c calls (st\<lparr>ss_ports := s1, ss_holds := hm_remove i (ss_holds st),
        ss_metrics := ss_metrics st @ [RecordInspected IO_Deny]\<rparr>) = (frames, None, st')"
      by (simp add: Let_def)
    from Cons.IH [OF this] x show ?thesis by auto
  next
    fix r assume "a = Terminate r"
    with Cons.prems x au show ?thesis by (simp add: Let_def)
  qed
qed simp

text \<open>The order in which a hash map is drained: every entry once.\<close>

definition drains :: "drain_order \<Rightarrow> bool" where
  "drains order \<longleftrightarrow> (\<forall>m. set (order m) = set m)"

lemma sweep_open_progress:
  assumes "in_progress A st" and "drains order" and "sweep_open_calls order p c st = (frames, None, st')"
  shows "in_progress (\<lambda>_. None) st'"
proof -
  obtain calls r' where d: "drain_open order (ss_run st) = (calls, r')" by fastforce
  have sw: "sweep_calls p c calls (st\<lparr>ss_run := r'\<rparr>) = (frames, None, st')" using assms(3) d by (simp add: sweep_open_calls_def)
  have "map fst calls = map fst (order (run_open (ss_run st)))"
    using d by (auto simp: drain_open_def)
  then have "fst ` set calls = fst ` set (order (run_open (ss_run st)))" by (metis list.set_map)
  then have keys: "fst ` set calls = fst ` set (run_open (ss_run st))" using assms(2) by (simp add: drains_def)
  have "run_open r' = []" using d by (auto simp: drain_open_def)
  then have "run_open (ss_run st') = []" using sweep_calls_run [OF sw] by simp
  moreover have "map_of (ss_holds st') k = None" for k
  proof (cases "k \<in> fst ` set calls")
    case False
    then have "map_of (run_open (ss_run st)) k = None" using keys by (simp add: map_of_eq_None_iff)
    then have "A k = None" using in_progress_lookup(1) [OF assms(1), of k] by simp
    then show ?thesis using sweep_calls_holds [OF sw, of k] in_progress_lookup(2) [OF assms(1), of k] by simp
  qed (use sweep_calls_holds [OF sw, of k] in simp)
  ultimately show ?thesis by (simp add: in_progress_def)
qed

section \<open>Reachable states\<close>

text \<open>The states of a stream that has not ended, with the events so far and the frames each one caused.\<close>

inductive stream_reach ::
    "serde \<Rightarrow> drain_order \<Rightarrow> 's ports \<Rightarrow> inspection_context \<Rightarrow> inspection_settings \<Rightarrow> 's \<Rightarrow>
      (sse_event \<times> string list) list \<Rightarrow> 's stream_state \<Rightarrow> bool"
  for sj :: serde and order :: drain_order and p :: "'s ports" and c :: inspection_context
    and se :: inspection_settings and s :: 's where
  start: "stream_reach sj order p c se s [] (stream_start c se s)"
| step: "stream_reach sj order p c se s h st \<Longrightarrow> step_event sj order p c se e st = (frames, False, st') \<Longrightarrow>
    stream_reach sj order p c se s (h @ [(e, frames)]) st'"

inductive_cases stream_reach_snocE: "stream_reach sj order p c se s (h @ [x]) st"

text \<open>The inspected fragments of a history, with their frames.\<close>

definition inspected :: "serde \<Rightarrow> inspection_settings \<Rightarrow> (sse_event \<times> string list) list \<Rightarrow> (fragment \<times> string) list" where
  "inspected sj se h =
    concat (map (\<lambda>(e, _). case decode sj (is_malformed_mode se) (ev_data e) of D_Inspect f \<Rightarrow> [(f, ev_raw e)] | _ \<Rightarrow> []) h)"

lemma inspected_snoc:
  "inspected sj se (h @ [(e, frames)]) = inspected sj se h @
    (case decode sj (is_malformed_mode se) (ev_data e) of D_Inspect f \<Rightarrow> [(f, ev_raw e)] | _ \<Rightarrow> [])"
  by (simp add: inspected_def)

lemma in_progress_count [simp]: "in_progress A (count m st) = in_progress A st"
  by (simp add: in_progress_def count_def)

lemma in_progress_counters [simp]: "in_progress A (st\<lparr>ss_events := n, ss_bytes := b\<rparr>) = in_progress A st"
  by (simp add: in_progress_def)

lemma step_event_progress:
  assumes "in_progress A st" and "drains order" and "step_event sj order p c se e st = (frames, False, st')"
  shows "in_progress (\<lambda>k. case decode sj (is_malformed_mode se) (ev_data e) of
      D_Inspect f \<Rightarrow> progress_step k (f, ev_raw e) (A k) | _ \<Rightarrow> A k) st'"
proof -
  let ?st = "st\<lparr>ss_events := ss_events st + 1, ss_bytes := ss_bytes st + length (ev_raw e)\<rparr>"
  have inv: "in_progress A ?st" using assms(1) by simp
  have within: "exceeded (is_response_budget se) (ss_events ?st) (ss_bytes ?st) = None"
    using assms(3) by (auto simp: step_event_def Let_def split: option.splits)
  note step = assms(3) [unfolded step_event_def Let_def within option.case]
  show ?thesis
  proof (cases "decode sj (is_malformed_mode se) (ev_data e)")
    case (D_Inspect f)
    show ?thesis
    proof (cases "is_run_end f")
      case True
      then obtain fr1 st1 fr2 where sw: "sweep_open_calls order p c ?st = (fr1, None, st1)"
          "inspect_fragment sj p c f (ev_raw e) st1 = (fr2, False, st')"
        using step D_Inspect by (auto split: prod.splits option.splits)
      have "progress_step k (f, ev_raw e) x = None" for k x using True by (cases f) auto
      with inspect_fragment_progress [OF sweep_open_progress [OF inv assms(2) sw(1)] sw(2)] D_Inspect
      show ?thesis by simp
    next
      case False
      then have "inspect_fragment sj p c f (ev_raw e) ?st = (frames, False, st')" using step D_Inspect by simp
      from inspect_fragment_progress [OF inv this] False D_Inspect show ?thesis by simp
    qed
  qed (use step inv in auto)
qed

lemma stream_reach_progress:
  assumes "stream_reach sj order p c se s h st" and "drains order"
  shows "in_progress (\<lambda>k. assembled k (inspected sj se h)) st"
  using assms(1)
proof (induction rule: stream_reach.induct)
  case start
  show ?case by (simp add: in_progress_def assembled_def inspected_def stream_start_def run_new_def)
next
  case (step h st e frames st')
  from step_event_progress [OF step.IH assms(2) step.hyps(2)] show ?case
    by (cases "decode sj (is_malformed_mode se) (ev_data e)") (simp_all add: inspected_snoc assembled_snoc)
qed

section \<open>What reaches the client\<close>

definition content_frames :: "serde \<Rightarrow> agent_event verdict \<Rightarrow> string \<Rightarrow> string list \<times> bool" where
  "content_frames sj v raw =
    (case v of
       V_Transform e \<Rightarrow> ([case to_event e of Some j \<Rightarrow> sse_encode (sj_print sj j) | None \<Rightarrow> raw], False)
     | V_Deny _ \<Rightarrow> ([], False)
     | V_Terminate reason \<Rightarrow> ([run_error sj reason], True)
     | _ \<Rightarrow> ([raw], False))"

lemma inspect_fragment_content:
  assumes step: "inspect_fragment sj p c f raw st = (frames, t, st')"
    and "(\<forall>i n. f \<noteq> F_ToolCallStarted i n) \<and> (\<forall>i d. f \<noteq> F_ToolCallArgs i d) \<and> (\<forall>i. f \<noteq> F_ToolCallEnded i)"
  shows "ends_with_error sj frames t \<and> is_reject (fst (run_inspect f (ss_run st))) \<or>
    (\<exists>e. fst (run_inspect f (ss_run st)) = Ready e \<and> (frames, t) = content_frames sj (fst (judge p c e (ss_ports st))) raw)"
proof -
  obtain a r' s' where i: "inspect p c f (ss_run st) (ss_ports st) = (a, r', s')" by (metis prod_cases3)
  obtain em h' oc where aa: "apply_action sj a raw (ss_holds st) = (em, h', oc)" by (metis prod_cases3)
  have em: "frames = em_frames em" "t = em_terminate em" using step i aa by (auto simp: inspect_fragment_def)
  from i show ?thesis
  proof (cases rule: inspect_cases)
    case (reject reason)
    with aa em show ?thesis by (auto simp: apply_action_def ends_with_error_def)
  next
    case (buffer i)
    with accepted_fragment(1) [OF buffer(1) refl] assms(2) show ?thesis by auto
  next
    case (resolved i e)
    with accepted_fragment(2) [OF resolved(1) refl] assms(2) show ?thesis by auto
  next
    case (ready e)
    have "(frames, t) = content_frames sj (fst (judge p c e (ss_ports st))) raw"
      using aa em ready(3) by (cases "fst (judge p c e (ss_ports st))") (auto simp: apply_action_def content_frames_def)
    with ready(1) show ?thesis by simp
  qed
qed

lemma step_event_inspects:
  assumes "step_event sj order p c se e st = (frames, t, st')"
    and "exceeded (is_response_budget se) (ss_events st + 1) (ss_bytes st + length (ev_raw e)) = None"
    and "decode sj (is_malformed_mode se) (ev_data e) = D_Inspect f" and "\<not> is_run_end f"
  shows "inspect_fragment sj p c f (ev_raw e)
    (st\<lparr>ss_events := ss_events st + 1, ss_bytes := ss_bytes st + length (ev_raw e)\<rparr>) = (frames, t, st')"
  using assms by (simp add: step_event_def Let_def)

lemma inspected_event_frames:
  assumes "stream_reach sj order p c se s h st" and "drains order"
    and "step_event sj order p c se e st = (frames, t, st')"
    and "exceeded (is_response_budget se) (ss_events st + 1) (ss_bytes st + length (ev_raw e)) = None"
    and "decode sj (is_malformed_mode se) (ev_data e) = D_Inspect f" and "\<not> is_run_end f"
  shows "case f of
      F_ToolCallStarted _ _ \<Rightarrow> frames = [] \<and> \<not> t \<or> ends_with_error sj frames t
    | F_ToolCallArgs _ _ \<Rightarrow> frames = [] \<and> \<not> t \<or> ends_with_error sj frames t
    | F_ToolCallEnded k \<Rightarrow>
        (case assembled k (inspected sj se h) of
           None \<Rightarrow> ends_with_error sj frames t
         | Some (n, args, fs) \<Rightarrow>
             (frames, t) = call_frames sj (fst (judge p c (E_ToolCall k n args) (ss_ports st))) (fs @ [ev_raw e]))
    | _ \<Rightarrow>
        (case fst (run_inspect f (ss_run st)) of
           Ready ev \<Rightarrow> (frames, t) = content_frames sj (fst (judge p c ev (ss_ports st))) (ev_raw e)
         | _ \<Rightarrow> ends_with_error sj frames t)"
proof -
  let ?st = "st\<lparr>ss_events := ss_events st + 1, ss_bytes := ss_bytes st + length (ev_raw e)\<rparr>"
  note step = step_event_inspects [OF assms(3-6)]
  have inv: "in_progress (\<lambda>k. assembled k (inspected sj se h)) ?st"
    using stream_reach_progress [OF assms(1,2)] by simp
  note call = inspect_fragment_call_frames [OF inv step, simplified]
  note content = inspect_fragment_content [OF step, simplified]
  show ?thesis
  proof (cases f)
    case (F_ToolCallStarted k n)
    with call(1) show ?thesis by simp
  next
    case (F_ToolCallArgs k d)
    with call(2) show ?thesis by simp
  next
    case (F_ToolCallEnded k)
    with call(3,4) show ?thesis by (auto split: option.splits)
  qed (use content in \<open>auto split: structural_outcome.splits\<close>)
qed

text \<open>C4: A tool call reaches the client only as a whole and only after it was judged: the frames of its start
  and its arguments are withheld; at its end, the call assembled from exactly these frames is judged,
  and all of them followed by the end frame are relayed if the verdict does not stop it, none if it is
  denied, and a run error if it terminates the run.  Any other recognised event inside the run is relayed as received,
  rewritten, dropped or replaced by a run error as its own verdict says, and a fragment the run's state machine
  does not accept ends the stream with a run error.  An event that is not recognised (no JSON, an unknown type, or a malformed
  known one under the forwarding mode) is relayed as received without being judged; a malformed one is otherwise dropped or ends the stream
  with a run error, as does an event over the response budget.  The events that end a run are left to the sweep.\<close>

theorem relayed_only_as_judged:
  assumes "stream_reach sj order p c se s h st" and "drains order"
    and "step_event sj order p c se e st = (frames, t, st')"
  shows "case exceeded (is_response_budget se) (ss_events st + 1) (ss_bytes st + length (ev_raw e)) of
      Some reason \<Rightarrow> frames = [run_error sj reason] \<and> t \<and> ss_ports st' = ss_ports st
    | None \<Rightarrow>
        (case decode sj (is_malformed_mode se) (ev_data e) of
           D_PassThrough \<Rightarrow> frames = [ev_raw e] \<and> \<not> t \<and> ss_ports st' = ss_ports st
         | D_MalformedDrop _ \<Rightarrow> frames = [] \<and> \<not> t \<and> ss_ports st' = ss_ports st
         | D_MalformedTerminate _ \<Rightarrow> ends_with_error sj frames t \<and> ss_ports st' = ss_ports st
         | D_Inspect f \<Rightarrow> is_run_end f \<or>
             (case f of
                F_ToolCallStarted _ _ \<Rightarrow> frames = [] \<and> \<not> t \<or> ends_with_error sj frames t
              | F_ToolCallArgs _ _ \<Rightarrow> frames = [] \<and> \<not> t \<or> ends_with_error sj frames t
              | F_ToolCallEnded k \<Rightarrow>
                  (case assembled k (inspected sj se h) of
                     None \<Rightarrow> ends_with_error sj frames t
                   | Some (n, args, fs) \<Rightarrow>
                       (frames, t) = call_frames sj (fst (judge p c (E_ToolCall k n args) (ss_ports st))) (fs @ [ev_raw e]))
              | _ \<Rightarrow>
                  (case fst (run_inspect f (ss_run st)) of
                     Ready ev \<Rightarrow> (frames, t) = content_frames sj (fst (judge p c ev (ss_ports st))) (ev_raw e)
                   | _ \<Rightarrow> ends_with_error sj frames t)))"
proof (cases "exceeded (is_response_budget se) (ss_events st + 1) (ss_bytes st + length (ev_raw e))")
  case None
  show ?thesis
  proof (cases "decode sj (is_malformed_mode se) (ev_data e)")
    case (D_Inspect f)
    show ?thesis
    proof (cases "is_run_end f")
      case False
      from inspected_event_frames [OF assms None D_Inspect False] show ?thesis
        by (simp only: None D_Inspect option.case decoded.case simp_thms)
    qed (simp only: None D_Inspect option.case decoded.case simp_thms)
  qed (use assms(3) None in \<open>auto simp: step_event_def Let_def count_def ends_with_error_def\<close>)
next
  case (Some reason)
  with assms(3) show ?thesis by (auto simp: step_event_def Let_def count_def)
qed

text \<open>A run with one tool call, on a wire whose four texts are names of their JSON.\<close>

definition demo_wire :: serde where
  "demo_wire =
    \<lparr>sj_parse = \<lambda>t.
       if t = ''run'' then Inr (JObject [(''type'', JString ''RUN_STARTED'')])
       else if t = ''start'' then
         Inr (JObject [(''type'', JString ''TOOL_CALL_START''), (''toolCallId'', JString ''c''), (''toolCallName'', JString ''fs'')])
       else if t = ''args'' then
         Inr (JObject [(''type'', JString ''TOOL_CALL_ARGS''), (''toolCallId'', JString ''c''), (''delta'', JString ''{}'')])
       else if t = ''end'' then Inr (JObject [(''type'', JString ''TOOL_CALL_END''), (''toolCallId'', JString ''c'')])
       else Inl ''not JSON'',
     sj_print = \<lambda>_. ''{}''\<rparr>"

definition demo_event :: "string \<Rightarrow> sse_event" where
  "demo_event t = \<lparr>ev_data = t, ev_event = None, ev_id = None, ev_raw = sse_encode t\<rparr>"

definition demo_settings :: inspection_settings where
  "demo_settings =
    \<lparr>is_budgets = \<lparr>bg_max_tool_args_bytes = 4, bg_max_state_bytes = 4, bg_max_open_tool_calls = 1,
        bg_patch = \<lparr>pb_max_ops = 1, pb_max_path_depth = 1, pb_max_value_bytes = 1\<rparr>\<rparr>,
     is_malformed_mode = MM_Terminate, is_response_budget = response_budget_unlimited, is_max_frame_bytes = 0\<rparr>"

definition demo_ports :: "agent_event verdict \<Rightarrow> (audit_log \<times> sessions) ports" where
  "demo_ports v = local_ports (\<lambda>c e. case e of E_ToolCall _ _ _ \<Rightarrow> v | _ \<Rightarrow> V_Allow) (\<lambda>_. None) (\<lambda>_. []) 60 10"

abbreviation demo_step :: "agent_event verdict \<Rightarrow> string \<Rightarrow> (audit_log \<times> sessions) stream_state \<Rightarrow>
    string list \<times> bool \<times> (audit_log \<times> sessions) stream_state" where
  "demo_step v t \<equiv> step_event demo_wire id (demo_ports v) demo_context demo_settings (demo_event t)"

definition demo_state :: "agent_event verdict \<Rightarrow> string list \<Rightarrow> (audit_log \<times> sessions) stream_state" where
  "demo_state v ts = fold (\<lambda>t st. snd (snd (demo_step v t st))) ts
    (stream_start demo_context demo_settings ([], Map.empty))"

lemma demo_state_snoc: "demo_state v (ts @ [t]) = snd (snd (demo_step v t (demo_state v ts)))"
  by (simp add: demo_state_def)

lemma reach_step:
  "stream_reach sj order p c se s h st \<Longrightarrow> fst (snd (step_event sj order p c se e st)) = False \<Longrightarrow>
    stream_reach sj order p c se s (h @ [(e, fst (step_event sj order p c se e st))]) (snd (snd (step_event sj order p c se e st)))"
  by (rule stream_reach.step) (auto simp: prod_eq_iff)

lemma demo_reach:
  "stream_reach demo_wire id (demo_ports V_Allow) demo_context demo_settings ([], Map.empty)
    [(demo_event ''run'', [sse_encode ''run'']), (demo_event ''start'', []), (demo_event ''args'', [])]
    (demo_state V_Allow [''run'', ''start'', ''args''])"
proof -
  let ?reach = "stream_reach demo_wire id (demo_ports V_Allow) demo_context demo_settings ([], Map.empty)"
  have 0: "?reach [] (demo_state V_Allow [])" unfolding demo_state_def using stream_reach.start by simp
  have s1: "fst (demo_step V_Allow ''run'' (demo_state V_Allow [])) = [sse_encode ''run''] \<and>
      fst (snd (demo_step V_Allow ''run'' (demo_state V_Allow []))) = False" by code_simp
  have s2: "fst (demo_step V_Allow ''start'' (demo_state V_Allow [''run''])) = [] \<and>
      fst (snd (demo_step V_Allow ''start'' (demo_state V_Allow [''run'']))) = False" by code_simp
  have s3: "fst (demo_step V_Allow ''args'' (demo_state V_Allow [''run'', ''start''])) = [] \<and>
      fst (snd (demo_step V_Allow ''args'' (demo_state V_Allow [''run'', ''start'']))) = False" by code_simp
  from reach_step [OF 0, of "demo_event ''run''"] s1 demo_state_snoc [of V_Allow "[]"]
  have 1: "?reach [(demo_event ''run'', [sse_encode ''run''])] (demo_state V_Allow [''run''])" by simp
  from reach_step [OF 1, of "demo_event ''start''"] s2 demo_state_snoc [of V_Allow "[''run'']"]
  have 2: "?reach [(demo_event ''run'', [sse_encode ''run'']), (demo_event ''start'', [])] (demo_state V_Allow [''run'', ''start''])" by simp
  from reach_step [OF 2, of "demo_event ''args''"] s3 demo_state_snoc [of V_Allow "[''run'', ''start'']"]
  show ?thesis by simp
qed

theorem relayed_only_as_judged_witness:
  "fst (demo_step V_Allow ''end'' (demo_state V_Allow [''run'', ''start'', ''args''])) =
    [sse_encode ''start'', sse_encode ''args'', sse_encode ''end'']"
proof -
  let ?st = "demo_state V_Allow [''run'', ''start'', ''args'']"
  let ?h = "[(demo_event ''run'', [sse_encode ''run'']), (demo_event ''start'', []), (demo_event ''args'', [])]"
  have d: "drains id" by (simp add: drains_def)
  have b: "exceeded (is_response_budget demo_settings) (ss_events ?st + 1)
      (ss_bytes ?st + length (ev_raw (demo_event ''end''))) = None"
    by (simp add: exceeded_def demo_settings_def response_budget_unlimited_def)
  have dec: "decode demo_wire (is_malformed_mode demo_settings) (ev_data (demo_event ''end'')) =
      D_Inspect (F_ToolCallEnded ''c'')" by code_simp
  have as: "assembled ''c'' (inspected demo_wire demo_settings ?h) =
      Some (''fs'', ''{}'', [sse_encode ''start'', sse_encode ''args''])" by code_simp
  have v: "fst (judge (demo_ports V_Allow) demo_context (E_ToolCall ''c'' ''fs'' ''{}'') (ss_ports ?st)) = V_Allow" by code_simp
  obtain frames t st' where step: "demo_step V_Allow ''end'' ?st = (frames, t, st')" by (metis prod_cases3)
  from relayed_only_as_judged [OF demo_reach d step, unfolded b dec] as v step show ?thesis
    by (simp add: call_frames_def demo_event_def)
qed

end
