(* ===== verification/Stream_Guarantees.thy ===== *)
theory Stream_Guarantees
  imports Stream_Proxy
begin

text \<open>
  Guarantees of a whole response stream, over \<^verbatim>\<open>Stream_Proxy\<close>: the calls that are left open are judged
  before anything of them is relayed, the number of frames a client receives is bounded by the
  response budget whatever the agent sends, a stream that ends early ends with a run error, and
  the two ways found in which an event escapes inspection.
\<close>

section \<open>Calls left open\<close>

















section \<open>Output\<close>

definition total_held :: "holds \<Rightarrow> nat" where
  "total_held h = sum_list (map (length \<circ> snd) h)"

lemma total_held_remove: "total_held (hm_remove k h) + length (held k h) \<le> total_held h"
proof (induction h)
  case (Cons x h)
  have "total_held (hm_remove k h) \<le> total_held h" using Cons by simp
  with Cons show ?case by (cases x) (auto simp: total_held_def hm_remove_def held_def split: option.splits)
qed (simp add: total_held_def hm_remove_def held_def)

lemma total_held_push: "total_held (hold_push i raw h) = total_held h + 1"
proof -
  have "map_of h i \<noteq> None \<Longrightarrow> total_held (hm_update i (\<lambda>fs. fs @ [raw]) h) = total_held h + 1"
    by (induction h) (auto simp: total_held_def split: if_splits)
  then show ?thesis by (auto simp: hold_push_def total_held_def split: option.splits)
qed

lemma apply_action_total:
  "apply_action sj a raw h = (em, h', oc) \<Longrightarrow> length (em_frames em) + total_held h' \<le> total_held h + 1"
proof (cases a)
  case (FlushCall i)
  assume "apply_action sj a raw h = (em, h', oc)"
  with FlushCall total_held_remove [of i h] show ?thesis by (auto simp: apply_action_def)
next
  case (DropCall i r)
  assume "apply_action sj a raw h = (em, h', oc)"
  with DropCall total_held_remove [of i h] show ?thesis by (auto simp: apply_action_def)
qed (auto simp: apply_action_def total_held_push total_held_def [of "[]"])

lemma inspect_fragment_total:
  "inspect_fragment sj p c f raw st = (frames, t, st') \<Longrightarrow>
    length frames + total_held (ss_holds st') \<le> total_held (ss_holds st) + 1 \<and> ss_events st' = ss_events st"
  by (auto simp: inspect_fragment_def count_def dest: apply_action_total split: prod.splits)

lemma sweep_calls_total:
  "sweep_calls p c calls st = (frames, t, st') \<Longrightarrow>
    length frames + total_held (ss_holds st') \<le> total_held (ss_holds st)"
proof (induction calls arbitrary: st frames)
  case (Cons x calls)
  obtain i e where x: "x = (i, e)" by fastforce
  obtain a s1 where au: "authorize_call p c i e (ss_ports st) = (a, s1)" by fastforce
  note less = total_held_remove [of i "ss_holds st"]
  from authorize_call_cases [OF au] show ?case
  proof (elim disjE exE conjE)
    assume "a = FlushCall i"
    with Cons.prems x au obtain fs where fs:
      "sweep_calls p c calls (st\<lparr>ss_ports := s1, ss_holds := hm_remove i (ss_holds st),
        ss_metrics := ss_metrics st @ [RecordInspected IO_Forward]\<rparr>) = (fs, t, st')"
      "frames = held i (ss_holds st) @ fs"
      by (auto simp: Let_def split: prod.splits)
    from Cons.IH [OF fs(1)] fs(2) less show ?thesis by simp
  next
    fix r assume "a = DropCall i r"
    with Cons.prems x au have
      "sweep_calls p c calls (st\<lparr>ss_ports := s1, ss_holds := hm_remove i (ss_holds st),
        ss_metrics := ss_metrics st @ [RecordInspected IO_Deny]\<rparr>) = (frames, t, st')"
      by (simp add: Let_def)
    from Cons.IH [OF this] less show ?thesis by simp
  next
    fix r assume "a = Terminate r"
    with Cons.prems x au show ?thesis by (auto simp: Let_def)
  qed
qed simp

lemma sweep_open_total:
  assumes "sweep_open_calls order p c st = (frames, t, st')"
  shows "length frames + total_held (ss_holds st') \<le> total_held (ss_holds st) \<and> ss_events st' = ss_events st"
proof -
  obtain calls r' where d: "drain_open order (ss_run st) = (calls, r')" by fastforce
  then have "sweep_calls p c calls (st\<lparr>ss_run := r'\<rparr>) = (frames, t, st')" using assms by (simp add: sweep_open_calls_def)
  from sweep_calls_total [OF this] sweep_calls_run [OF this] show ?thesis by simp
qed

text \<open>Each event adds at most one frame to those emitted and withheld.\<close>

lemma step_event_total:
  assumes "step_event sj order p c se e st = (frames, t, st')"
  shows "length frames + total_held (ss_holds st') \<le> total_held (ss_holds st) + 1 \<and> ss_events st' = ss_events st + 1"
proof -
  let ?st = "st\<lparr>ss_events := ss_events st + 1, ss_bytes := ss_bytes st + length (ev_raw e)\<rparr>"
  note step = assms [unfolded step_event_def Let_def]
  show ?thesis
  proof (cases "exceeded (is_response_budget se) (ss_events ?st) (ss_bytes ?st)")
    case (Some reason)
    with step show ?thesis by (auto simp: count_def total_held_def)
  next
    case None
    show ?thesis
    proof (cases "decode sj (is_malformed_mode se) (ev_data e)")
      case (D_Inspect f)
      show ?thesis
      proof (cases "is_run_end f")
        case True
        obtain fr1 t1 st1 where sw: "sweep_open_calls order p c ?st = (fr1, t1, st1)" by (metis prod_cases3)
        note total = sweep_open_total [OF sw]
        show ?thesis
        proof (cases t1)
          case None1: None
          obtain fr2 where "inspect_fragment sj p c f (ev_raw e) st1 = (fr2, t, st')" "frames = fr1 @ fr2"
            using step None D_Inspect True sw None1 by (auto split: prod.splits)
          with inspect_fragment_total total show ?thesis by fastforce
        next
          case (Some reason)
          with step None D_Inspect True sw total show ?thesis by auto
        qed
      next
        case False
        then have "inspect_fragment sj p c f (ev_raw e) ?st = (frames, t, st')" using step None D_Inspect by simp
        from inspect_fragment_total [OF this] show ?thesis by simp
      qed
    qed (use step None in \<open>auto simp: count_def total_held_def\<close>)
  qed
qed

lemma step_event_counts:
  assumes "step_event sj order p c se e st = (frames, False, st')" and "rb_max_events (is_response_budget se) \<noteq> 0"
  shows "ss_events st' \<le> rb_max_events (is_response_budget se)"
proof (rule ccontr)
  assume "\<not> ss_events st' \<le> rb_max_events (is_response_budget se)"
  then have "exceeded (is_response_budget se) (ss_events st + 1) (ss_bytes st + length (ev_raw e)) \<noteq> None"
    using step_event_total [OF assms(1)] assms(2) by (simp add: exceeded_def)
  with assms(1) show False by (auto simp: step_event_def Let_def)
qed

text \<open>What may still be emitted: the frames withheld and one frame for every event still admitted.\<close>

definition allowance :: "nat \<Rightarrow> 's stream_state \<Rightarrow> nat" where
  "allowance n st = total_held (ss_holds st) + (n - ss_events st)"

lemma step_event_allowance:
  assumes "step_event sj order p c se e st = (frames, t, st')" and "ss_events st \<le> n"
    and "n = rb_max_events (is_response_budget se)" and "n \<noteq> 0"
  shows "if t then length frames \<le> allowance n st + 1
    else length frames + allowance n st' \<le> allowance n st \<and> ss_events st' \<le> n"
proof (cases t)
  case True
  with step_event_total [OF assms(1)] show ?thesis by (simp add: allowance_def)
next
  case False
  with step_event_counts [of sj order p c se e st frames st'] step_event_total [OF assms(1)] assms show ?thesis
    by (auto simp: allowance_def)
qed

lemma step_events_allowance:
  assumes "step_events sj order p c se es st = (frames, t, st')" and "ss_events st \<le> n"
    and n: "n = rb_max_events (is_response_budget se)" "n \<noteq> 0"
  shows "if t then length frames \<le> allowance n st + 1
    else length frames + allowance n st' \<le> allowance n st \<and> ss_events st' \<le> n"
  using assms(1,2)
proof (induction es arbitrary: st frames)
  case (Cons e es)
  obtain fr t1 st1 where one: "step_event sj order p c se e st = (fr, t1, st1)" by (metis prod_cases3)
  note all = step_event_allowance [OF one Cons.prems(2) n]
  show ?case
  proof (cases t1)
    case True
    with one all Cons.prems(1) show ?thesis by auto
  next
    case False
    obtain fr2 where two: "step_events sj order p c se es st1 = (fr2, t, st')" "frames = fr @ fr2"
      using one False Cons.prems(1) by (auto split: prod.splits)
    from Cons.IH [OF two(1)] all False two(2) show ?thesis by (auto split: if_splits)
  qed
qed simp

lemma step_chunks_allowance:
  assumes "ss_events st \<le> n" and n: "n = rb_max_events (is_response_budget se)" "n \<noteq> 0"
  shows "length (fst (step_chunks sj order p c se upstream d st)) \<le> allowance n st + 1"
  using assms(1)
proof (induction upstream arbitrary: d st)
  case Nil
  obtain frames t st' where sw: "sweep_open_calls order p c st = (frames, t, st')" by (metis prod_cases3)
  from sweep_open_total [OF sw] sw show ?case by (auto simp: allowance_def split: option.splits)
next
  case (Cons x upstream)
  show ?case
  proof (cases x)
    case (Inr chunk)
    obtain es d' where p: "sse_push chunk d = (es, d')" by fastforce
    obtain fr t st1 where one: "step_events sj order p c se es st = (fr, t, st1)" by (metis prod_cases3)
    note all = step_events_allowance [OF one Cons.prems n]
    show ?thesis
    proof (cases "is_max_frame_bytes se \<noteq> 0 \<and> pending_len d' > is_max_frame_bytes se")
      case False
      obtain fr2 st2 where two: "step_chunks sj order p c se upstream d' st1 = (fr2, st2)" by fastforce
      have "\<not> t \<Longrightarrow> length fr2 \<le> allowance n st1 + 1" using Cons.IH [of st1 d'] all two by simp
      with False Inr p one two all show ?thesis by (cases t) auto
    qed (use Inr p in simp)
  qed simp
qed

text \<open>C34: Whatever the agent sends, however it is cut into chunks and however long it goes on, a client receives at
  most one frame more than the configured number of events.\<close>

theorem stream_output_bounded:
  assumes "rb_max_events (is_response_budget se) \<noteq> 0"
  shows "length (fst (inspect_stream sj order p c se upstream s)) \<le> rb_max_events (is_response_budget se) + 1"
  using step_chunks_allowance [OF _ refl assms, of "stream_start c se s"]
  by (simp add: inspect_stream_def stream_start_def allowance_def total_held_def)

theorem stream_output_bounded_witness:
  "length (fst (inspect_stream demo_wire id (demo_ports V_Allow) demo_context
      (demo_settings\<lparr>is_response_budget := \<lparr>rb_max_events = 2, rb_max_bytes = 0\<rparr>\<rparr>)
      (replicate 9 (Inr (sse_encode ''run''))) ([], Map.empty))) \<le> 3"
  using stream_output_bounded [of "demo_settings\<lparr>is_response_budget := \<lparr>rb_max_events = 2, rb_max_bytes = 0\<rparr>\<rparr>" demo_wire id
      "demo_ports V_Allow" demo_context "replicate 9 (Inr (sse_encode ''run''))" "([], Map.empty)"] by simp

section \<open>Ends\<close>

definition error_last :: "serde \<Rightarrow> string list \<Rightarrow> bool" where
  "error_last sj frames \<longleftrightarrow> (\<exists>out reason. frames = out @ [run_error sj reason])"

lemma error_last_single [simp]: "error_last sj [run_error sj reason]"
  unfolding error_last_def by (rule exI [of _ "[]"]) auto

lemma error_last_append: "error_last sj ys \<Longrightarrow> error_last sj (xs @ ys)"
  unfolding error_last_def by (metis append.assoc)

lemma error_last_snoc [simp]: "error_last sj (xs @ [run_error sj reason])"
  by (rule error_last_append) simp

lemma inspect_fragment_error: "inspect_fragment sj p c f raw st = (frames, True, st') \<Longrightarrow> error_last sj frames"
  by (auto simp: inspect_fragment_def apply_action_def split: prod.splits inspection_action.splits)

lemma step_event_error: "step_event sj order p c se e st = (frames, True, st') \<Longrightarrow> error_last sj frames"
  by (auto simp: step_event_def Let_def dest: inspect_fragment_error error_last_append [OF inspect_fragment_error]
      split: option.splits decoded.splits if_splits prod.splits)

lemma step_events_error: "step_events sj order p c se es st = (frames, True, st') \<Longrightarrow> error_last sj frames"
proof (induction es arbitrary: st frames)
  case (Cons e es)
  obtain fr t1 st1 where one: "step_event sj order p c se e st = (fr, t1, st1)" by (metis prod_cases3)
  show ?case
  proof (cases t1)
    case True
    with one Cons.prems step_event_error [of sj order p c se e st fr st1] show ?thesis by simp
  next
    case False
    obtain fr2 where two: "step_events sj order p c se es st1 = (fr2, True, st')" "frames = fr @ fr2"
      using one False Cons.prems by (auto split: prod.splits)
    from error_last_append [OF Cons.IH [OF two(1)]] two(2) show ?thesis by simp
  qed
qed simp

lemma step_chunks_failure:
  "error_last sj (fst (step_chunks sj order p c se (pre @ Inl err # rest) d st)) \<and>
    step_chunks sj order p c se (pre @ Inl err # rest) d st = step_chunks sj order p c se (pre @ [Inl err]) d st"
proof (induction pre arbitrary: d st)
  case (Cons x pre)
  show ?case
  proof (cases x)
    case (Inr chunk)
    obtain es d' where p: "sse_push chunk d = (es, d')" by fastforce
    obtain fr t st1 where one: "step_events sj order p c se es st = (fr, t, st1)" by (metis prod_cases3)
    show ?thesis
    proof (cases t)
      case True
      then show ?thesis using Inr p one step_events_error [of sj order p c se es st fr st1] by simp
    next
      case False
      with Cons.IH [of d' st1] Inr p one show ?thesis by (auto intro: error_last_append split: prod.splits)
    qed
  qed simp
qed simp

text \<open>When the upstream fails, whatever it sent before, the client's stream ends with a run error, and nothing that
  might follow the failure is read.\<close>

lemma upstream_failure_ends_stream:
  "(\<exists>out reason. fst (inspect_stream sj order p c se (pre @ Inl err # rest) s) = out @ [run_error sj reason]) \<and>
    inspect_stream sj order p c se (pre @ Inl err # rest) s = inspect_stream sj order p c se (pre @ [Inl err]) s"
  using step_chunks_failure [of sj order p c se pre err rest sse_new "stream_start c se s"]
  unfolding inspect_stream_def error_last_def by blast

section \<open>Bare carriage returns\<close>

text \<open>A body with two events for a client that ends lines at carriage returns, one event for the decoder.\<close>

definition hidden_line :: "string \<Rightarrow> string" where
  "hidden_line msg = ''x'' @ [CR, CR] @ ''data: '' @ msg"

definition hidden_body :: "string \<Rightarrow> string" where
  "hidden_body msg = ''data: '' @ hidden_line msg @ [LF, LF]"

lemma hidden_line_props:
  assumes "LF \<notin> set msg" and "CR \<notin> set msg" and "utf8_valid msg"
  shows "LF \<notin> set (''data: '' @ hidden_line msg)" and "utf8_valid (''data: '' @ hidden_line msg)"
    and "line_content ((''data: '' @ hidden_line msg) @ [LF]) = ''data: '' @ hidden_line msg"
    and "utf8_valid (hidden_body msg)"
proof -
  have ascii: "ascii_char CHR ''d''" "ascii_char CHR ''a''" "ascii_char CHR ''t''" "ascii_char CHR '':''" "ascii_char CHR '' ''"
    "ascii_char CHR ''x''" by (simp_all add: ascii_char_def)
  show "LF \<notin> set (''data: '' @ hidden_line msg)" using assms(1) by (simp add: hidden_line_def)
  show valid: "utf8_valid (''data: '' @ hidden_line msg)"
    using assms(3) by (simp add: hidden_line_def utf8_valid_ascii ascii)
  show "line_content ((''data: '' @ hidden_line msg) @ [LF]) = ''data: '' @ hidden_line msg"
    using assms(2) unfolding line_content_lf by (cases msg rule: rev_cases) (auto simp: hidden_line_def)
  show "utf8_valid (hidden_body msg)"
    using utf8_valid_append_ascii [of LF "''data: '' @ hidden_line msg" "[LF]"] valid
    by (simp add: hidden_body_def utf8_valid_ascii)
qed

lemma hidden_push:
  assumes "LF \<notin> set msg" and "CR \<notin> set msg" and "utf8_valid msg"
  shows "sse_push (hidden_body msg) sse_new =
    ([\<lparr>ev_data = hidden_line msg, ev_event = None, ev_id = None, ev_raw = hidden_body msg\<rparr>], sse_new)"
proof -
  let ?l = "''data: '' @ hidden_line msg"
  note props = hidden_line_props [OF assms]
  have field: "split_field ?l = (''data'', hidden_line msg)" by (simp add: split_field_def)
  have one: "process_line (?l @ [LF]) (sse_new\<lparr>sd_buffer := [LF]\<rparr>) =
      ([], sse_new\<lparr>sd_buffer := [LF], sd_raw := ?l @ [LF], sd_data := hidden_line msg @ [LF], sd_has_data := True\<rparr>)"
    using props(2,3) field by (simp add: process_line_def Let_def parse_field_def lossy_valid sse_new_def)
  have two: "process_line [LF] (sse_new\<lparr>sd_raw := ?l @ [LF], sd_data := hidden_line msg @ [LF], sd_has_data := True\<rparr>) =
      ([\<lparr>ev_data = hidden_line msg, ev_event = None, ev_id = None, ev_raw = hidden_body msg\<rparr>], sse_new)"
    using props(4) lossy_valid [OF props(4)]
    by (simp add: process_line_def Let_def line_content_def dispatch_def sse_new_def hidden_body_def)
  show ?thesis unfolding sse_push_def
    using push_loop_line [of "sse_new\<lparr>sd_buffer := hidden_body msg\<rparr>" ?l "[LF]"] props(1) one
      push_loop_line [of "sse_new\<lparr>sd_buffer := [LF], sd_raw := ?l @ [LF], sd_data := hidden_line msg @ [LF], sd_has_data := True\<rparr>" "[]" "[]"]
      two push_loop_rest [of sse_new]
    by (simp add: hidden_body_def sse_new_def)
qed

lemma hidden_bom: "strip_bom (hidden_body msg) = hidden_body msg"
  by (simp add: strip_bom_def BOM_def hidden_body_def)

lemma hidden_read:
  assumes "LF \<notin> set msg" and "CR \<notin> set msg" and "utf8_valid msg"
  shows "client_read (hidden_body msg) = [(''x'', []), (msg, [])]"
proof -
  have "ref_lines [] (hidden_body msg) = [''data: x'', [], ''data: '' @ msg, []]"
    using assms(1,2) ref_lines_prefix [of msg "''data: ''" "[LF, LF]"]
    by (simp add: hidden_body_def hidden_line_def drop_lf_def)
  then show ?thesis
    by (simp add: client_read_def hidden_bom ref_read_def lossy_valid [OF hidden_line_props(4) [OF assms]] ref_line_def split_field_def)
qed

text \<open>C36: A bare carriage return hides an event from inspection: a body in which two lines end with one is relayed as
  it came, with nothing judged or recorded, while a client that reads it by the rules of the format
  receives the hidden text as an event of its own, whatever it is.\<close>

theorem bare_cr_hides_event:
  assumes "LF \<notin> set msg" and "CR \<notin> set msg" and "utf8_valid msg"
    and "sj_parse sj (hidden_line msg) = Inl err" and "drains order"
  shows "\<exists>st. inspect_stream sj order p c inspection_settings_default [Inr (hidden_body msg)] s = ([hidden_body msg], st) \<and>
    ss_ports st = s \<and> client_read (hidden_body msg) = [(''x'', []), (msg, [])]"
proof -
  have "decode sj MM_Terminate (hidden_line msg) = D_PassThrough" using assms(4) by (simp add: decode_def)
  moreover have "order [] = []" using assms(5) unfolding drains_def by (metis empty_set set_empty)
  ultimately show ?thesis
    by (simp add: inspect_stream_def hidden_push [OF assms(1-3)] hidden_read [OF assms(1-3)] step_event_def Let_def exceeded_def
        inspection_settings_default_def response_budget_unlimited_def sweep_open_calls_def drain_open_def
        stream_start_def run_new_def)
qed

theorem bare_cr_hides_event_witness:
  "\<exists>st. inspect_stream demo_wire id (demo_ports (V_Deny ''no'')) demo_context inspection_settings_default
      [Inr (hidden_body ''end'')] ([], Map.empty) = ([hidden_body ''end''], st) \<and>
    client_read (hidden_body ''end'') = [(''x'', []), (''end'', [])]"
proof -
  have "utf8_valid ''end''" by (rule utf8_valid_is_ascii) (simp add: is_ascii_def)
  moreover have "sj_parse demo_wire (hidden_line ''end'') = Inl ''not JSON''" by (simp add: demo_wire_def hidden_line_def)
  moreover have "drains id" by (simp add: drains_def)
  ultimately show ?thesis
    using bare_cr_hides_event [of "''end''" demo_wire "''not JSON''" id "demo_ports (V_Deny ''no'')" demo_context "([], Map.empty)"]
    by auto
qed

text \<open>So does a byte order mark at the start: the client drops it, the decoder takes it for the start of a field name and reports
  only the empty second line, which is no JSON and passes.\<close>

definition marked_body :: "string \<Rightarrow> string" where
  "marked_body msg = BOM @ ''data: '' @ msg @ LF # ''data:'' @ [LF, LF]"

definition marked_example :: string where
  "marked_example = marked_body ''end''"

lemma bom_hides_event:
  assumes "sj_parse sj [] = Inl err" and "drains order"
  shows "\<exists>st. inspect_stream sj order p c inspection_settings_default [Inr marked_example] s = ([marked_example], st) \<and>
    ss_ports st = s \<and> client_read marked_example = [(''end'' @ [LF], [])]"
proof -
  have "order [] = []" using assms(2) unfolding drains_def by (metis empty_set set_empty)
  moreover have "sse_push marked_example sse_new = ([\<lparr>ev_data = [], ev_event = None, ev_id = None, ev_raw = marked_example\<rparr>], sse_new)"
    by code_simp
  moreover have "client_read marked_example = [(''end'' @ [LF], [])]" by code_simp
  ultimately show ?thesis using assms(1)
    by (simp add: inspect_stream_def step_event_def Let_def exceeded_def decode_def
        inspection_settings_default_def response_budget_unlimited_def sweep_open_calls_def drain_open_def
        stream_start_def run_new_def)
qed

end
