(* ===== verification/Policy_Rules.thy ===== *)
theory Policy_Rules
  imports Agate_Text
begin

text \<open>
  The policy crate (\<^verbatim>\<open>crates/agate-policy/src\<close>): patterns, tool matchers, JSON paths, the
  deny rules built from them, the ruleset and the evaluator.

  The \<^verbatim>\<open>regex\<close> crate is the parameter \<^verbatim>\<open>regex_engine\<close>: a compiled expression is known by
  its source text, which is what \<^verbatim>\<open>Regex::as_str\<close> returns.
\<close>

record regex_engine =
  rx_compile :: "string \<Rightarrow> string option"   \<comment> \<open>the error message, if it does not compile\<close>
  rx_is_match :: "string \<Rightarrow> string \<Rightarrow> bool"
  rx_replace_all :: "string \<Rightarrow> string \<Rightarrow> string \<Rightarrow> string"
  rx_escape :: "string \<Rightarrow> string"

section \<open>Errors\<close>

datatype pattern_error = PatternBlank | PatternBlankRegex | PatternInvalidRegex string
datatype tool_name_error = ToolNameBlank
datatype json_path_error = PathBlank | EmptySegment string | ArrayIndexing string
datatype tool_matcher_error =
  BlankExact | BlankGlob | InvalidGlob string | MatcherBlankRegex | MatcherInvalidRegex string

datatype policy_error =
    Pattern_Error pattern_error
  | ToolName_Error tool_name_error
  | JsonPath_Error json_path_error
  | ToolMatcher_Error tool_matcher_error

fun show_pattern_error :: "pattern_error \<Rightarrow> string" where
  "show_pattern_error PatternBlank = ''pattern must not be blank''"
| "show_pattern_error PatternBlankRegex = ''pattern regex must not be blank''"
| "show_pattern_error (PatternInvalidRegex e) = ''invalid pattern regex: '' @ e"

fun show_tool_name_error :: "tool_name_error \<Rightarrow> string" where
  "show_tool_name_error ToolNameBlank = ''tool name must not be blank''"

fun show_json_path_error :: "json_path_error \<Rightarrow> string" where
  "show_json_path_error PathBlank = ''rule path must not be blank''"
| "show_json_path_error (EmptySegment p) = ''rule path '' @ [CHR 0x27] @ p @ [CHR 0x27] @ '' has an empty segment''"
| "show_json_path_error (ArrayIndexing p) =
    ''rule path '' @ [CHR 0x27] @ p @ [CHR 0x27] @
    '' uses array indexing, which is not supported (object keys only)''"

fun show_tool_matcher_error :: "tool_matcher_error \<Rightarrow> string" where
  "show_tool_matcher_error BlankExact = ''tool name must not be blank''"
| "show_tool_matcher_error BlankGlob = ''tool glob must not be blank''"
| "show_tool_matcher_error (InvalidGlob e) = ''invalid tool glob: '' @ e"
| "show_tool_matcher_error MatcherBlankRegex = ''tool regex must not be blank''"
| "show_tool_matcher_error (MatcherInvalidRegex e) = ''invalid tool regex: '' @ e"

fun show_policy_error :: "policy_error \<Rightarrow> string" where
  "show_policy_error (Pattern_Error e) = show_pattern_error e"
| "show_policy_error (ToolName_Error e) = show_tool_name_error e"
| "show_policy_error (JsonPath_Error e) = show_json_path_error e"
| "show_policy_error (ToolMatcher_Error e) = show_tool_matcher_error e"

definition compile :: "regex_engine \<Rightarrow> string \<Rightarrow> (string, string) result" where
  "compile rx src = (case rx_compile rx src of Some e \<Rightarrow> Inl e | None \<Rightarrow> Inr src)"

section \<open>Patterns\<close>

definition REDACTION_MASK :: string where
  "REDACTION_MASK = ''[REDACTED]''"

datatype pattern = Literal string | Regex string

definition pattern_literal :: "string \<Rightarrow> (policy_error, pattern) result" where
  "pattern_literal needle =
    (if trim needle = [] then Inl (Pattern_Error PatternBlank) else Inr (Literal needle))"

definition pattern_regex :: "regex_engine \<Rightarrow> string \<Rightarrow> (policy_error, pattern) result" where
  "pattern_regex rx src =
    (if trim src = [] then Inl (Pattern_Error PatternBlankRegex)
     else and_then (map_err (\<lambda>e. Pattern_Error (PatternInvalidRegex e)) (compile rx src))
       (\<lambda>re. Inr (Regex re)))"

fun pattern_matches :: "regex_engine \<Rightarrow> pattern \<Rightarrow> string \<Rightarrow> bool" where
  "pattern_matches rx (Literal needle) text = contains (to_ascii_lowercase needle) (to_ascii_lowercase text)"
| "pattern_matches rx (Regex re) text = rx_is_match rx re text"

text \<open>The loop of \<^verbatim>\<open>mask_literal\<close>: both copies of the haystack from the cursor on.  With an empty
  needle the cursor would stay where it is, and the loop does not end.\<close>

partial_function (option) mask_loop ::
    "string \<Rightarrow> string \<Rightarrow> string \<Rightarrow> string \<Rightarrow> bool \<Rightarrow> (string \<times> bool) option" where
  "mask_loop lower_needle lower_hay hay res matched =
    (case str_find lower_needle lower_hay of
       None \<Rightarrow> Some (res @ hay, matched)
     | Some start \<Rightarrow>
         let e = start + length lower_needle in
         mask_loop lower_needle (drop e lower_hay) (drop e hay) (res @ take start hay @ REDACTION_MASK) True)"

definition mask_literal :: "string \<Rightarrow> string \<Rightarrow> (string \<times> bool) option" where
  "mask_literal hay needle = mask_loop (to_ascii_lowercase needle) (to_ascii_lowercase hay) hay [] False"

fun pattern_mask :: "regex_engine \<Rightarrow> pattern \<Rightarrow> string \<Rightarrow> (string \<times> bool) option" where
  "pattern_mask rx (Literal needle) text = mask_literal text needle"
| "pattern_mask rx (Regex re) text =
    Some (if rx_is_match rx re text then (rx_replace_all rx re text REDACTION_MASK, True) else (text, False))"

fun pattern_source :: "pattern \<Rightarrow> string" where
  "pattern_source (Literal needle) = needle"
| "pattern_source (Regex re) = re"

fun pattern_tag :: "pattern \<Rightarrow> nat" where
  "pattern_tag (Literal _) = 0"
| "pattern_tag (Regex _) = 1"

definition pattern_eq :: "pattern \<Rightarrow> pattern \<Rightarrow> bool" where
  "pattern_eq p q = (pattern_tag p = pattern_tag q \<and> pattern_source p = pattern_source q)"

section \<open>Tool matchers\<close>

datatype tool_matcher =
    Exact string
  | Glob string string
  | ToolRegex string string

definition tm_exact :: "string \<Rightarrow> (policy_error, tool_matcher) result" where
  "tm_exact name =
    (if trim name = [] then Inl (ToolMatcher_Error BlankExact) else Inr (Exact (trim name)))"

text \<open>\<^verbatim>\<open>glob_to_regex\<close>: \<^verbatim>\<open>literal\<close> is the pending literal run, flushed escaped before a wildcard
  and at the end.\<close>

definition flush :: "regex_engine \<Rightarrow> string \<Rightarrow> string \<Rightarrow> string" where
  "flush rx literal regex = (if literal \<noteq> [] then regex @ rx_escape rx literal else regex)"

fun glob_loop :: "regex_engine \<Rightarrow> string \<Rightarrow> string \<Rightarrow> string \<Rightarrow> string" where
  "glob_loop rx [] literal regex = flush rx literal regex @ ''$''"
| "glob_loop rx (ch # rest) literal regex =
    (if ch = CHR ''*'' then glob_loop rx rest [] (flush rx literal regex @ ''.*'')
     else if ch = CHR ''?'' then glob_loop rx rest [] (flush rx literal regex @ ''.'')
     else glob_loop rx rest (literal @ [ch]) regex)"

definition glob_to_regex :: "regex_engine \<Rightarrow> string \<Rightarrow> string" where
  "glob_to_regex rx g = glob_loop rx g [] ''^''"

definition tm_glob :: "regex_engine \<Rightarrow> string \<Rightarrow> (policy_error, tool_matcher) result" where
  "tm_glob rx src =
    (if trim src = [] then Inl (ToolMatcher_Error BlankGlob)
     else and_then (map_err (\<lambda>e. ToolMatcher_Error (InvalidGlob e)) (compile rx (glob_to_regex rx src)))
       (\<lambda>re. Inr (Glob src re)))"

definition tm_regex :: "regex_engine \<Rightarrow> string \<Rightarrow> (policy_error, tool_matcher) result" where
  "tm_regex rx src =
    (if trim src = [] then Inl (ToolMatcher_Error MatcherBlankRegex)
     else and_then (map_err (\<lambda>e. ToolMatcher_Error (MatcherInvalidRegex e)) (compile rx (''^(?:'' @ src @ '')$'')))
       (\<lambda>re. Inr (ToolRegex src re)))"

fun tm_matches :: "regex_engine \<Rightarrow> tool_matcher \<Rightarrow> string \<Rightarrow> bool" where
  "tm_matches rx (Exact name) tool = (name = tool)"
| "tm_matches rx (Glob _ re) tool = rx_is_match rx re tool"
| "tm_matches rx (ToolRegex _ re) tool = rx_is_match rx re tool"

fun tm_source :: "tool_matcher \<Rightarrow> string" where
  "tm_source (Exact name) = name"
| "tm_source (Glob src _) = src"
| "tm_source (ToolRegex src _) = src"

fun tm_tag :: "tool_matcher \<Rightarrow> nat" where
  "tm_tag (Exact _) = 0"
| "tm_tag (Glob _ _) = 1"
| "tm_tag (ToolRegex _ _) = 2"

definition tm_eq :: "tool_matcher \<Rightarrow> tool_matcher \<Rightarrow> bool" where
  "tm_eq m n = (tm_tag m = tm_tag n \<and> tm_source m = tm_source n)"

section \<open>Tool policy\<close>

datatype tool_policy = AllowAll | Allowlist "tool_matcher list" | Denylist "tool_matcher list"

definition matches_any :: "regex_engine \<Rightarrow> tool_matcher list \<Rightarrow> string \<Rightarrow> bool" where
  "matches_any rx ms name = list_ex (\<lambda>m. tm_matches rx m name) ms"

fun permits :: "regex_engine \<Rightarrow> tool_policy \<Rightarrow> string \<Rightarrow> bool" where
  "permits rx AllowAll name = True"
| "permits rx (Allowlist ms) name = matches_any rx ms name"
| "permits rx (Denylist ms) name = (is_ascii name \<and> \<not> matches_any rx ms name)"

section \<open>JSON paths\<close>

record json_path =
  jp_segments :: "string list"
  jp_source :: string

definition jp_parse :: "string \<Rightarrow> (policy_error, json_path) result" where
  "jp_parse source =
    (let trimmed = trim source; segments = map trim (split_on CHR ''.'' trimmed) in
     if trimmed = [] then Inl (JsonPath_Error PathBlank)
     else if list_ex (\<lambda>s. s = []) segments then Inl (JsonPath_Error (EmptySegment trimmed))
     else if list_ex (\<lambda>s. CHR ''['' \<in> set s \<or> CHR '']'' \<in> set s) segments
       then Inl (JsonPath_Error (ArrayIndexing trimmed))
     else Inr \<lparr>jp_segments = segments, jp_source = trimmed\<rparr>)"

fun jp_walk :: "string list \<Rightarrow> json \<Rightarrow> json option" where
  "jp_walk [] current = Some current"
| "jp_walk (s # ss) current = (case json_get s current of None \<Rightarrow> None | Some v \<Rightarrow> jp_walk ss v)"

definition jp_get :: "json_path \<Rightarrow> json \<Rightarrow> json option" where
  "jp_get p v = jp_walk (jp_segments p) v"

definition jp_get_text :: "serde \<Rightarrow> json_path \<Rightarrow> json \<Rightarrow> string option" where
  "jp_get_text sj p v =
    map_option (\<lambda>node. case node of JString text \<Rightarrow> text | _ \<Rightarrow> sj_print sj node) (jp_get p v)"

definition jp_eq :: "json_path \<Rightarrow> json_path \<Rightarrow> bool" where
  "jp_eq p q = (jp_segments p = jp_segments q)"

section \<open>Deny rules\<close>

definition tool_name_new :: "string \<Rightarrow> (policy_error, string) result" where
  "tool_name_new name =
    (if trim name = [] then Inl (ToolName_Error ToolNameBlank) else Inr (trim name))"

record content_match =
  cm_tool :: "string option"
  cm_path :: "json_path option"
  cm_marker :: pattern

definition cm_new :: "string option \<Rightarrow> pattern \<Rightarrow> content_match" where
  "cm_new tool marker = \<lparr>cm_tool = tool, cm_path = None, cm_marker = marker\<rparr>"

definition cm_with_path :: "content_match \<Rightarrow> json_path \<Rightarrow> content_match" where
  "cm_with_path c p = c\<lparr>cm_path := Some p\<rparr>"

definition cm_matches ::
    "serde \<Rightarrow> regex_engine \<Rightarrow> content_match \<Rightarrow> string option \<Rightarrow> string \<Rightarrow> json option \<Rightarrow> bool" where
  "cm_matches sj rx c name content parsed =
    (if (case cm_tool c of None \<Rightarrow> False | Some tool \<Rightarrow> name \<noteq> Some tool) then False
     else case cm_path c of
       None \<Rightarrow> pattern_matches rx (cm_marker c) content
     | Some p \<Rightarrow>
         (case Option.bind parsed (jp_get_text sj p) of
            None \<Rightarrow> False
          | Some text \<Rightarrow> pattern_matches rx (cm_marker c) text))"

datatype argument_rule = ArgumentRule (ar_match: content_match)
datatype result_rule = ResultRule (rr_match: content_match)

definition ar_matches :: "serde \<Rightarrow> regex_engine \<Rightarrow> argument_rule \<Rightarrow> string \<Rightarrow> string \<Rightarrow> json option \<Rightarrow> bool" where
  "ar_matches sj rx r name arguments parsed = cm_matches sj rx (ar_match r) (Some name) arguments parsed"

definition rr_matches ::
    "serde \<Rightarrow> regex_engine \<Rightarrow> result_rule \<Rightarrow> string option \<Rightarrow> string \<Rightarrow> json option \<Rightarrow> bool" where
  "rr_matches sj rx r name content parsed = cm_matches sj rx (rr_match r) name content parsed"

section \<open>Ruleset, actions, decisions\<close>

record policy_ruleset =
  rs_tools :: tool_policy
  rs_arguments :: "argument_rule list"
  rs_results :: "result_rule list"
  rs_secrets :: "pattern list"

definition ruleset_new :: "tool_policy \<Rightarrow> argument_rule list \<Rightarrow> pattern list \<Rightarrow> policy_ruleset" where
  "ruleset_new t a s = \<lparr>rs_tools = t, rs_arguments = a, rs_results = [], rs_secrets = s\<rparr>"

definition with_result_rules :: "policy_ruleset \<Rightarrow> result_rule list \<Rightarrow> policy_ruleset" where
  "with_result_rules r rs = r\<lparr>rs_results := rs\<rparr>"

definition allow_all :: policy_ruleset where
  "allow_all = ruleset_new AllowAll [] []"

datatype inspected_action =
    ToolCall string string
  | Message string
  | ToolResult "string option" string
  | StateMutation string
  | Other

datatype policy_decision = Allow | Deny string | RedactText string

section \<open>Services\<close>

definition quoted :: "string \<Rightarrow> string" where
  "quoted s = [CHR 0x27] @ s @ [CHR 0x27]"

definition authorize :: "regex_engine \<Rightarrow> tool_policy \<Rightarrow> string \<Rightarrow> policy_decision" where
  "authorize rx p name =
    (if permits rx p name then Allow else Deny (''tool '' @ quoted name @ '' is not permitted''))"

text \<open>The payload is parsed once, and only when some rule has a path.\<close>

definition inspect_arguments ::
    "serde \<Rightarrow> regex_engine \<Rightarrow> argument_rule list \<Rightarrow> string \<Rightarrow> string \<Rightarrow> policy_decision" where
  "inspect_arguments sj rx rules name arguments =
    (let parsed = (if list_ex (\<lambda>r. cm_path (ar_match r) \<noteq> None) rules then parse_ok sj arguments else None) in
     if list_ex (\<lambda>r. ar_matches sj rx r name arguments parsed) rules
     then Deny (''tool '' @ quoted name @ '' arguments matched a blocked pattern'')
     else Allow)"

definition inspect_result ::
    "serde \<Rightarrow> regex_engine \<Rightarrow> result_rule list \<Rightarrow> string option \<Rightarrow> string \<Rightarrow> policy_decision" where
  "inspect_result sj rx rules name content =
    (let parsed = (if list_ex (\<lambda>r. cm_path (rr_match r) \<noteq> None) rules then parse_ok sj content else None) in
     if list_ex (\<lambda>r. rr_matches sj rx r name content parsed) rules
     then Deny (''tool '' @ quoted (case name of None \<Rightarrow> ''unknown'' | Some n \<Rightarrow> n) @
       '' result matched a blocked pattern'')
     else Allow)"

definition detects :: "regex_engine \<Rightarrow> pattern list \<Rightarrow> string \<Rightarrow> bool" where
  "detects rx ps text = list_ex (\<lambda>p. pattern_matches rx p text) ps"

fun redact_loop :: "regex_engine \<Rightarrow> pattern list \<Rightarrow> string \<Rightarrow> bool \<Rightarrow> (string \<times> bool) option" where
  "redact_loop rx [] current redacted = Some (current, redacted)"
| "redact_loop rx (p # ps) current redacted = do {
     (nxt, hit) \<leftarrow> pattern_mask rx p current;
     if hit then redact_loop rx ps nxt True else redact_loop rx ps current redacted
   }"

definition redact :: "regex_engine \<Rightarrow> pattern list \<Rightarrow> string \<Rightarrow> policy_decision option" where
  "redact rx ps text = do {
     (current, redacted) \<leftarrow> redact_loop rx ps text False;
     Some (if redacted then RedactText current else Allow)
   }"

definition evaluate ::
    "serde \<Rightarrow> regex_engine \<Rightarrow> policy_ruleset \<Rightarrow> inspected_action \<Rightarrow> policy_decision option" where
  "evaluate sj rx rs act =
    (case act of
       ToolCall name arguments \<Rightarrow>
         (case authorize rx (rs_tools rs) name of
            Allow \<Rightarrow> Some (inspect_arguments sj rx (rs_arguments rs) name arguments)
          | denied \<Rightarrow> Some denied)
     | ToolResult name content \<Rightarrow>
         (case inspect_result sj rx (rs_results rs) name content of
            Allow \<Rightarrow> redact rx (rs_secrets rs) content
          | denied \<Rightarrow> Some denied)
     | Message text \<Rightarrow> redact rx (rs_secrets rs) text
     | StateMutation content \<Rightarrow>
         Some (if detects rx (rs_secrets rs) content
           then Deny ''state mutation contains a secret pattern that cannot be masked in place''
           else Allow)
     | Other \<Rightarrow> Some Allow)"

text \<open>\<^verbatim>\<open>PolicyService::decide\<close>.\<close>

definition policy_decide ::
    "serde \<Rightarrow> regex_engine \<Rightarrow> policy_ruleset \<Rightarrow> inspected_action \<Rightarrow> policy_decision option" where
  "policy_decide sj rx rs act = evaluate sj rx rs act"

end
