(* ===== verification/Policy_Safety.thy ===== *)
theory Policy_Safety
  imports Policy_Rules
begin

text \<open>
  What the policy crate guarantees: masking ends and leaves no marker behind, the evaluator
  allows exactly what the rules allow, lists of exact names and globs match what they
  are written to match.
\<close>

section \<open>Masking\<close>

text \<open>A marker that the mask itself cannot contain or complete.\<close>

definition maskable :: "string \<Rightarrow> bool" where
  "maskable q \<longleftrightarrow> CHR ''['' \<notin> set q \<and> CHR '']'' \<notin> set q \<and> \<not> sublist q ''redacted''"

lemma sublist_avoid: "x \<notin> set q \<Longrightarrow> sublist q (a @ x # b) \<longleftrightarrow> sublist q a \<or> sublist q b"
proof
  assume x: "x \<notin> set q" and "sublist q (a @ x # b)"
  then consider "sublist q a" | "sublist q (x # b)" | q1 q2 where "q = q1 @ q2" "suffix q1 a" "prefix q2 (x # b)"
    by (auto simp: sublist_append)
  then show "sublist q a \<or> sublist q b"
  proof cases
    case 2
    with x show ?thesis by (auto simp: sublist_Cons_right prefix_Cons)
  next
    case 3
    with x have "q2 = []" by (auto simp: prefix_Cons)
    with 3 show ?thesis by (auto intro: suffix_imp_sublist)
  qed simp
next
  assume "sublist q a \<or> sublist q b"
  then show "sublist q (a @ x # b)"
    by (metis append_Cons sublist_append sublist_Cons_right)
qed

lemma lower_mask: "to_ascii_lowercase REDACTION_MASK = CHR ''['' # ''redacted'' @ [CHR '']'']"
  by code_simp

lemma sublist_mask:
  assumes "maskable q"
  shows "sublist q (a @ to_ascii_lowercase REDACTION_MASK @ b) \<longleftrightarrow> sublist q a \<or> sublist q b"
proof -
  have "sublist q (''redacted'' @ CHR '']'' # b) \<longleftrightarrow> sublist q b"
    using assms by (simp only: maskable_def sublist_avoid simp_thms)
  with assms show ?thesis
    by (simp add: lower_mask maskable_def sublist_avoid)
qed

lemma mask_loop_result:
  assumes "n \<noteq> []"
  shows "\<exists>r. mask_loop n (to_ascii_lowercase hay) hay res m =
      Some (res @ r, m \<or> sublist n (to_ascii_lowercase hay)) \<and>
    (\<not> sublist n (to_ascii_lowercase hay) \<longrightarrow> r = hay) \<and>
    (\<forall>q. maskable q \<longrightarrow> sublist q (to_ascii_lowercase r) \<longrightarrow> sublist q (to_ascii_lowercase hay)) \<and>
    (maskable n \<longrightarrow> \<not> sublist n (to_ascii_lowercase r))"
proof (induction hay arbitrary: res m rule: measure_induct_rule [of length])
  case (less hay)
  let ?lh = "to_ascii_lowercase hay"
  show ?case
  proof (cases "str_find n ?lh")
    case None
    then have "\<not> sublist n ?lh" by (simp add: str_find_None_iff)
    with None show ?thesis by (simp add: mask_loop.simps [of n ?lh])
  next
    case (Some k)
    let ?e = "k + length n"
    have e: "?e \<le> length hay" using str_find_SomeD [OF Some] by simp
    have hit: "sublist n ?lh" using Some str_find_None_iff [of n ?lh] by simp
    have "length (drop ?e hay) < length hay" using e assms by (cases n) auto
    from less.IH [OF this, of "res @ take k hay @ REDACTION_MASK" True] obtain r where
      r: "mask_loop n (drop ?e ?lh) (drop ?e hay) (res @ take k hay @ REDACTION_MASK) True =
          Some ((res @ take k hay @ REDACTION_MASK) @ r, True)"
        "\<forall>q. maskable q \<longrightarrow> sublist q (to_ascii_lowercase r) \<longrightarrow> sublist q (drop ?e ?lh)"
        "maskable n \<longrightarrow> \<not> sublist n (to_ascii_lowercase r)"
      by (auto simp: to_ascii_lowercase_drop)
    let ?r = "take k hay @ REDACTION_MASK @ r"
    have lower_r: "to_ascii_lowercase ?r = take k ?lh @ to_ascii_lowercase REDACTION_MASK @ to_ascii_lowercase r"
      by (simp add: to_ascii_lowercase_take)
    have "mask_loop n ?lh hay res m = Some (res @ ?r, m \<or> sublist n ?lh)"
      using r(1) Some hit by (simp add: mask_loop.simps [of n ?lh] Let_def)
    moreover have "sublist q ?lh" if "maskable q" "sublist q (to_ascii_lowercase ?r)" for q
      using that r(2) unfolding lower_r sublist_mask [OF that(1)]
      by (meson sublist_drop sublist_order.order.trans sublist_take)
    moreover have "\<not> sublist n (to_ascii_lowercase ?r)" if mn: "maskable n"
    proof -
      have "sublist (take k ?lh) (take (k + length n - 1) ?lh)"
      proof -
        have "take k ?lh = take k (take (k + length n - 1) ?lh)" using assms by (cases n) simp_all
        then show ?thesis by (metis sublist_take)
      qed
      with str_find_first [OF Some assms] have "\<not> sublist n (take k ?lh)"
        by (meson sublist_order.order.trans)
      with r(3) mn show ?thesis unfolding lower_r sublist_mask [OF mn] by simp
    qed
    ultimately show ?thesis using hit by (intro exI [of _ ?r]) blast
  qed
qed

lemma mask_literal_result:
  assumes "n \<noteq> []"
  obtains r where "mask_literal hay n = Some (r, pattern_matches rx (Literal n) hay)"
    and "\<not> pattern_matches rx (Literal n) hay \<Longrightarrow> r = hay"
    and "\<And>q. maskable q \<Longrightarrow> sublist q (to_ascii_lowercase r) \<Longrightarrow> sublist q (to_ascii_lowercase hay)"
    and "maskable (to_ascii_lowercase n) \<Longrightarrow> \<not> sublist (to_ascii_lowercase n) (to_ascii_lowercase r)"
proof -
  have "to_ascii_lowercase n \<noteq> []" using assms by (simp add: to_ascii_lowercase_def)
  from mask_loop_result [OF this, of hay "[]" False] obtain r where
    r: "mask_literal hay n = Some (r, pattern_matches rx (Literal n) hay)"
      "\<not> pattern_matches rx (Literal n) hay \<longrightarrow> r = hay"
      "\<forall>q. maskable q \<longrightarrow> sublist q (to_ascii_lowercase r) \<longrightarrow> sublist q (to_ascii_lowercase hay)"
      "maskable (to_ascii_lowercase n) \<longrightarrow> \<not> sublist (to_ascii_lowercase n) (to_ascii_lowercase r)"
    unfolding mask_literal_def by fastforce
  show thesis by (rule that [of r]) (use r in blast)+
qed

text \<open>An empty needle would never end, which the constructor of a literal prevents.\<close>

lemma pattern_literal_Inr: "pattern_literal n = Inr p \<longleftrightarrow> trim n \<noteq> [] \<and> p = Literal n"
  by (auto simp: pattern_literal_def)

lemma trim_Nil [simp]: "trim [] = []"
  by (simp add: trim_def trim_start_id trim_rev_id)

section \<open>Redaction\<close>

definition wf_pattern :: "pattern \<Rightarrow> bool" where
  "wf_pattern p = (case p of Literal n \<Rightarrow> n \<noteq> [] | Regex _ \<Rightarrow> True)"

lemma pattern_literal_wf: "pattern_literal n = Inr p \<Longrightarrow> wf_pattern p"
  by (auto simp: pattern_literal_Inr wf_pattern_def)

lemma pattern_mask_hit:
  assumes "wf_pattern p"
  shows "\<exists>r. pattern_mask rx p text = Some (r, pattern_matches rx p text)"
proof (cases p)
  case (Literal n)
  with assms have "n \<noteq> []" by (simp add: wf_pattern_def)
  then obtain r where "mask_literal text n = Some (r, pattern_matches rx (Literal n) text)"
    by (rule mask_literal_result)
  then show ?thesis unfolding Literal by auto
next
  case (Regex re)
  then show ?thesis by auto
qed

lemma redact_loop_True:
  "list_all wf_pattern ps \<Longrightarrow> \<exists>t. redact_loop rx ps cur True = Some (t, True)"
proof (induction ps arbitrary: cur)
  case (Cons p ps)
  then obtain r where "pattern_mask rx p cur = Some (r, pattern_matches rx p cur)"
    using pattern_mask_hit by fastforce
  with Cons show ?case by simp
qed simp

lemma redact_loop_hit:
  "list_all wf_pattern ps \<Longrightarrow> \<exists>t. redact_loop rx ps cur False = Some (t, detects rx ps cur)"
proof (induction ps)
  case (Cons p ps)
  then obtain r where r: "pattern_mask rx p cur = Some (r, pattern_matches rx p cur)"
    using pattern_mask_hit by fastforce
  show ?case
  proof (cases "pattern_matches rx p cur")
    case True
    with r redact_loop_True [of ps rx r] Cons.prems show ?thesis by (simp add: detects_def)
  next
    case False
    with r Cons show ?thesis by (simp add: detects_def)
  qed
qed (simp add: detects_def)

lemma redact_hit:
  assumes "list_all wf_pattern ps"
  shows "\<exists>t. redact rx ps s = Some (if detects rx ps s then RedactText t else Allow)"
  using redact_loop_hit [OF assms, of rx s] by (auto simp: redact_def)

definition maskable_literal :: "pattern \<Rightarrow> bool" where
  "maskable_literal p = (case p of Literal n \<Rightarrow> maskable (to_ascii_lowercase n) | Regex _ \<Rightarrow> False)"

lemma maskable_literal_wf: "maskable_literal p \<Longrightarrow> wf_pattern p"
  by (auto simp: maskable_literal_def wf_pattern_def maskable_def to_ascii_lowercase_def split: pattern.splits)

lemma redact_loop_clean:
  assumes "list_all maskable_literal ps" and "redact_loop rx ps cur red = Some (t, red')"
  shows "\<not> detects rx ps t \<and>
    (\<forall>q. maskable q \<longrightarrow> sublist q (to_ascii_lowercase t) \<longrightarrow> sublist q (to_ascii_lowercase cur))"
  using assms
proof (induction ps arbitrary: cur red)
  case Nil
  then show ?case by (simp add: detects_def)
next
  case (Cons p ps)
  from Cons.prems(1) obtain n where p: "p = Literal n" "maskable (to_ascii_lowercase n)"
    by (auto simp: maskable_literal_def split: pattern.splits)
  then have "n \<noteq> []" by (auto simp: maskable_def to_ascii_lowercase_def)
  then obtain r where r: "mask_literal cur n = Some (r, pattern_matches rx (Literal n) cur)"
      "\<not> pattern_matches rx (Literal n) cur \<Longrightarrow> r = cur"
      "\<And>q. maskable q \<Longrightarrow> sublist q (to_ascii_lowercase r) \<Longrightarrow> sublist q (to_ascii_lowercase cur)"
      "maskable (to_ascii_lowercase n) \<Longrightarrow> \<not> sublist (to_ascii_lowercase n) (to_ascii_lowercase r)"
    by (rule mask_literal_result) blast
  obtain b where b: "redact_loop rx ps r b = Some (t, red')"
  proof (cases "pattern_matches rx (Literal n) cur")
    case True
    with Cons.prems(2) r(1) show ?thesis by (intro that [of True]) (simp add: p)
  next
    case False
    with Cons.prems(2) r(1,2) show ?thesis by (intro that [of red]) (simp add: p)
  qed
  from Cons.IH [OF _ b] Cons.prems(1) have
    ih: "\<not> detects rx ps t" "\<And>q. maskable q \<Longrightarrow> sublist q (to_ascii_lowercase t) \<Longrightarrow> sublist q (to_ascii_lowercase r)"
    by auto
  have "\<not> pattern_matches rx p t" using ih(2) p r(4) by auto
  with ih r(3) show ?case by (auto simp: detects_def)
qed

section \<open>Evaluation\<close>

text \<open>What the rules say, without the order of checks and the shared parse.  A rule looks at the whole payload
  or at the value its path leads to, if any; it fires when it is about every tool or this one and its marker occurs there.\<close>

definition rule_text :: "serde \<Rightarrow> content_match \<Rightarrow> string \<Rightarrow> string option" where
  "rule_text sj c content =
    (case cm_path c of None \<Rightarrow> Some content | Some p \<Rightarrow> Option.bind (parse_ok sj content) (jp_get_text sj p))"

definition match_fires :: "serde \<Rightarrow> regex_engine \<Rightarrow> content_match \<Rightarrow> string option \<Rightarrow> string \<Rightarrow> bool" where
  "match_fires sj rx c name content \<longleftrightarrow>
    (cm_tool c = None \<or> cm_tool c = name) \<and> list_ex (pattern_matches rx (cm_marker c)) (case rule_text sj c content of None \<Rightarrow> [] | Some s \<Rightarrow> [s])"

definition argument_rule_fires ::
    "serde \<Rightarrow> regex_engine \<Rightarrow> argument_rule \<Rightarrow> string \<Rightarrow> string \<Rightarrow> bool" where
  "argument_rule_fires sj rx r name arguments = match_fires sj rx (ar_match r) (Some name) arguments"

definition result_rule_fires ::
    "serde \<Rightarrow> regex_engine \<Rightarrow> result_rule \<Rightarrow> string option \<Rightarrow> string \<Rightarrow> bool" where
  "result_rule_fires sj rx r name content = match_fires sj rx (rr_match r) name content"

lemma cm_matches_fires: "cm_matches sj rx c name s (parse_ok sj s) = match_fires sj rx c name s"
  by (auto simp: cm_matches_def match_fires_def rule_text_def split: option.splits)

lemma cm_matches_no_path: "cm_path c = None \<Longrightarrow> cm_matches sj rx c name s p = match_fires sj rx c name s"
  by (auto simp: cm_matches_def match_fires_def rule_text_def split: option.splits)

lemma inspect_arguments_Allow:
  "inspect_arguments sj rx rules name arguments = Allow \<longleftrightarrow>
    list_all (\<lambda>r. \<not> argument_rule_fires sj rx r name arguments) rules"
proof (cases "list_ex (\<lambda>r. cm_path (ar_match r) \<noteq> None) rules")
  case True
  then show ?thesis
    by (simp add: inspect_arguments_def argument_rule_fires_def ar_matches_def cm_matches_fires Let_def list_all_iff list_ex_iff)
next
  case False
  then have "cm_path (ar_match r) = None" if "r \<in> set rules" for r using that by (auto simp: list_ex_iff)
  then have "ar_matches sj rx r name arguments None = argument_rule_fires sj rx r name arguments"
    if "r \<in> set rules" for r
    unfolding argument_rule_fires_def ar_matches_def by (rule cm_matches_no_path) (use that in blast)
  with False show ?thesis
    by (auto simp: inspect_arguments_def Let_def list_all_iff list_ex_iff)
qed

lemma inspect_result_Allow:
  "inspect_result sj rx rules name content = Allow \<longleftrightarrow>
    list_all (\<lambda>r. \<not> result_rule_fires sj rx r name content) rules"
proof (cases "list_ex (\<lambda>r. cm_path (rr_match r) \<noteq> None) rules")
  case True
  then show ?thesis
    by (simp add: inspect_result_def result_rule_fires_def rr_matches_def cm_matches_fires Let_def list_all_iff list_ex_iff)
next
  case False
  then have "cm_path (rr_match r) = None" if "r \<in> set rules" for r using that by (auto simp: list_ex_iff)
  then have "rr_matches sj rx r name content None = result_rule_fires sj rx r name content"
    if "r \<in> set rules" for r
    unfolding result_rule_fires_def rr_matches_def by (rule cm_matches_no_path) (use that in blast)
  with False show ?thesis
    by (auto simp: inspect_result_def Let_def list_all_iff list_ex_iff)
qed

lemma inspect_not_RedactText [simp]:
  "inspect_arguments sj rx ar name a \<noteq> RedactText t" "inspect_result sj rx rr nm c \<noteq> RedactText t"
  "authorize rx p name \<noteq> RedactText t"
  by (simp_all add: inspect_arguments_def inspect_result_def authorize_def Let_def)

lemma authorize_Allow [simp]: "authorize rx p name = Allow \<longleftrightarrow> permits rx p name"
  by (simp add: authorize_def)

definition spec_allows :: "serde \<Rightarrow> regex_engine \<Rightarrow> policy_ruleset \<Rightarrow> inspected_action \<Rightarrow> bool" where
  "spec_allows sj rx rs act =
    (case act of
       ToolCall name arguments \<Rightarrow>
         permits rx (rs_tools rs) name \<and>
         list_all (\<lambda>r. \<not> argument_rule_fires sj rx r name arguments) (rs_arguments rs)
     | ToolResult name content \<Rightarrow>
         list_all (\<lambda>r. \<not> result_rule_fires sj rx r name content) (rs_results rs) \<and>
         \<not> detects rx (rs_secrets rs) content
     | Message s \<Rightarrow> \<not> detects rx (rs_secrets rs) s
     | StateMutation content \<Rightarrow> \<not> detects rx (rs_secrets rs) content
     | Other \<Rightarrow> True)"

definition spec_redacts :: "serde \<Rightarrow> regex_engine \<Rightarrow> policy_ruleset \<Rightarrow> inspected_action \<Rightarrow> bool" where
  "spec_redacts sj rx rs act =
    (case act of
       ToolResult name content \<Rightarrow>
         list_all (\<lambda>r. \<not> result_rule_fires sj rx r name content) (rs_results rs) \<and>
         detects rx (rs_secrets rs) content
     | Message s \<Rightarrow> detects rx (rs_secrets rs) s
     | _ \<Rightarrow> False)"

lemma evaluate_refines:
  assumes "list_all wf_pattern (rs_secrets rs)"
  shows "\<exists>d. policy_decide sj rx rs act = Some d \<and>
    (d = Allow \<longleftrightarrow> spec_allows sj rx rs act) \<and> ((\<exists>t. d = RedactText t) \<longleftrightarrow> spec_redacts sj rx rs act)"
proof (cases act)
  case (ToolCall name arguments)
  then show ?thesis
    by (auto simp: policy_decide_def evaluate_def spec_allows_def spec_redacts_def
        inspect_arguments_Allow [symmetric] authorize_def split: policy_decision.splits)
next
  case (Message s)
  with redact_hit [OF assms, of rx s] show ?thesis
    by (auto simp: policy_decide_def evaluate_def spec_allows_def spec_redacts_def)
next
  case (ToolResult name content)
  from redact_hit [OF assms, of rx content] obtain t where
    t: "redact rx (rs_secrets rs) content = Some (if detects rx (rs_secrets rs) content then RedactText t else Allow)"
    by blast
  show ?thesis
  proof (cases "inspect_result sj rx (rs_results rs) name content")
    case Allow
    with t ToolResult show ?thesis
      by (auto simp: policy_decide_def evaluate_def spec_allows_def spec_redacts_def inspect_result_Allow [symmetric])
  next
    case (Deny e)
    then have "\<not> list_all (\<lambda>r. \<not> result_rule_fires sj rx r name content) (rs_results rs)"
      by (simp add: inspect_result_Allow [symmetric])
    with Deny ToolResult show ?thesis
      by (simp add: policy_decide_def evaluate_def spec_allows_def spec_redacts_def)
  qed simp
next
  case (StateMutation content)
  then show ?thesis
    by (auto simp: policy_decide_def evaluate_def spec_allows_def spec_redacts_def)
next
  case Other
  then show ?thesis
    by (simp add: policy_decide_def evaluate_def spec_allows_def spec_redacts_def)
qed

lemma redact_clean:
  assumes "list_all maskable_literal ps" and "redact rx ps s = Some (RedactText t)"
  shows "\<not> detects rx ps t"
  using assms redact_loop_clean [OF assms(1), of rx s False]
  by (auto simp: redact_def split: bind_splits if_splits)

section \<open>Globs\<close>

text \<open>The fragment of regular expressions that globs compile to, with the meaning the \<^verbatim>\<open>regex\<close>
  crate documents for it on ASCII text: an escaped literal matches itself, \<^verbatim>\<open>.\<close> matches any
  character except a line feed, \<^verbatim>\<open>*\<close> repeats, \<^verbatim>\<open>^\<close> and \<^verbatim>\<open>$\<close> anchor at both ends.\<close>

datatype glob_token = Run string | AnyRun | AnyChar

fun render :: "regex_engine \<Rightarrow> glob_token list \<Rightarrow> string" where
  "render rx [] = []"
| "render rx (Run l # ts) = rx_escape rx l @ render rx ts"
| "render rx (AnyRun # ts) = ''.*'' @ render rx ts"
| "render rx (AnyChar # ts) = ''.'' @ render rx ts"

fun run_match :: "(string \<Rightarrow> bool) \<Rightarrow> string \<Rightarrow> bool" where
  "run_match k [] = k []"
| "run_match k (c # s) = (k (c # s) \<or> (c \<noteq> CHR 0x0A \<and> run_match k s))"

fun tokens_match :: "glob_token list \<Rightarrow> string \<Rightarrow> bool" where
  "tokens_match [] s = (s = [])"
| "tokens_match (Run l # ts) s = (prefix l s \<and> tokens_match ts (drop (length l) s))"
| "tokens_match (AnyChar # ts) s = (case s of [] \<Rightarrow> False | c # r \<Rightarrow> c \<noteq> CHR 0x0A \<and> tokens_match ts r)"
| "tokens_match (AnyRun # ts) s = run_match (tokens_match ts) s"

fun wf_token :: "glob_token \<Rightarrow> bool" where
  "wf_token (Run l) = (l \<noteq> [] \<and> is_ascii l)"
| "wf_token _ = True"

definition regex_documented :: "regex_engine \<Rightarrow> bool" where
  "regex_documented rx \<longleftrightarrow>
    (\<forall>ts s. list_all wf_token ts \<longrightarrow> is_ascii s \<longrightarrow>
      rx_compile rx (''^'' @ render rx ts @ ''$'') = None \<and>
      rx_is_match rx (''^'' @ render rx ts @ ''$'') s = tokens_match ts s)"

text \<open>The same fragment, read off the glob character by character.\<close>

fun line_glob :: "string \<Rightarrow> string \<Rightarrow> bool" where
  "line_glob [] s = (s = [])"
| "line_glob (g # gs) s =
    (if g = CHR ''*'' then run_match (line_glob gs) s
     else case s of
       [] \<Rightarrow> False
     | c # r \<Rightarrow> (if g = CHR ''?'' then c \<noteq> CHR 0x0A else c = g) \<and> line_glob gs r)"

text \<open>What the documentation of \<^verbatim>\<open>ToolMatcher\<close> says a glob means: a star is any run, a question mark any one character,
  everything else is literal.\<close>

fun any_run :: "(string \<Rightarrow> bool) \<Rightarrow> string \<Rightarrow> bool" where
  "any_run k [] = k []"
| "any_run k (c # s) = (k (c # s) \<or> any_run k s)"

fun glob_match :: "string \<Rightarrow> string \<Rightarrow> bool" where
  "glob_match [] s = (s = [])"
| "glob_match (g # gs) s =
    (if g = CHR ''*'' then any_run (glob_match gs) s
     else case s of
       [] \<Rightarrow> False
     | c # r \<Rightarrow> (g = CHR ''?'' \<or> c = g) \<and> glob_match gs r)"

lemma run_match_any:
  assumes "run_match k s" and "\<And>r. suffix r s \<Longrightarrow> k r \<Longrightarrow> k' r"
  shows "any_run k' s"
  using assms by (induction s) (auto simp: suffix_Cons)

lemma any_run_match:
  assumes "any_run k s" and "CHR 0x0A \<notin> set s" and "\<And>r. suffix r s \<Longrightarrow> k r \<Longrightarrow> k' r"
  shows "run_match k' s"
  using assms by (induction s) (auto simp: suffix_Cons)

lemma line_glob_sound: "line_glob g s \<Longrightarrow> glob_match g s"
proof (induction g arbitrary: s)
  case (Cons c g)
  then show ?case by (auto split: if_splits list.splits intro: run_match_any)
qed simp

lemma line_glob_complete: "glob_match g s \<Longrightarrow> CHR 0x0A \<notin> set s \<Longrightarrow> line_glob g s"
proof (induction g arbitrary: s)
  case (Cons c g)
  have "line_glob g r" if "suffix r s" "glob_match g r" for r
    using that Cons.IH Cons.prems(2) set_mono_suffix by blast
  with Cons show ?case by (auto split: if_splits list.splits intro: any_run_match)
qed simp

fun tokens_of :: "string \<Rightarrow> string \<Rightarrow> glob_token list" where
  "tokens_of [] l = (if l = [] then [] else [Run l])"
| "tokens_of (g # gs) l =
    (if g = CHR ''*'' then (if l = [] then [] else [Run l]) @ AnyRun # tokens_of gs []
     else if g = CHR ''?'' then (if l = [] then [] else [Run l]) @ AnyChar # tokens_of gs []
     else tokens_of gs (l @ [g]))"

lemma glob_loop_render: "glob_loop rx g l re = re @ render rx (tokens_of g l) @ ''$''"
  by (induction g arbitrary: l re) (auto simp: flush_def)

lemma is_ascii_simps [simp]: "is_ascii []" "is_ascii (c # s) \<longleftrightarrow> (of_char c :: nat) < 128 \<and> is_ascii s"
    "is_ascii (s @ t) \<longleftrightarrow> is_ascii s \<and> is_ascii t"
  by (simp_all add: is_ascii_def)

lemma tokens_of_wf: "is_ascii g \<Longrightarrow> is_ascii l \<Longrightarrow> list_all wf_token (tokens_of g l)"
  by (induction g arbitrary: l) auto

lemma prefix_snoc_iff: "prefix (l @ [g]) s \<longleftrightarrow> prefix l s \<and> (\<exists>r. drop (length l) s = g # r)"
  by (auto simp: prefix_def)

lemma run_match_cong: "(\<And>r. f r = h r) \<Longrightarrow> run_match f s = run_match h s"
  by (induction s) auto

lemma tokens_of_match: "tokens_match (tokens_of g l) s \<longleftrightarrow> prefix l s \<and> line_glob g (drop (length l) s)"
proof (induction g arbitrary: l s)
  case Nil
  show ?case by (auto simp: prefix_def)
next
  case (Cons c g)
  have step: "tokens_match (tokens_of g []) = line_glob g" by (rule ext) (simp add: Cons.IH)
  show ?case
  proof (cases "c = CHR ''*'' \<or> c = CHR ''?''")
    case True
    then show ?thesis by (cases "l = []") (auto simp: step split: list.splits)
  next
    case False
    then show ?thesis
      by (auto simp: Cons.IH prefix_snoc_iff drop_Suc tl_drop [symmetric] split: list.splits)
  qed
qed

lemma tm_glob_documented:
  assumes "regex_documented rx" and "trim g \<noteq> []" and "is_ascii g"
  shows "\<exists>m. tm_glob rx g = Inr m \<and> (\<forall>name. is_ascii name \<longrightarrow> tm_matches rx m name = line_glob g name)"
proof -
  have g: "glob_to_regex rx g = ''^'' @ render rx (tokens_of g []) @ ''$''"
    by (simp add: glob_to_regex_def glob_loop_render)
  have wf: "list_all wf_token (tokens_of g [])" using assms(3) by (simp add: tokens_of_wf)
  have comp: "rx_compile rx (glob_to_regex rx g) = None" unfolding g
    using assms(1) wf is_ascii_simps(1) unfolding regex_documented_def by blast
  have "rx_is_match rx (glob_to_regex rx g) name = line_glob g name" if "is_ascii name" for name
    using assms(1) wf that tokens_of_match [of g "[]" name] unfolding g regex_documented_def by simp
  with comp assms(2) show ?thesis
    by (auto simp: tm_glob_def compile_def)
qed

section \<open>A matcher for the glob fragment\<close>

text \<open>Shows that the documented behaviour is satisfiable; meta characters are escaped by a backslash.\<close>

definition demo_meta :: "char \<Rightarrow> bool" where
  "demo_meta c = (c \<in> set ([CHR 0x5C] @ ''.+*?()|[]{}^$#&-~''))"

definition demo_escape :: "string \<Rightarrow> string" where
  "demo_escape s = concat (map (\<lambda>c. if demo_meta c then [CHR 0x5C, c] else [c]) s)"

fun demo_parse :: "string \<Rightarrow> glob_token list" where
  "demo_parse [] = []"
| "demo_parse [c] = (if c = CHR ''.'' then [AnyChar] else if c = CHR ''$'' then [] else [Run [c]])"
| "demo_parse (c # d # r) =
    (if c = CHR 0x5C then Run [d] # demo_parse r
     else if c = CHR ''.'' \<and> d = CHR ''*'' then AnyRun # demo_parse r
     else if c = CHR ''.'' then AnyChar # demo_parse (d # r)
     else Run [c] # demo_parse (d # r))"

definition demo_regex :: regex_engine where
  "demo_regex = \<lparr>rx_compile = \<lambda>_. None,
     rx_is_match = \<lambda>re s. (case re of [] \<Rightarrow> False | c # r \<Rightarrow> c = CHR ''^'' \<and> tokens_match (demo_parse r) s),
     rx_replace_all = \<lambda>re s m. s, rx_escape = demo_escape\<rparr>"

lemma demo_regex_simps [simp]:
  "rx_compile demo_regex re = None" "rx_escape demo_regex = demo_escape"
  "rx_is_match demo_regex (c # r) s \<longleftrightarrow> c = CHR ''^'' \<and> tokens_match (demo_parse r) s"
  by (simp_all add: demo_regex_def)

lemma demo_parse_escape:
  "r \<noteq> [] \<Longrightarrow> demo_parse (demo_escape l @ r) = map (\<lambda>c. Run [c]) l @ demo_parse r"
proof (induction l)
  case (Cons c l)
  have "demo_escape l @ r \<noteq> []" using Cons.prems by simp
  then obtain d t where d: "demo_escape l @ r = d # t" by (cases "demo_escape l @ r") auto
  have "demo_parse (c # d # t) = Run [c] # demo_parse (d # t)" if "\<not> demo_meta c"
    using that by (auto simp: demo_meta_def)
  with Cons d show ?case by (auto simp: demo_escape_def)
qed (simp add: demo_escape_def)

lemma demo_escape_not_star: "render demo_regex ts @ ''$'' \<noteq> CHR ''*'' # r"
proof (induction ts arbitrary: r)
  case (Cons t ts)
  show ?case
  proof (cases t)
    case (Run l)
    with Cons show ?thesis by (cases l) (auto simp: demo_escape_def demo_meta_def)
  qed auto
qed auto

lemma demo_parse_dot: "render demo_regex ts @ ''$'' = d # r \<Longrightarrow> demo_parse (CHR ''.'' # d # r) = AnyChar # demo_parse (d # r)"
  using demo_escape_not_star [of ts r] by auto

lemma tokens_match_chars: "tokens_match (map (\<lambda>c. Run [c]) l @ ts) s \<longleftrightarrow> prefix l s \<and> tokens_match ts (drop (length l) s)"
proof (induction l arbitrary: s)
  case (Cons a l)
  then show ?case by (cases s) auto
qed simp

lemma demo_match: "tokens_match (demo_parse (render demo_regex ts @ ''$'')) s = tokens_match ts s"
proof (induction ts arbitrary: s)
  case (Cons t ts)
  obtain d r where d: "render demo_regex ts @ ''$'' = d # r" by (cases "render demo_regex ts @ ''$''") auto
  have ih: "tokens_match (demo_parse (render demo_regex ts @ ''$'')) = tokens_match ts" by (rule ext) (rule Cons.IH)
  show ?case
  proof (cases t)
    case (Run l)
    then show ?thesis
      using demo_parse_escape [of "render demo_regex ts @ ''$''" l] by (simp add: tokens_match_chars Cons.IH)
  next
    case AnyRun
    have "demo_parse (CHR ''.'' # CHR ''*'' # render demo_regex ts @ ''$'') = AnyRun # demo_parse (render demo_regex ts @ ''$'')"
      by simp
    with AnyRun show ?thesis by (simp add: ih del: demo_parse.simps)
  next
    case AnyChar
    with demo_parse_dot [OF d] d Cons.IH show ?thesis by (simp split: list.splits)
  qed
qed simp

lemma demo_regex_documented: "regex_documented demo_regex"
  by (simp add: regex_documented_def demo_match)

definition demo_serde :: serde where
  "demo_serde = \<lparr>sj_parse = \<lambda>_. Inl ''expected value'', sj_print = \<lambda>_. ''null''\<rparr>"

section \<open>Properties\<close>

lemma policy_keeps_secrets:
  assumes "list_all wf_pattern (rs_secrets rs)"
    and "act \<in> {Message s, ToolResult name s, StateMutation s}"
  shows "\<exists>d. policy_decide sj rx rs act = Some d \<and>
    (case d of
       Allow \<Rightarrow> \<not> detects rx (rs_secrets rs) s
     | RedactText t \<Rightarrow> list_all maskable_literal (rs_secrets rs) \<longrightarrow> \<not> detects rx (rs_secrets rs) t
     | Deny _ \<Rightarrow> True)"
proof -
  obtain d where d: "policy_decide sj rx rs act = Some d" "d = Allow \<longleftrightarrow> spec_allows sj rx rs act"
    using evaluate_refines [OF assms(1)] by blast
  have "\<not> detects rx (rs_secrets rs) t" if "d = RedactText t" "list_all maskable_literal (rs_secrets rs)" for t
    using assms(2) d(1) that(1) redact_clean [OF that(2), of rx s t]
    by (auto simp: policy_decide_def evaluate_def split: policy_decision.splits if_splits)
  moreover have "\<not> detects rx (rs_secrets rs) s" if "d = Allow"
    using assms(2) d(2) that by (auto simp: spec_allows_def)
  ultimately show ?thesis using d(1) by (auto split: policy_decision.splits)
qed

text \<open>C5: No text in which a configured secret is detected passes the built-in policy unchanged.  For every ruleset whose
  literals are not empty the policy returns a decision on a message, tool result or state mutation, and what it allows
  matches no secret pattern, literal (compared without ASCII case) or regular expression.  When every secret is a literal
  that the mask \<^verbatim>\<open>[redacted]\<close> cannot spell (no bracket, no part of the word), the text it substitutes
  contains no secret either, not even where two masked pieces meet.\<close>

theorem no_secret_passes_policy:
  assumes "list_all wf_pattern (rs_secrets rs)"
    and "act \<in> {Message s, ToolResult name s, StateMutation s}"
  shows "\<exists>d. policy_decide sj rx rs act = Some d \<and>
    (case d of
       Allow \<Rightarrow> \<not> detects rx (rs_secrets rs) s
     | RedactText t \<Rightarrow> list_all maskable_literal (rs_secrets rs) \<longrightarrow> \<not> detects rx (rs_secrets rs) t
     | Deny _ \<Rightarrow> True)"
  by (rule policy_keeps_secrets [OF assms])

definition demo_rules :: policy_ruleset where
  "demo_rules = ruleset_new AllowAll [] [Literal ''sk-'', Literal ''token'']"

theorem no_secret_passes_policy_witness:
  "\<exists>d. policy_decide demo_serde demo_regex demo_rules (Message ''use SK-sk-1'') = Some d \<and>
    (case d of
       Allow \<Rightarrow> \<not> detects demo_regex (rs_secrets demo_rules) ''use SK-sk-1''
     | RedactText t \<Rightarrow> \<not> detects demo_regex (rs_secrets demo_rules) t
     | Deny _ \<Rightarrow> True)"
proof -
  have "list_all wf_pattern (rs_secrets demo_rules)" by code_simp
  then have "\<exists>d. policy_decide demo_serde demo_regex demo_rules (Message ''use SK-sk-1'') = Some d \<and>
    (case d of
       Allow \<Rightarrow> \<not> detects demo_regex (rs_secrets demo_rules) ''use SK-sk-1''
     | RedactText t \<Rightarrow> list_all maskable_literal (rs_secrets demo_rules) \<longrightarrow> \<not> detects demo_regex (rs_secrets demo_rules) t
     | Deny _ \<Rightarrow> True)"
    by (rule no_secret_passes_policy) simp
  moreover have "list_all maskable_literal (rs_secrets demo_rules)" by code_simp
  ultimately show ?thesis by (simp only: simp_thms)
qed

text \<open>C11: The evaluator implements the rules: for every ruleset whose literals are not empty it
  returns a decision; it allows an action exactly when the rules do (name list and argument
  rules for a call, result rules and secrets for a result, secrets for text and state) and rewrites
  text exactly for messages and results that clear the deny rules and contain a secret.
  Parsing the payload only when a rule has a path makes no difference.\<close>

theorem policy_implements_rules:
  assumes "list_all wf_pattern (rs_secrets rs)"
  shows "\<exists>d. policy_decide sj rx rs act = Some d \<and>
    (d = Allow \<longleftrightarrow> spec_allows sj rx rs act) \<and> ((\<exists>t. d = RedactText t) \<longleftrightarrow> spec_redacts sj rx rs act)"
  by (rule evaluate_refines [OF assms])

theorem policy_implements_rules_witness:
  "\<exists>d. policy_decide demo_serde demo_regex demo_rules (StateMutation ''a TOKEN'') = Some d \<and> d \<noteq> Allow \<and>
    (\<forall>t. d \<noteq> RedactText t)"
proof -
  have "list_all wf_pattern (rs_secrets demo_rules)" by code_simp
  from policy_implements_rules [OF this, of demo_serde demo_regex "StateMutation ''a TOKEN''"]
  obtain d where d: "policy_decide demo_serde demo_regex demo_rules (StateMutation ''a TOKEN'') = Some d"
      "d = Allow \<longleftrightarrow> spec_allows demo_serde demo_regex demo_rules (StateMutation ''a TOKEN'')"
      "(\<exists>t. d = RedactText t) \<longleftrightarrow> spec_redacts demo_serde demo_regex demo_rules (StateMutation ''a TOKEN'')" by blast
  have "\<not> spec_allows demo_serde demo_regex demo_rules (StateMutation ''a TOKEN'')" by code_simp
  moreover have "\<not> spec_redacts demo_serde demo_regex demo_rules (StateMutation ''a TOKEN'')" by code_simp
  ultimately show ?thesis using d by blast
qed

text \<open>Name lists built from exact entries mean what they say: an allowlist permits exactly the
  trimmed entries; a denylist permits exactly the ASCII names that are not a trimmed
  entry, so a name with any non-ASCII character is denied whatever the list holds.\<close>

lemma exact_lists_permit:
  assumes "list_all (\<lambda>n. trim n \<noteq> []) names"
  shows "\<exists>ms. map tm_exact names = map Inr ms \<and>
    (\<forall>tool. permits rx (Allowlist ms) tool \<longleftrightarrow> tool \<in> trim ` set names) \<and>
    (\<forall>tool. permits rx (Denylist ms) tool \<longleftrightarrow> is_ascii tool \<and> tool \<notin> trim ` set names)"
  using assms
  by (intro exI [of _ "map (\<lambda>n. Exact (trim n)) names"])
    (auto simp: tm_exact_def matches_any_def list_ex_iff list_all_iff)

text \<open>C29: A glob entry over ASCII text compiles, and its compiled form agrees with the documented meaning of the
  glob, the star standing for any run, the question mark for any one character and every other character for itself, on
  every ASCII tool name that has no line feed; on an ASCII name that has one it never matches more than the glob does.
  The regular expression engine is relied on only for the fragment that globs compile to, on ASCII text.\<close>

theorem glob_entry_correct:
  assumes "regex_documented rx" and "trim g \<noteq> []" and "is_ascii g"
  shows "\<exists>m. tm_glob rx g = Inr m \<and>
    (\<forall>name. is_ascii name \<longrightarrow> CHR 0x0A \<notin> set name \<longrightarrow> tm_matches rx m name = glob_match g name) \<and>
    (\<forall>name. is_ascii name \<longrightarrow> tm_matches rx m name \<longrightarrow> glob_match g name)"
  using tm_glob_documented [OF assms] line_glob_sound line_glob_complete by metis

theorem glob_entry_correct_witness:
  "\<exists>m. tm_glob demo_regex ''fs.*'' = Inr m \<and> tm_matches demo_regex m ''fs.read'' \<and>
    \<not> tm_matches demo_regex m ''fsXread''"
proof -
  have "trim ''fs.*'' \<noteq> []" by code_simp
  moreover have "is_ascii ''fs.*''" by code_simp
  ultimately obtain m where m: "tm_glob demo_regex ''fs.*'' = Inr m"
      "\<forall>name. is_ascii name \<longrightarrow> CHR 0x0A \<notin> set name \<longrightarrow> tm_matches demo_regex m name = glob_match ''fs.*'' name"
    using glob_entry_correct [OF demo_regex_documented] by blast
  have "is_ascii ''fs.read'' \<and> is_ascii ''fsXread'' \<and> glob_match ''fs.*'' ''fs.read'' \<and> \<not> glob_match ''fs.*'' ''fsXread''"
    by code_simp
  moreover have "CHR 0x0A \<notin> set ''fs.read'' \<and> CHR 0x0A \<notin> set ''fsXread''" by code_simp
  ultimately show ?thesis using m by blast
qed

lemma line_glob_prefix_newline:
  assumes "is_ascii p" and "CHR ''*'' \<notin> set p" and "CHR ''?'' \<notin> set p"
  shows "line_glob (p @ ''*'') (p @ CHR 0x0A # s) = False"
  using assms by (induction p) auto

text \<open>C30: A denylist glob of the form \<^verbatim>\<open>prefix*\<close> does not cover every name with that prefix: a name that
  has a line feed after the prefix is not matched and the denylist permits it.\<close>

theorem denylist_glob_misses_newline:
  assumes "regex_documented rx" and "is_ascii p" and "CHR ''*'' \<notin> set p" and "CHR ''?'' \<notin> set p"
    and "is_ascii s" and "trim (p @ ''*'') \<noteq> []"
  shows "\<exists>m. tm_glob rx (p @ ''*'') = Inr m \<and> permits rx (Denylist [m]) (p @ CHR 0x0A # s)"
proof -
  obtain m where m: "tm_glob rx (p @ ''*'') = Inr m"
      "\<forall>name. is_ascii name \<longrightarrow> tm_matches rx m name = line_glob (p @ ''*'') name"
    using tm_glob_documented [OF assms(1,6)] assms(2) by auto
  have "is_ascii (p @ CHR 0x0A # s)" using assms(2,5) by simp
  with m assms show ?thesis by (auto simp: matches_any_def line_glob_prefix_newline)
qed

theorem denylist_glob_misses_newline_witness:
  "\<exists>m. tm_glob demo_regex ''fs.*'' = Inr m \<and> permits demo_regex (Denylist [m]) (''fs.'' @ CHR 0x0A # ''read'')"
proof -
  have "trim (''fs.'' @ ''*'') \<noteq> []" by code_simp
  moreover have "is_ascii ''fs.'' \<and> is_ascii ''read''" by code_simp
  ultimately show ?thesis
    using denylist_glob_misses_newline [OF demo_regex_documented, of "''fs.''" "''read''"] by simp
qed

end
