(* ===== verification/Policy_Adapters.thy ===== *)
theory Policy_Adapters
  imports Policy_Safety Stream_Proxy
begin

text \<open>
  The policy bridge of the server crate (\<^verbatim>\<open>crates/agate-server/src/infrastructure/policy\<close>): the three
  backends of the proxy's policy port.  \<^verbatim>\<open>PolicyAdapter\<close> asks the static ruleset,
  \<^verbatim>\<open>CelPolicyAdapter\<close> evaluates CEL rules in order, \<^verbatim>\<open>RegoPolicyAdapter\<close> evaluates one Rego decision; all
  lift a decision onto a verdict in the same way.  The CEL and Rego interpreters, TOML, and the file
  system are the fields of parameters; an interpreter that panics is one that returns \<^term>\<open>None\<close>.
\<close>

section \<open>The common lift\<close>

definition lift_decision :: "agent_event \<Rightarrow> policy_decision \<Rightarrow> agent_event verdict" where
  "lift_decision e d =
    (case d of
       Allow \<Rightarrow> V_Allow
     | Deny reason \<Rightarrow> V_Deny reason
     | RedactText t \<Rightarrow>
         (case e of
            E_MessageChunk message _ \<Rightarrow> V_Transform (E_MessageChunk message t)
          | E_ToolResult i name _ \<Rightarrow> V_Transform (E_ToolResult i name t)
          | _ \<Rightarrow> V_Deny ''redaction not applicable to this event kind''))"

section \<open>The static ruleset\<close>

fun to_action :: "agent_event \<Rightarrow> inspected_action" where
  "to_action (E_ToolCall _ name arguments) = ToolCall name arguments"
| "to_action (E_MessageChunk _ t) = Message t"
| "to_action (E_ToolResult _ name content) = ToolResult name content"
| "to_action (E_StateMutation m) = StateMutation (payload m)"
| "to_action (E_Lifecycle _) = Other"
| "to_action (E_Opaque _) = Other"

definition adapter_decide ::
    "serde \<Rightarrow> regex_engine \<Rightarrow> policy_ruleset \<Rightarrow> inspection_context \<Rightarrow> agent_event \<Rightarrow> agent_event verdict option" where
  "adapter_decide sj rx rs c e = map_option (lift_decision e) (policy_decide sj rx rs (to_action e))"

section \<open>The view of an event\<close>

text \<open>\<^verbatim>\<open>Map::insert\<close>: a present key keeps its place.\<close>

fun obj_insert :: "string \<Rightarrow> json \<Rightarrow> (string \<times> json) list \<Rightarrow> (string \<times> json) list" where
  "obj_insert k v [] = [(k, v)]"
| "obj_insert k v ((j, w) # m) = (if j = k then (k, v) # m else (j, w) # obj_insert k v m)"

definition parsed :: "serde \<Rightarrow> string \<Rightarrow> json" where
  "parsed sj raw = (case sj_parse sj raw of Inl _ \<Rightarrow> JNull | Inr v \<Rightarrow> v)"

definition json_opt :: "string option \<Rightarrow> json" where
  "json_opt x = (case x of None \<Rightarrow> JNull | Some s \<Rightarrow> JString s)"

definition action_value :: "serde \<Rightarrow> agent_event \<Rightarrow> json" where
  "action_value sj e =
    (let m = fold (\<lambda>k. obj_insert k JNull)
         [''name'', ''arguments'', ''arguments_json'', ''text'', ''content'', ''content_json'', ''state_json''] [] in
     case (case e of
         E_ToolCall _ name arguments \<Rightarrow>
           (obj_insert ''arguments_json'' (parsed sj arguments)
             (obj_insert ''arguments'' (JString arguments) (obj_insert ''name'' (JString name) m)), ''tool_call'')
       | E_MessageChunk _ t \<Rightarrow> (obj_insert ''text'' (JString t) m, ''message'')
       | E_ToolResult _ name content \<Rightarrow>
           (obj_insert ''content_json'' (parsed sj content)
             (obj_insert ''content'' (JString content) (obj_insert ''name'' (json_opt name) m)), ''tool_result'')
       | E_StateMutation mu \<Rightarrow> (obj_insert ''state_json'' (parsed sj (payload mu)) m, ''state'')
       | _ \<Rightarrow> (m, ''other'')) of
       (m', kind) \<Rightarrow> JObject (obj_insert ''kind'' (JString kind) m'))"

text \<open>\<^verbatim>\<open>sh\<close> prints a UUID.\<close>

definition run_context :: "(uuid \<Rightarrow> string) \<Rightarrow> inspection_context \<Rightarrow> json" where
  "run_context sh c = JObject [(''session_id'', JString (sh (ic_session c))), (''run_id'', JString (sh (ic_run c)))]"

definition input_value :: "serde \<Rightarrow> (uuid \<Rightarrow> string) \<Rightarrow> inspection_context \<Rightarrow> agent_event \<Rightarrow> json" where
  "input_value sj sh c e = JObject [(''action'', action_value sj e), (''context'', run_context sh c)]"

section \<open>CEL\<close>

datatype effect = Eff_Deny | Eff_Redact | Eff_Allow

record rule_config =
  rc_when :: string
  rc_effect :: effect
  rc_reason :: "string option"
  rc_replacement :: "string option"

datatype cel_value = CelBool bool | CelString string | CelOther

text \<open>Programs \<^verbatim>\<open>'p\<close> and bound values \<^verbatim>\<open>'v\<close> are the interpreter's.  An execution returns a value, an
  error, or nothing (a panic).\<close>

record ('p, 'v) cel_api =
  cel_toml :: "string \<Rightarrow> (string, rule_config list) result"
  cel_compile :: "string \<Rightarrow> (string, 'p) result"
  cel_to_value :: "json \<Rightarrow> (string, 'v) result"
  cel_execute :: "'p \<Rightarrow> 'v \<times> 'v \<Rightarrow> (string, cel_value) result option"

record 'p compiled_rule =
  cr_when :: 'p
  cr_effect :: effect
  cr_reason :: string
  cr_replacement :: "'p option"

record 'p cel_adapter =
  ca_rules :: "'p compiled_rule list"
  ca_path :: "string option"
  ca_max_rules :: nat

definition DEFAULT_DENY_REASON :: string where
  "DEFAULT_DENY_REASON = ''denied by policy''"

definition DEFAULT_REDACTION :: string where
  "DEFAULT_REDACTION = ''[REDACTED]''"

definition compile_rule :: "('p, 'v) cel_api \<Rightarrow> nat \<Rightarrow> rule_config \<Rightarrow> (string, 'p compiled_rule) result" where
  "compile_rule api index rule =
    and_then (map_err (\<lambda>e. ''CEL rule #'' @ show_nat index @ '' `when` does not compile: '' @ e) (cel_compile api (rc_when rule)))
      (\<lambda>w. and_then
        (case rc_replacement rule of
           None \<Rightarrow> Inr None
         | Some source \<Rightarrow>
             map_err (\<lambda>e. ''CEL rule #'' @ show_nat index @ '' `replacement` does not compile: '' @ e)
               (and_then (cel_compile api source) (\<lambda>p. Inr (Some p))))
        (\<lambda>replacement.
          Inr \<lparr>cr_when = w, cr_effect = rc_effect rule,
               cr_reason = (case rc_reason rule of None \<Rightarrow> DEFAULT_DENY_REASON | Some r \<Rightarrow> r),
               cr_replacement = replacement\<rparr>))"

fun compile_rules :: "('p, 'v) cel_api \<Rightarrow> nat \<Rightarrow> rule_config list \<Rightarrow> (string, 'p compiled_rule list) result" where
  "compile_rules api index [] = Inr []"
| "compile_rules api index (r # rs) =
    and_then (compile_rule api index r) (\<lambda>c. and_then (compile_rules api (Suc index) rs) (\<lambda>cs. Inr (c # cs)))"

definition compile_source :: "('p, 'v) cel_api \<Rightarrow> string \<Rightarrow> nat \<Rightarrow> (string, 'p compiled_rule list) result" where
  "compile_source api source max_rules =
    and_then (map_err (\<lambda>e. ''cannot parse CEL policy: '' @ e) (cel_toml api source)) (\<lambda>rules.
      if length rules > max_rules then
        Inl (''CEL policy has '' @ show_nat (length rules) @ '' rules, exceeding the limit of '' @ show_nat max_rules @
          '' (policy.cel.max_rules)'')
      else compile_rules api 0 rules)"

text \<open>\<^verbatim>\<open>fs\<close> reads a file.\<close>

type_synonym file_system = "string \<Rightarrow> (string, string) result"

definition compile_file :: "('p, 'v) cel_api \<Rightarrow> file_system \<Rightarrow> string \<Rightarrow> nat \<Rightarrow> (string, 'p compiled_rule list) result" where
  "compile_file api fs path max_rules =
    and_then (map_err (\<lambda>e. ''cannot read CEL policy file '' @ [CHR 0x27] @ path @ [CHR 0x27] @ '': '' @ e) (fs path)) (\<lambda>source.
      map_err (\<lambda>e. ''in CEL policy file '' @ [CHR 0x27] @ path @ [CHR 0x27] @ '': '' @ e) (compile_source api source max_rules))"

definition cel_load :: "('p, 'v) cel_api \<Rightarrow> file_system \<Rightarrow> string \<Rightarrow> nat \<Rightarrow> (string, 'p cel_adapter) result" where
  "cel_load api fs path max_rules =
    and_then (compile_file api fs path max_rules) (\<lambda>rules.
      Inr \<lparr>ca_rules = rules, ca_path = Some path, ca_max_rules = max_rules\<rparr>)"

definition cel_reload :: "('p, 'v) cel_api \<Rightarrow> file_system \<Rightarrow> 'p cel_adapter \<Rightarrow> (string, nat) result \<times> 'p cel_adapter" where
  "cel_reload api fs a =
    (case ca_path a of
       None \<Rightarrow> (Inl ''CEL policy has no source file to reload'', a)
     | Some path \<Rightarrow>
         (case compile_file api fs path (ca_max_rules a) of
            Inl e \<Rightarrow> (Inl e, a)
          | Inr rules \<Rightarrow>
              if rules = [] then (Inl ''CEL policy reload produced zero rules; keeping the current policy'', a)
              else (Inr (length rules), a\<lparr>ca_rules := rules\<rparr>)))"

definition bind_value :: "('p, 'v) cel_api \<Rightarrow> json \<Rightarrow> 'v option" where
  "bind_value api v = (case cel_to_value api v of Inl _ \<Rightarrow> None | Inr x \<Rightarrow> Some x)"

definition build_context ::
    "('p, 'v) cel_api \<Rightarrow> serde \<Rightarrow> (uuid \<Rightarrow> string) \<Rightarrow> inspection_context \<Rightarrow> agent_event \<Rightarrow> ('v \<times> 'v) option" where
  "build_context api sj sh c e =
    (case bind_value api (action_value sj e) of
       None \<Rightarrow> None
     | Some a \<Rightarrow> (case bind_value api (run_context sh c) of None \<Rightarrow> None | Some x \<Rightarrow> Some (a, x)))"

definition replacement_text :: "('p, 'v) cel_api \<Rightarrow> 'p compiled_rule \<Rightarrow> 'v \<times> 'v \<Rightarrow> string option" where
  "replacement_text api rule ctx =
    (case cr_replacement rule of
       None \<Rightarrow> Some DEFAULT_REDACTION
     | Some program \<Rightarrow>
         (case cel_execute api program ctx of
            None \<Rightarrow> None
          | Some (Inr (CelString t)) \<Rightarrow> Some t
          | Some _ \<Rightarrow> Some DEFAULT_REDACTION))"

definition effect_of :: "('p, 'v) cel_api \<Rightarrow> 'p compiled_rule \<Rightarrow> 'v \<times> 'v \<Rightarrow> policy_decision option" where
  "effect_of api rule ctx =
    (case cr_effect rule of
       Eff_Allow \<Rightarrow> Some Allow
     | Eff_Deny \<Rightarrow> Some (Deny (cr_reason rule))
     | Eff_Redact \<Rightarrow> map_option RedactText (replacement_text api rule ctx))"

fun eval_rules :: "('p, 'v) cel_api \<Rightarrow> agent_event \<Rightarrow> 'v \<times> 'v \<Rightarrow> 'p compiled_rule list \<Rightarrow> agent_event verdict option" where
  "eval_rules api e ctx [] = Some V_Allow"
| "eval_rules api e ctx (rule # rules) =
    (case cel_execute api (cr_when rule) ctx of
       None \<Rightarrow> None
     | Some (Inr (CelBool True)) \<Rightarrow> map_option (lift_decision e) (effect_of api rule ctx)
     | Some _ \<Rightarrow> eval_rules api e ctx rules)"

definition cel_evaluate ::
    "('p, 'v) cel_api \<Rightarrow> serde \<Rightarrow> (uuid \<Rightarrow> string) \<Rightarrow> 'p cel_adapter \<Rightarrow> inspection_context \<Rightarrow> agent_event \<Rightarrow>
      agent_event verdict option" where
  "cel_evaluate api sj sh a c e =
    (case build_context api sj sh c e of
       None \<Rightarrow> Some (V_Deny ''policy input could not be evaluated'')
     | Some ctx \<Rightarrow> eval_rules api e ctx (ca_rules a))"

definition cel_decide ::
    "('p, 'v) cel_api \<Rightarrow> serde \<Rightarrow> (uuid \<Rightarrow> string) \<Rightarrow> 'p cel_adapter \<Rightarrow> inspection_context \<Rightarrow> agent_event \<Rightarrow> agent_event verdict" where
  "cel_decide api sj sh a c e =
    (case cel_evaluate api sj sh a c e of None \<Rightarrow> V_Deny ''policy evaluation failed'' | Some v \<Rightarrow> v)"

section \<open>Rego\<close>

datatype rego_value = RegoString string | RegoObject "(string \<times> rego_value) list" | RegoOther

text \<open>Engines \<^verbatim>\<open>'e\<close> and inputs \<^verbatim>\<open>'v\<close> are the interpreter's; an evaluation returns the first value of the query,
  if it has one, an error, or nothing (a panic).\<close>

record ('e, 'v) rego_api =
  rego_add_policy :: "string \<Rightarrow> string \<Rightarrow> (string, 'e \<times> string) result"
  rego_from_json :: "string \<Rightarrow> (string, 'v) result"
  rego_eval :: "'e \<Rightarrow> 'v \<Rightarrow> string \<Rightarrow> (string, rego_value option) result option"

record 'e rego_adapter =
  ra_engine :: 'e
  ra_path :: "string option"

definition DECISION_QUERY :: string where "DECISION_QUERY = ''data.agate.policy.decision''"
definition EXPECTED_PACKAGE :: string where "EXPECTED_PACKAGE = ''data.agate.policy''"
definition POLICY_NAME :: string where "POLICY_NAME = ''policy.rego''"

definition strip_data :: "string \<Rightarrow> string" where
  "strip_data package = (if prefix ''data.'' package then drop 5 package else package)"

definition rego_compile :: "('e, 'v) rego_api \<Rightarrow> string \<Rightarrow> (string, 'e) result" where
  "rego_compile api source =
    and_then (map_err (\<lambda>e. ''Rego policy does not compile: '' @ e) (rego_add_policy api POLICY_NAME source)) (\<lambda>(engine, package).
      if package \<noteq> EXPECTED_PACKAGE then
        Inl (''Rego policy must declare `package agate.policy` (found `'' @ strip_data package @ ''`); otherwise `'' @
          DECISION_QUERY @ ''` is undefined and every event would be allowed'')
      else Inr engine)"

definition build_engine :: "('e, 'v) rego_api \<Rightarrow> file_system \<Rightarrow> string \<Rightarrow> (string, 'e) result" where
  "build_engine api fs path =
    and_then (map_err (\<lambda>e. ''cannot read Rego policy file '' @ [CHR 0x27] @ path @ [CHR 0x27] @ '': '' @ e) (fs path)) (\<lambda>source.
      if trim source = [] then Inl (''Rego policy file '' @ [CHR 0x27] @ path @ [CHR 0x27] @ '' is empty'')
      else map_err (\<lambda>e. ''in Rego policy file '' @ [CHR 0x27] @ path @ [CHR 0x27] @ '': '' @ e) (rego_compile api source))"

definition rego_load :: "('e, 'v) rego_api \<Rightarrow> file_system \<Rightarrow> string \<Rightarrow> (string, 'e rego_adapter) result" where
  "rego_load api fs path =
    and_then (build_engine api fs path) (\<lambda>engine. Inr \<lparr>ra_engine = engine, ra_path = Some path\<rparr>)"

definition rego_reload :: "('e, 'v) rego_api \<Rightarrow> file_system \<Rightarrow> 'e rego_adapter \<Rightarrow> (string, unit) result \<times> 'e rego_adapter" where
  "rego_reload api fs a =
    (case ra_path a of
       None \<Rightarrow> (Inl ''Rego policy has no source file to reload'', a)
     | Some path \<Rightarrow>
         (case build_engine api fs path of
            Inl e \<Rightarrow> (Inl e, a)
          | Inr engine \<Rightarrow> (Inr (), a\<lparr>ra_engine := engine\<rparr>)))"

definition rego_field :: "(string \<times> rego_value) list \<Rightarrow> string \<Rightarrow> string option" where
  "rego_field obj key = (case map_of obj key of Some (RegoString s) \<Rightarrow> Some s | _ \<Rightarrow> None)"

definition to_decision :: "rego_value \<Rightarrow> policy_decision" where
  "to_decision v =
    (case v of
       RegoObject obj \<Rightarrow>
         (case rego_field obj ''effect'' of
            None \<Rightarrow> Deny ''policy decision had no recognized effect''
          | Some eff \<Rightarrow>
              if eff = ''allow'' then Allow
              else if eff = ''deny'' then
                Deny (case rego_field obj ''reason'' of None \<Rightarrow> DEFAULT_DENY_REASON | Some r \<Rightarrow> r)
              else if eff = ''redact'' then
                RedactText (case rego_field obj ''replacement'' of None \<Rightarrow> DEFAULT_REDACTION | Some r \<Rightarrow> r)
              else Deny ''policy decision had no recognized effect'')
     | _ \<Rightarrow> Deny ''policy returned a non-object decision'')"

definition to_rego_value :: "('e, 'v) rego_api \<Rightarrow> serde \<Rightarrow> json \<Rightarrow> 'v option" where
  "to_rego_value api sj input = (case rego_from_json api (sj_print sj input) of Inl _ \<Rightarrow> None | Inr v \<Rightarrow> Some v)"

definition rego_evaluate ::
    "('e, 'v) rego_api \<Rightarrow> serde \<Rightarrow> (uuid \<Rightarrow> string) \<Rightarrow> 'e rego_adapter \<Rightarrow> inspection_context \<Rightarrow> agent_event \<Rightarrow>
      agent_event verdict option" where
  "rego_evaluate api sj sh a c e =
    (case to_rego_value api sj (input_value sj sh c e) of
       None \<Rightarrow> Some (V_Deny ''policy input could not be evaluated'')
     | Some input \<Rightarrow>
         (case rego_eval api (ra_engine a) input DECISION_QUERY of
            None \<Rightarrow> None
          | Some (Inl _) \<Rightarrow> Some (V_Deny ''policy evaluation failed'')
          | Some (Inr None) \<Rightarrow> Some V_Allow
          | Some (Inr (Some v)) \<Rightarrow> Some (lift_decision e (to_decision v))))"

definition rego_decide ::
    "('e, 'v) rego_api \<Rightarrow> serde \<Rightarrow> (uuid \<Rightarrow> string) \<Rightarrow> 'e rego_adapter \<Rightarrow> inspection_context \<Rightarrow> agent_event \<Rightarrow> agent_event verdict" where
  "rego_decide api sj sh a c e =
    (case rego_evaluate api sj sh a c e of None \<Rightarrow> V_Deny ''policy evaluation failed'' | Some v \<Rightarrow> v)"

section \<open>The contract of a backend\<close>

text \<open>What the proxy relies on: a backend that returns a verdict allows, denies, or rewrites the text of a message or of
  a result and nothing else of it.\<close>

definition text_rewritten :: "agent_event \<Rightarrow> agent_event \<Rightarrow> bool" where
  "text_rewritten e e' \<longleftrightarrow>
    (\<exists>m t u. e = E_MessageChunk m t \<and> e' = E_MessageChunk m u) \<or>
    (\<exists>i n t u. e = E_ToolResult i n t \<and> e' = E_ToolResult i n u)"

definition well_typed :: "agent_event \<Rightarrow> agent_event verdict \<Rightarrow> bool" where
  "well_typed e v =
    (case v of V_Allow \<Rightarrow> True | V_Deny _ \<Rightarrow> True | V_Transform e' \<Rightarrow> text_rewritten e e' | _ \<Rightarrow> False)"

locale policy_backend =
  fixes decides :: "inspection_context \<Rightarrow> agent_event \<Rightarrow> agent_event verdict \<Rightarrow> bool"
  assumes typed: "decides c e v \<Longrightarrow> well_typed e v"
begin

lemma transform_typed: "decides c e (V_Transform e') \<Longrightarrow> text_rewritten e e'"
  using typed [of c e "V_Transform e'"] by (simp add: well_typed_def)

text \<open>The frame of a rewritten event is always its re-encoding, never the frame that was received.\<close>

lemma rewritten_on_the_wire:
  "decides c e (V_Transform e') \<Longrightarrow> \<exists>j. to_event e' = Some j \<and>
    content_frames sj (V_Transform e') raw = ([sse_encode (sj_print sj j)], False)"
  using transform_typed [of c e e'] by (auto simp: text_rewritten_def content_frames_def)

lemma only_text_is_rewritten:
  "decides c (E_ToolCall i n a) v \<Longrightarrow> v = V_Allow \<or> (\<exists>r. v = V_Deny r)"
  "decides c (E_StateMutation m) v \<Longrightarrow> v = V_Allow \<or> (\<exists>r. v = V_Deny r)"
  by (auto dest!: typed simp: well_typed_def text_rewritten_def split: verdict.splits)

end

lemma lift_decision_typed: "well_typed e (lift_decision e d)"
  by (auto simp: lift_decision_def well_typed_def text_rewritten_def split: policy_decision.splits agent_event.splits)

lemma adapter_typed: "adapter_decide sj rx rs c e = Some v \<Longrightarrow> well_typed e v"
  by (auto simp: adapter_decide_def lift_decision_typed)

lemma eval_rules_typed: "eval_rules api e ctx rules = Some v \<Longrightarrow> well_typed e v"
proof (induction rules)
  case (Cons r rules)
  then show ?case
    by (auto simp: lift_decision_typed split: option.splits sum.splits cel_value.splits bool.splits)
qed (simp add: well_typed_def)

lemma cel_typed: "well_typed e (cel_decide api sj sh a c e)"
  by (auto simp: cel_decide_def cel_evaluate_def well_typed_def [of _ "V_Deny _"] eval_rules_typed split: option.splits)

lemma rego_typed: "well_typed e (rego_decide api sj sh a c e)"
  by (auto simp: rego_decide_def rego_evaluate_def lift_decision_typed split: option.splits sum.splits)
    (auto simp: well_typed_def)

interpretation static: policy_backend "\<lambda>c e v. adapter_decide sj rx rs c e = Some v"
  by unfold_locales (rule adapter_typed)

interpretation cel: policy_backend "\<lambda>c e v. cel_decide api sj sh a c e = v"
  by unfold_locales (auto intro: cel_typed)

interpretation rego: policy_backend "\<lambda>c e v. rego_decide api sj sh a c e = v"
  by unfold_locales (auto intro: rego_typed)

section \<open>Reloading\<close>

text \<open>A policy that can be reloaded keeps what it runs on every error.\<close>

locale reloadable =
  fixes reload :: "'f \<Rightarrow> 'a \<Rightarrow> (string, 'r) result \<times> 'a" and good :: "'a \<Rightarrow> bool"
  assumes keeps: "reload f a = (Inl err, a') \<Longrightarrow> a' = a"
    and installs: "reload f a = (Inr r, a') \<Longrightarrow> good a \<Longrightarrow> good a'"
begin

definition reloads :: "'f list \<Rightarrow> 'a \<Rightarrow> 'a" where
  "reloads fs a = fold (\<lambda>f a. snd (reload f a)) fs a"

lemma reload_good: "good a \<Longrightarrow> good (snd (reload f a))"
  using keeps [of f a] installs [of f a] by (cases "reload f a"; cases "fst (reload f a)") auto

lemma reloads_good: "good a \<Longrightarrow> good (reloads fs a)"
  unfolding reloads_def by (induction fs arbitrary: a) (simp_all add: reload_good)

lemma failing_reloads: "list_all (\<lambda>f. \<forall>b. \<not> is_ok (fst (reload f b))) fs \<Longrightarrow> reloads fs a = a"
proof (induction fs)
  case (Cons f fs)
  obtain x a' where r: "reload f a = (x, a')" by fastforce
  with Cons.prems obtain err where "x = Inl err" by (cases x) (auto, metis fst_conv is_ok_simps(2))
  with r keeps have "snd (reload f a) = a" by auto
  with Cons show ?case by (simp add: reloads_def)
qed (simp add: reloads_def)

end

text \<open>The running CEL policy has rules, within the cap; the running Rego engine was compiled from a source that
  declares the expected package.\<close>

definition cel_good :: "'p cel_adapter \<Rightarrow> bool" where
  "cel_good a \<longleftrightarrow> ca_rules a \<noteq> [] \<and> length (ca_rules a) \<le> ca_max_rules a"

definition rego_good :: "('e, 'v) rego_api \<Rightarrow> 'e rego_adapter \<Rightarrow> bool" where
  "rego_good api a \<longleftrightarrow>
    (\<exists>source. rego_add_policy api POLICY_NAME source = Inr (ra_engine a, EXPECTED_PACKAGE) \<and> trim source \<noteq> [])"

lemma compile_rules_length: "compile_rules api i rules = Inr cs \<Longrightarrow> length cs = length rules"
  by (induction rules arbitrary: i cs) (auto simp: and_then_eq_Inr)

lemma map_err_eq_Inr [simp]: "map_err g r = Inr a \<longleftrightarrow> r = Inr a"
  by (cases r) simp_all

lemma compile_file_capped: "compile_file api fs path n = Inr cs \<Longrightarrow> length cs \<le> n"
  by (auto simp: compile_file_def compile_source_def and_then_eq_Inr dest: compile_rules_length split: if_splits)

lemma cel_reload_cases:
  "cel_reload api fs a = (r, a') \<Longrightarrow>
    (\<exists>e. r = Inl e \<and> a' = a) \<or>
    (\<exists>path rules. ca_path a = Some path \<and> compile_file api fs path (ca_max_rules a) = Inr rules \<and> rules \<noteq> [] \<and>
      r = Inr (length rules) \<and> a' = a\<lparr>ca_rules := rules\<rparr>)"
  by (auto simp: cel_reload_def split: option.splits sum.splits if_splits)

interpretation cel_reloads: reloadable "cel_reload api" cel_good
proof
  show "a' = a" if "cel_reload api f a = (Inl err, a')" for f a err a'
    using cel_reload_cases [OF that] by auto
  show "cel_good a'" if "cel_reload api f a = (Inr r, a')" and "cel_good a" for f a r a'
    using cel_reload_cases [OF that(1)] compile_file_capped by (auto simp: cel_good_def)
qed

lemma build_engine_good: "build_engine api fs path = Inr engine \<Longrightarrow> rego_good api \<lparr>ra_engine = engine, ra_path = q\<rparr>"
  by (auto simp: build_engine_def rego_compile_def rego_good_def and_then_eq_Inr split: if_splits)

interpretation rego_reloads: reloadable "rego_reload api" "rego_good api"
proof
  show "a' = a" if "rego_reload api f a = (Inl err, a')" for f a err a'
    using that by (auto simp: rego_reload_def split: option.splits sum.splits)
  show "rego_good api a'" if "rego_reload api f a = (Inr r, a')" and "rego_good api a" for f a r a'
    using that(1) build_engine_good [of api f] by (auto simp: rego_reload_def rego_good_def split: option.splits sum.splits)
qed

section \<open>Properties\<close>

text \<open>C22: Whichever backend judges, its verdict is an allow, a denial, or the same message or tool result with
  another text: identity, name and kind are never changed, tool calls and state mutations are never
  rewritten, and what is rewritten has a wire form.\<close>

theorem backends_are_well_typed:
  assumes "adapter_decide sj rx rs c e = Some v \<or> cel_decide api sj sh a c e = v \<or> rego_decide rapi sj sh b c e = v"
  shows "v = V_Allow \<or> (\<exists>reason. v = V_Deny reason) \<or>
    (\<exists>e' j. v = V_Transform e' \<and> to_event e' = Some j \<and>
      ((\<exists>m t u. e = E_MessageChunk m t \<and> e' = E_MessageChunk m u) \<or>
       (\<exists>i n t u. e = E_ToolResult i n t \<and> e' = E_ToolResult i n u)))"
proof -
  have "well_typed e v" using assms static.typed cel.typed rego.typed by blast
  then show ?thesis by (cases v) (auto simp: well_typed_def text_rewritten_def)
qed

theorem backends_are_well_typed_witness:
  "\<exists>v. adapter_decide demo_serde demo_regex demo_rules \<lparr>ic_session = 1, ic_run = 2\<rparr> (E_ToolCall ''c'' ''fs'' ''sk-1'') = Some v \<and>
    (v = V_Allow \<or> (\<exists>reason. v = V_Deny reason))"
proof -
  have "list_all maskable_literal (rs_secrets demo_rules)" by code_simp
  then have "\<exists>d. policy_decide demo_serde demo_regex demo_rules (ToolCall ''fs'' ''sk-1'') = Some d"
    by (auto simp: policy_decide_def evaluate_def authorize_def split: policy_decision.splits)
  then obtain v where v: "adapter_decide demo_serde demo_regex demo_rules \<lparr>ic_session = 1, ic_run = 2\<rparr> (E_ToolCall ''c'' ''fs'' ''sk-1'') = Some v"
    by (auto simp: adapter_decide_def)
  from backends_are_well_typed [OF disjI1, OF v] v show ?thesis by auto
qed

text \<open>A rule that is passed over: it evaluates to something else than true, or to an error.\<close>

definition passed_over :: "('p, 'v) cel_api \<Rightarrow> 'v \<times> 'v \<Rightarrow> 'p compiled_rule \<Rightarrow> bool" where
  "passed_over api ctx r \<longleftrightarrow> cel_execute api (cr_when r) ctx \<noteq> None \<and> cel_execute api (cr_when r) ctx \<noteq> Some (Inr (CelBool True))"

definition rule_holds :: "('p, 'v) cel_api \<Rightarrow> 'v \<times> 'v \<Rightarrow> 'p compiled_rule \<Rightarrow> bool" where
  "rule_holds api ctx r \<longleftrightarrow> cel_execute api (cr_when r) ctx = Some (Inr (CelBool True))"

lemma eval_rules_pass: "list_all (passed_over api ctx) pre \<Longrightarrow> eval_rules api e ctx (pre @ rules) = eval_rules api e ctx rules"
  by (induction pre) (auto simp: passed_over_def split: option.splits sum.splits cel_value.splits bool.splits)

lemma lift_allow: "lift_decision e d = V_Allow \<longleftrightarrow> d = Allow"
  by (auto simp: lift_decision_def split: policy_decision.splits agent_event.splits)

lemma effect_allow: "effect_of api r ctx = Some Allow \<longleftrightarrow> cr_effect r = Eff_Allow"
  by (auto simp: effect_of_def split: effect.splits)

text \<open>The first rule that is not passed over holds and allows.\<close>

fun first_allows :: "('p, 'v) cel_api \<Rightarrow> 'v \<times> 'v \<Rightarrow> 'p compiled_rule list \<Rightarrow> bool" where
  "first_allows api ctx [] = False"
| "first_allows api ctx (r # rules) =
    (if passed_over api ctx r then first_allows api ctx rules else rule_holds api ctx r \<and> cr_effect r = Eff_Allow)"

lemma eval_rules_allow:
  "eval_rules api e ctx rules = Some V_Allow \<longleftrightarrow> list_all (passed_over api ctx) rules \<or> first_allows api ctx rules"
proof (induction rules)
  case (Cons r rules)
  show ?case
  proof (cases "passed_over api ctx r")
    case True
    then have "eval_rules api e ctx (r # rules) = eval_rules api e ctx rules"
      using eval_rules_pass [of api ctx "[r]" e rules] by simp
    with True Cons show ?thesis by simp
  next
    case False
    then have "eval_rules api e ctx (r # rules) = Some V_Allow \<longleftrightarrow> rule_holds api ctx r \<and> cr_effect r = Eff_Allow"
      by (auto simp: passed_over_def rule_holds_def lift_allow effect_allow)
    with False show ?thesis by simp
  qed
qed simp

text \<open>C21: The script engines let an event pass unchanged only on purpose.  With CEL that is exactly when the event could be bound and
  either every rule was passed over or the first rule that holds says allow; a rule whose condition is false, not a boolean or
  fails to evaluate is passed over, a failed binding and a panic deny.  With Rego it is exactly when the event could be
  bound and the decision is undefined or an object whose effect is allow, so that an evaluation error, a panic and any malformed decision deny.\<close>

theorem engines_allow_exactly:
  "(cel_decide api sj sh a c e = V_Allow \<longleftrightarrow>
      (\<exists>ctx. build_context api sj sh c e = Some ctx \<and>
        (list_all (passed_over api ctx) (ca_rules a) \<or> first_allows api ctx (ca_rules a)))) \<and>
   (rego_decide rapi sj sh b c e = V_Allow \<longleftrightarrow>
      (\<exists>input. to_rego_value rapi sj (input_value sj sh c e) = Some input \<and>
        (rego_eval rapi (ra_engine b) input DECISION_QUERY = Some (Inr None) \<or>
         (\<exists>obj. rego_eval rapi (ra_engine b) input DECISION_QUERY = Some (Inr (Some (RegoObject obj))) \<and>
            rego_field obj ''effect'' = Some ''allow''))))"
proof
  show "cel_decide api sj sh a c e = V_Allow \<longleftrightarrow>
      (\<exists>ctx. build_context api sj sh c e = Some ctx \<and>
        (list_all (passed_over api ctx) (ca_rules a) \<or> first_allows api ctx (ca_rules a)))"
    unfolding eval_rules_allow [of _ e, symmetric]
    by (auto simp: cel_decide_def cel_evaluate_def split: option.splits)
  have decision: "to_decision v = Allow \<longleftrightarrow> (\<exists>obj. v = RegoObject obj \<and> rego_field obj ''effect'' = Some ''allow'')" for v
    by (cases v) (auto simp: to_decision_def split: option.splits)
  show "rego_decide rapi sj sh b c e = V_Allow \<longleftrightarrow>
      (\<exists>input. to_rego_value rapi sj (input_value sj sh c e) = Some input \<and>
        (rego_eval rapi (ra_engine b) input DECISION_QUERY = Some (Inr None) \<or>
         (\<exists>obj. rego_eval rapi (ra_engine b) input DECISION_QUERY = Some (Inr (Some (RegoObject obj))) \<and>
            rego_field obj ''effect'' = Some ''allow'')))"
    by (auto simp: rego_decide_def rego_evaluate_def lift_allow decision split: option.splits sum.splits)
qed

text \<open>The rules a policy file yields that a reload may install.\<close>

definition usable :: "('p, 'v) cel_api \<Rightarrow> string \<Rightarrow> nat \<Rightarrow> file_system \<Rightarrow> 'p compiled_rule list option" where
  "usable api path n fs = (case compile_file api fs path n of Inr rules \<Rightarrow> if rules = [] then None else Some rules | Inl _ \<Rightarrow> None)"

lemma cel_reload_usable:
  assumes "ca_path a = Some path"
  shows "snd (cel_reload api fs a) =
    (case usable api path (ca_max_rules a) fs of None \<Rightarrow> a | Some rules \<Rightarrow> a\<lparr>ca_rules := rules\<rparr>)"
  using assms by (auto simp: cel_reload_def usable_def split: sum.splits)

text \<open>C39: Reloading never loses the policy: whatever states the policy file goes through between reloads, the rules in force are
  those of the last reload that found a readable, well-formed, non-empty file within the rule limit, or the
  initial ones if there was none; a policy with rules within the limit always has some, within the limit.\<close>

theorem reload_keeps_last_good_policy:
  assumes "ca_path a = Some path"
  shows "ca_rules (fold (\<lambda>fs a. snd (cel_reload api fs a)) history a) =
      last (ca_rules a # List.map_filter (usable api path (ca_max_rules a)) history) \<and>
    (cel_good a \<longrightarrow> cel_good (fold (\<lambda>fs a. snd (cel_reload api fs a)) history a))"
proof
  show "ca_rules (fold (\<lambda>fs a. snd (cel_reload api fs a)) history a) =
      last (ca_rules a # List.map_filter (usable api path (ca_max_rules a)) history)"
    using assms
    by (induction history arbitrary: a) (auto simp: cel_reload_usable List.map_filter_simps split: option.splits)
  show "cel_good a \<longrightarrow> cel_good (fold (\<lambda>fs a. snd (cel_reload api fs a)) history a)"
    using cel_reloads.reloads_good [of a api history] by (simp add: cel_reloads.reloads_def)
qed

definition demo_cel :: "(string, unit) cel_api" where
  "demo_cel =
    \<lparr>cel_toml = \<lambda>s. if s = ''bad'' then Inl ''parse error'' else
       Inr (map (\<lambda>x. \<lparr>rc_when = [x], rc_effect = Eff_Deny, rc_reason = None, rc_replacement = None\<rparr>) s),
     cel_compile = \<lambda>s. Inr s, cel_to_value = \<lambda>_. Inr (), cel_execute = \<lambda>p _. Some (Inr (CelBool True))\<rparr>"

theorem reload_keeps_last_good_policy_witness:
  "map cr_when (ca_rules (fold (\<lambda>fs a. snd (cel_reload demo_cel fs a)) [\<lambda>_. Inr ''xy'', \<lambda>_. Inr ''bad'', \<lambda>_. Inr []]
    \<lparr>ca_rules = [], ca_path = Some ''p'', ca_max_rules = 5\<rparr>)) = [''x'', ''y'']"
proof -
  let ?a = "\<lparr>ca_rules = [], ca_path = Some ''p'', ca_max_rules = 5\<rparr> :: string cel_adapter"
  have "map (map_option (map cr_when)) (map (usable demo_cel ''p'' 5) [\<lambda>_. Inr ''xy'', \<lambda>_. Inr ''bad'', \<lambda>_. Inr []]) =
      [Some [''x'', ''y''], None, None]" by code_simp
  then obtain rules where "usable demo_cel ''p'' 5 (\<lambda>_. Inr ''xy'') = Some rules" "map cr_when rules = [''x'', ''y'']"
      "usable demo_cel ''p'' 5 (\<lambda>_. Inr ''bad'') = None" "usable demo_cel ''p'' 5 (\<lambda>_. Inr []) = None" by auto
  then show ?thesis using reload_keeps_last_good_policy [of ?a "''p''" demo_cel "[\<lambda>_. Inr ''xy'', \<lambda>_. Inr ''bad'', \<lambda>_. Inr []]"]
    by (simp add: List.map_filter_simps)
qed

end
