(* ===== verification/Ingress.thy ===== *)
theory Ingress
  imports Stream_Proxy
begin

text \<open>
  The HTTP side of the proxy crate (\<^verbatim>\<open>crates/agate-proxy/src/presentation/http\<close>,
  \<^verbatim>\<open>setup/configs/proxy_config.rs\<close>, \<^verbatim>\<open>infrastructure/agent\<close>): the ingress guards around a run, the run
  handler, and the classification of upstream failures.  A layer maps a handler to a handler, the way the router
  composes them.  The rate limiter, the semaphore, the body extractor, the UUID functions and the HTTP client are
  parameters.  A handler yields the whole response at once, while the code streams it; the permit of a
  response is given back by a step of its own.
\<close>

unbundle bit_operations_syntax

section \<open>Configuration\<close>

datatype session_memory_backend = SM_InMemory | SM_Redis string

record session_memory_config =
  sm_backend :: session_memory_backend
  sm_ttl :: nat

definition DEFAULT_CONNECT_TIMEOUT :: nat where "DEFAULT_CONNECT_TIMEOUT = 5"
definition DEFAULT_READ_TIMEOUT :: nat where "DEFAULT_READ_TIMEOUT = 60"
definition DEFAULT_MAX_BODY_BYTES :: nat where "DEFAULT_MAX_BODY_BYTES = 2 ^ 20"
definition DEFAULT_MAX_CONCURRENT_REQUESTS :: nat where "DEFAULT_MAX_CONCURRENT_REQUESTS = 256"
definition DEFAULT_MAX_FRAME_BYTES :: nat where "DEFAULT_MAX_FRAME_BYTES = 2 ^ 20"

record proxy_config =
  pc_agent_endpoint :: string
  pc_bind_addr :: string
  pc_connect_timeout :: nat
  pc_read_timeout :: nat
  pc_max_body_bytes :: nat
  pc_api_keys :: "string list"
  pc_max_concurrent_requests :: nat
  pc_malformed_event_mode :: malformed_event_mode
  pc_response_budget :: response_budget
  pc_max_frame_bytes :: nat
  pc_rate_limit_per_second :: nat
  pc_rate_limit_burst :: nat
  pc_session_memory :: "session_memory_config option"

definition proxy_config_new :: "string \<Rightarrow> string \<Rightarrow> proxy_config" where
  "proxy_config_new agent_endpoint bind_addr =
    \<lparr>pc_agent_endpoint = agent_endpoint, pc_bind_addr = bind_addr, pc_connect_timeout = DEFAULT_CONNECT_TIMEOUT,
     pc_read_timeout = DEFAULT_READ_TIMEOUT, pc_max_body_bytes = DEFAULT_MAX_BODY_BYTES, pc_api_keys = [],
     pc_max_concurrent_requests = DEFAULT_MAX_CONCURRENT_REQUESTS, pc_malformed_event_mode = MM_Terminate,
     pc_response_budget = response_budget_unlimited, pc_max_frame_bytes = DEFAULT_MAX_FRAME_BYTES,
     pc_rate_limit_per_second = 0, pc_rate_limit_burst = 0, pc_session_memory = None\<rparr>"

definition proxy_inspection_settings :: "proxy_config \<Rightarrow> inspection_settings" where
  "proxy_inspection_settings cfg =
    \<lparr>is_budgets = budgets_default, is_malformed_mode = pc_malformed_event_mode cfg,
     is_response_budget = pc_response_budget cfg, is_max_frame_bytes = pc_max_frame_bytes cfg\<rparr>"

definition with_response_budget :: "proxy_config \<Rightarrow> response_budget \<Rightarrow> proxy_config" where
  "with_response_budget cfg b = cfg\<lparr>pc_response_budget := b\<rparr>"

definition with_max_frame_bytes :: "proxy_config \<Rightarrow> nat \<Rightarrow> proxy_config" where
  "with_max_frame_bytes cfg n = cfg\<lparr>pc_max_frame_bytes := n\<rparr>"

definition with_malformed_event_mode :: "proxy_config \<Rightarrow> malformed_event_mode \<Rightarrow> proxy_config" where
  "with_malformed_event_mode cfg mode = cfg\<lparr>pc_malformed_event_mode := mode\<rparr>"

definition with_concurrency_limit :: "proxy_config \<Rightarrow> nat \<Rightarrow> proxy_config" where
  "with_concurrency_limit cfg n = cfg\<lparr>pc_max_concurrent_requests := n\<rparr>"

definition with_rate_limit :: "proxy_config \<Rightarrow> nat \<Rightarrow> nat \<Rightarrow> proxy_config" where
  "with_rate_limit cfg per_second burst = cfg\<lparr>pc_rate_limit_per_second := per_second, pc_rate_limit_burst := burst\<rparr>"

definition with_session_memory :: "proxy_config \<Rightarrow> session_memory_config option \<Rightarrow> proxy_config" where
  "with_session_memory cfg sm = cfg\<lparr>pc_session_memory := sm\<rparr>"

definition with_ingress :: "proxy_config \<Rightarrow> nat \<Rightarrow> nat \<Rightarrow> nat \<Rightarrow> string list \<Rightarrow> proxy_config" where
  "with_ingress cfg connect_timeout read_timeout max_body_bytes keys =
    cfg\<lparr>pc_connect_timeout := connect_timeout, pc_read_timeout := read_timeout,
        pc_max_body_bytes := max_body_bytes, pc_api_keys := keys\<rparr>"

section \<open>Upstream client\<close>

record run_request =
  rr_body :: string
  rr_headers :: "(string \<times> string) list"

record reqwest_error =
  re_is_timeout :: bool
  re_is_connect :: bool
  re_status :: "nat option"
  re_message :: string

definition request_error :: "reqwest_error \<Rightarrow> upstream_error" where
  "request_error e =
    (if re_is_timeout e then UE_Timeout else if re_is_connect e then UE_Connect (re_message e)
     else UE_Stream (re_message e))"

definition chunk_error :: "reqwest_error \<Rightarrow> upstream_error" where
  "chunk_error e = (if re_is_timeout e then UE_Timeout else UE_Stream (re_message e))"

text \<open>The client library: posting a request gives an error or a response, which is an error for its status or a
  stream of chunks.\<close>

type_synonym reqwest =
  "string \<Rightarrow> string \<Rightarrow> (string \<times> string) list \<Rightarrow>
    (reqwest_error, (reqwest_error, (reqwest_error, string) result list) result) result"

type_synonym agent_client = "run_request \<Rightarrow> (upstream_error, (upstream_error, string) result list) result"

definition reqwest_run :: "reqwest \<Rightarrow> string \<Rightarrow> agent_client" where
  "reqwest_run post endpoint request =
    and_then (map_err request_error (post endpoint (rr_body request) (rr_headers request))) (\<lambda>response.
    and_then (map_err (\<lambda>e. case re_status e of Some status \<Rightarrow> UE_Status status | None \<Rightarrow> UE_Stream (re_message e)) response)
      (\<lambda>chunks. Inr (map (map_err chunk_error) chunks)))"

section \<open>Requests and responses\<close>

record http_request =
  hr_peer :: ip_addr
  hr_headers :: "(string \<times> string) list"
  hr_body :: string

record http_response =
  rs_status :: nat
  rs_headers :: "(string \<times> string) list"
  rs_body :: "string list"
  rs_permit :: bool

definition plain_response :: "nat \<Rightarrow> string \<Rightarrow> http_response" where
  "plain_response status body = \<lparr>rs_status = status, rs_headers = [], rs_body = [body], rs_permit = False\<rparr>"

datatype run_error_kind = PE_MalformedRequest string | PE_Denied string | PE_Upstream upstream_error

fun into_response :: "run_error_kind \<Rightarrow> http_response" where
  "into_response (PE_MalformedRequest error) = plain_response 400 (''invalid request: '' @ error)"
| "into_response (PE_Denied reason) = plain_response 403 reason"
| "into_response (PE_Upstream UE_Timeout) = plain_response 504 ''upstream agent timed out''"
| "into_response (PE_Upstream _) = plain_response 502 ''upstream agent request failed''"

text \<open>What the handlers share: the ports of the inspector, the semaphore, the rate limiter, the metrics calls and
  the requests sent to the agent.\<close>

record ('s, 'm, 'g) ingress =
  in_ports :: 's
  in_permits :: 'm
  in_limiter :: 'g
  in_metrics :: "metric list"
  in_forwarded :: "run_request list"

type_synonym ('s, 'm, 'g) http_handler =
  "http_request \<Rightarrow> ('s, 'm, 'g) ingress \<Rightarrow> http_response \<times> ('s, 'm, 'g) ingress"

section \<open>API keys\<close>

definition API_KEY_HEADER :: string where
  "API_KEY_HEADER = ''x-api-key''"

definition constant_time_eq :: "bytes \<Rightarrow> bytes \<Rightarrow> bool" where
  "constant_time_eq a b =
    (if length a \<noteq> length b then False
     else fold (\<lambda>(left, right) diff. diff OR (left XOR right)) (zip a b) 0 = 0)"

definition key_matches_any :: "bytes \<Rightarrow> string list \<Rightarrow> bool" where
  "key_matches_any provided valid_keys =
    fold (\<lambda>key matched. matched \<or> constant_time_eq provided (map of_char key)) valid_keys False"

text \<open>\<^verbatim>\<open>HeaderValue::to_str\<close> is the parameter \<^verbatim>\<open>to_str\<close>; \<^verbatim>\<open>HeaderMap::get\<close> is the first value of a name.\<close>

type_synonym header_text = "string \<Rightarrow> string option"

definition require_api_key ::
    "header_text \<Rightarrow> string list \<Rightarrow> ('s, 'm, 'g) http_handler \<Rightarrow> ('s, 'm, 'g) http_handler" where
  "require_api_key to_str valid_keys nxt request st =
    (let provided = Option.bind (map_of (hr_headers request) API_KEY_HEADER) to_str in
     if (case provided of None \<Rightarrow> False | Some key \<Rightarrow> key_matches_any (map of_char key) valid_keys) then nxt request st
     else (plain_response 401 ''missing or invalid API key'', st))"

definition accepted_keys :: "string list \<Rightarrow> string list" where
  "accepted_keys keys = filter (\<lambda>key. key \<noteq> []) (map trim keys)"

definition api_key_apply ::
    "header_text \<Rightarrow> string list \<Rightarrow> ('s, 'm, 'g) http_handler \<Rightarrow> ('s, 'm, 'g) http_handler" where
  "api_key_apply to_str keys router =
    (let valid_keys = accepted_keys keys in
     if valid_keys = [] then router else require_api_key to_str valid_keys router)"

section \<open>Concurrency limit\<close>

text \<open>The semaphore: \<^verbatim>\<open>try_acquire\<close> is \<^term>\<open>None\<close> when no permit is free.\<close>

record 'm semaphore =
  sem_new :: "nat \<Rightarrow> 'm"
  sem_try_acquire :: "'m \<Rightarrow> 'm option"
  sem_release :: "'m \<Rightarrow> 'm"

definition concurrency_limit ::
    "'m semaphore \<Rightarrow> ('s, 'm, 'g) http_handler \<Rightarrow> ('s, 'm, 'g) http_handler" where
  "concurrency_limit sem nxt request st =
    (case sem_try_acquire sem (in_permits st) of
       None \<Rightarrow> (plain_response 503 ''service at capacity'', st)
     | Some permits \<Rightarrow>
         (case nxt request (st\<lparr>in_permits := permits\<rparr>) of (response, st') \<Rightarrow> (response\<lparr>rs_permit := True\<rparr>, st')))"

text \<open>\<^verbatim>\<open>hold_permit\<close>: the body ended or was dropped.\<close>

definition finish_response :: "'m semaphore \<Rightarrow> http_response \<Rightarrow> ('s, 'm, 'g) ingress \<Rightarrow> ('s, 'm, 'g) ingress" where
  "finish_response sem response st =
    (if rs_permit response then st\<lparr>in_permits := sem_release sem (in_permits st)\<rparr> else st)"

section \<open>Rate limit\<close>

text \<open>The limiter: checking a key admits it or gives the seconds until it would.\<close>

record 'g limiter =
  lm_new :: "nat \<Rightarrow> nat \<Rightarrow> 'g"
  lm_check_key :: "ip_addr \<Rightarrow> 'g \<Rightarrow> nat option \<times> 'g"

definition rate_limit ::
    "'g limiter \<Rightarrow> ('s, 'm, 'g) http_handler \<Rightarrow> ('s, 'm, 'g) http_handler" where
  "rate_limit lm nxt request st =
    (case lm_check_key lm (hr_peer request) (in_limiter st) of
       (None, g) \<Rightarrow> nxt request (st\<lparr>in_limiter := g\<rparr>)
     | (Some wait, g) \<Rightarrow>
         ((plain_response 429 ''rate limit exceeded'')\<lparr>rs_headers := [(''retry-after'', show_nat (max wait 1))]\<rparr>,
          st\<lparr>in_limiter := g\<rparr>))"

definition rate_limit_apply ::
    "'g limiter \<Rightarrow> nat \<Rightarrow> ('s, 'm, 'g) http_handler \<Rightarrow> ('s, 'm, 'g) http_handler" where
  "rate_limit_apply lm per_second router = (if per_second = 0 then router else rate_limit lm router)"

definition limiter_burst :: "nat \<Rightarrow> nat \<Rightarrow> nat" where
  "limiter_burst per_second burst = (if burst = 0 then per_second else burst)"

section \<open>The run\<close>

definition SKIP_HEADERS :: "string list" where
  "SKIP_HEADERS = [''host'', ''content-length'', ''connection'', ''transfer-encoding'']"

definition forwardable_headers :: "header_text \<Rightarrow> (string \<times> string) list \<Rightarrow> (string \<times> string) list" where
  "forwardable_headers to_str headers =
    List.map_filter (\<lambda>(name, val). map_option (Pair name) (to_str val))
      (filter (\<lambda>(name, val). name \<notin> set SKIP_HEADERS) headers)"

definition SESSION_NAMESPACE :: uuid where
  "SESSION_NAMESPACE = 0x8f6b1d2e4a7c4b3e9f1a2c5d7e8f0a1b"

definition RUN_NAMESPACE :: uuid where
  "RUN_NAMESPACE = 0x3c9e7a1f6d2b4e8cb5a01f4d6e8c0b2a"

text \<open>\<^verbatim>\<open>Uuid::new_v5\<close> is the parameter \<^verbatim>\<open>v5\<close>; a random one is the argument \<^verbatim>\<open>fresh\<close>.\<close>

type_synonym new_v5 = "uuid \<Rightarrow> string \<Rightarrow> uuid"

definition derive_uuid :: "new_v5 \<Rightarrow> uuid \<Rightarrow> uuid \<Rightarrow> string option \<Rightarrow> uuid" where
  "derive_uuid v5 fresh namespace label = (case label of Some l \<Rightarrow> v5 namespace l | None \<Rightarrow> fresh)"

definition session_uuid :: "new_v5 \<Rightarrow> uuid \<Rightarrow> string option \<Rightarrow> uuid" where
  "session_uuid v5 fresh thread_id = derive_uuid v5 fresh SESSION_NAMESPACE thread_id"

definition run_uuid :: "new_v5 \<Rightarrow> uuid \<Rightarrow> string option \<Rightarrow> uuid" where
  "run_uuid v5 fresh label = derive_uuid v5 fresh RUN_NAMESPACE label"

definition run_identity :: "new_v5 \<Rightarrow> uuid \<times> uuid \<Rightarrow> request_content \<Rightarrow> inspection_context" where
  "run_identity v5 fresh inbound =
    \<lparr>ic_session = session_uuid v5 (fst fresh) (rq_thread_id inbound), ic_run = run_uuid v5 (snd fresh) (rq_run_id inbound)\<rparr>"

text \<open>The third-party functions the handler calls.\<close>

record env =
  ev_serde :: serde
  ev_to_str :: header_text
  ev_v5 :: new_v5
  ev_client :: agent_client
  ev_drain :: drain_order

definition proxy_run ::
    "env \<Rightarrow> 's ports \<Rightarrow> proxy_config \<Rightarrow> uuid \<times> uuid \<Rightarrow> ('s, 'm, 'g) http_handler" where
  "proxy_run ev p cfg fresh request st =
    (case parse_request (ev_serde ev) (hr_body request) of
       Inl error \<Rightarrow> (into_response (PE_MalformedRequest (show_ag_ui_error error)), st)
     | Inr inbound \<Rightarrow>
         let c = run_identity (ev_v5 ev) fresh inbound;
             st1 = st\<lparr>in_metrics := in_metrics st @ [RecordRun]\<rparr> in
         case inspect_request p c inbound (in_ports st1) of
           (R_Reject reason, s) \<Rightarrow> (into_response (PE_Denied reason), st1\<lparr>in_ports := s\<rparr>)
         | (R_Allow, s) \<Rightarrow>
             let run = \<lparr>rr_body = hr_body request, rr_headers = forwardable_headers (ev_to_str ev) (hr_headers request)\<rparr>;
                 st2 = st1\<lparr>in_ports := s, in_forwarded := in_forwarded st1 @ [run]\<rparr> in
             case ev_client ev run of
               Inl error \<Rightarrow>
                 (into_response (PE_Upstream error), st2\<lparr>in_metrics := in_metrics st2 @ [RecordUpstreamError error]\<rparr>)
             | Inr upstream \<Rightarrow>
                 (case inspect_stream (ev_serde ev) (ev_drain ev) p c (proxy_inspection_settings cfg) upstream s of
                    (frames, ss) \<Rightarrow>
                      (\<lparr>rs_status = 200, rs_headers = [(''content-type'', ''text/event-stream'')], rs_body = frames,
                        rs_permit = False\<rparr>,
                       st2\<lparr>in_ports := ss_ports ss, in_metrics := in_metrics st2 @ ss_metrics ss\<rparr>)))"

section \<open>Router\<close>

text \<open>The body extractor under the configured limit is the parameter \<^verbatim>\<open>read_body\<close>: a refusal is its status and
  message.\<close>

type_synonym body_extractor = "nat \<Rightarrow> string \<Rightarrow> (nat \<times> string, string) result"

definition with_body_limit :: "body_extractor \<Rightarrow> nat \<Rightarrow> ('s, 'm, 'g) http_handler \<Rightarrow> ('s, 'm, 'g) http_handler" where
  "with_body_limit read_body limit nxt request st =
    (case read_body limit (hr_body request) of
       Inl (status, message) \<Rightarrow> (plain_response status message, st)
     | Inr body \<Rightarrow> nxt (request\<lparr>hr_body := body\<rparr>) st)"

definition healthz :: "('s, 'm, 'g) http_handler" where
  "healthz request st = (plain_response 200 ''ok'', st)"

definition run_route ::
    "env \<Rightarrow> body_extractor \<Rightarrow> 'm semaphore \<Rightarrow> 'g limiter \<Rightarrow> 's ports \<Rightarrow> proxy_config \<Rightarrow> uuid \<times> uuid \<Rightarrow> ('s, 'm, 'g) http_handler" where
  "run_route ev read_body sem lm p cfg fresh =
    rate_limit_apply lm (pc_rate_limit_per_second cfg)
      (concurrency_limit sem
        (api_key_apply (ev_to_str ev) (pc_api_keys cfg)
          (with_body_limit read_body (pc_max_body_bytes cfg) (proxy_run ev p cfg fresh))))"

text \<open>The routes: a path, and the handler behind it.\<close>

definition router ::
    "env \<Rightarrow> body_extractor \<Rightarrow> 'm semaphore \<Rightarrow> 'g limiter \<Rightarrow> 's ports \<Rightarrow> proxy_config \<Rightarrow> uuid \<times> uuid \<Rightarrow>
      (string \<times> ('s, 'm, 'g) http_handler) list" where
  "router ev read_body sem lm p cfg fresh =
    [(''/'', run_route ev read_body sem lm p cfg fresh), (''/healthz'', healthz)]"

definition ingress_start :: "'m semaphore \<Rightarrow> 'g limiter \<Rightarrow> proxy_config \<Rightarrow> 's \<Rightarrow> ('s, 'm, 'g) ingress" where
  "ingress_start sem lm cfg s =
    \<lparr>in_ports = s, in_permits = sem_new sem (pc_max_concurrent_requests cfg),
     in_limiter = lm_new lm (pc_rate_limit_per_second cfg) (limiter_burst (pc_rate_limit_per_second cfg) (pc_rate_limit_burst cfg)),
     in_metrics = [], in_forwarded = []\<rparr>"

section \<open>The guards\<close>

lemma or_fold_zero:
  "fold (\<lambda>(left, right) diff. diff OR (left XOR right)) xs (acc :: 8 word) = 0 \<longleftrightarrow>
    acc = 0 \<and> (\<forall>(a, b) \<in> set xs. a = b)"
proof (induction xs arbitrary: acc)
  case (Cons x xs)
  have "a XOR b = 0 \<longleftrightarrow> a = b" for a b :: "8 word"
    by (auto simp: bit_eq_iff bit_simps)
  moreover have "c OR d = 0 \<longleftrightarrow> c = 0 \<and> d = 0" for c d :: "8 word"
    by (auto simp: bit_eq_iff bit_simps)
  ultimately show ?case using Cons.IH by (cases x) auto
qed simp

lemma constant_time_eq_iff: "constant_time_eq a b \<longleftrightarrow> a = b"
proof (cases "length a = length b")
  case True
  then have "(\<forall>(x, y) \<in> set (zip a b). x = y) \<longleftrightarrow> a = b"
    by (induction a b rule: list_induct2) auto
  with True show ?thesis by (simp add: constant_time_eq_def or_fold_zero)
qed (auto simp: constant_time_eq_def)

lemma key_matches_any_iff: "key_matches_any (map of_char key) ks \<longleftrightarrow> key \<in> set ks"
proof -
  have "fold (\<lambda>k matched. matched \<or> constant_time_eq (map of_char key) (map of_char k)) ks acc \<longleftrightarrow> acc \<or> key \<in> set ks" for acc
    by (induction ks arbitrary: acc) (auto simp: constant_time_eq_iff inj_of_char)
  then show ?thesis by (simp add: key_matches_any_def)
qed

text \<open>The key a request presents, and whether the configured keys let it in.\<close>

definition presented_key :: "header_text \<Rightarrow> http_request \<Rightarrow> string option" where
  "presented_key to_str request = Option.bind (map_of (hr_headers request) API_KEY_HEADER) to_str"

definition key_admits :: "header_text \<Rightarrow> string list \<Rightarrow> http_request \<Rightarrow> bool" where
  "key_admits to_str keys request \<longleftrightarrow>
    accepted_keys keys = [] \<or> (case presented_key to_str request of None \<Rightarrow> False | Some k \<Rightarrow> k \<in> set (accepted_keys keys))"

lemma api_key_apply_eq:
  "api_key_apply to_str keys nxt request st =
    (if key_admits to_str keys request then nxt request st else (plain_response 401 ''missing or invalid API key'', st))"
  by (simp add: api_key_apply_def Let_def require_api_key_def key_admits_def presented_key_def key_matches_any_iff split: option.split)

lemma into_response_permit [simp]: "rs_permit (into_response err) = False"
  by (cases err rule: into_response.cases) (simp_all add: plain_response_def)

text \<open>A handler that neither takes a permit nor gives one back.\<close>

definition permit_free :: "('s, 'm, 'g) http_handler \<Rightarrow> bool" where
  "permit_free nxt \<longleftrightarrow> (\<forall>request st. in_permits (snd (nxt request st)) = in_permits st)"

lemma permit_free_proxy_run: "permit_free (proxy_run ev p cfg fresh)"
  unfolding permit_free_def proxy_run_def Let_def by (auto split: sum.splits prod.splits request_decision.splits)

lemma permit_free_layers:
  "permit_free nxt \<Longrightarrow> permit_free (with_body_limit read_body limit nxt)"
  "permit_free nxt \<Longrightarrow> permit_free (api_key_apply to_str keys nxt)"
  by (auto simp: permit_free_def with_body_limit_def api_key_apply_eq split: sum.splits prod.splits)

abbreviation guarded_run ::
    "env \<Rightarrow> body_extractor \<Rightarrow> 's ports \<Rightarrow> proxy_config \<Rightarrow> uuid \<times> uuid \<Rightarrow> ('s, 'm, 'g) http_handler" where
  "guarded_run ev read_body p cfg fresh \<equiv>
    api_key_apply (ev_to_str ev) (pc_api_keys cfg) (with_body_limit read_body (pc_max_body_bytes cfg) (proxy_run ev p cfg fresh))"

lemma guarded_run_permits: "in_permits (snd (guarded_run ev read_body p cfg fresh request st)) = in_permits st"
  using permit_free_layers(2) [OF permit_free_layers(1) [OF permit_free_proxy_run [of ev p cfg fresh]]]
  unfolding permit_free_def by blast

lemma run_route_cases:
  assumes "run_route ev read_body sem lm p cfg fresh request st = (response, st')"
  obtains (limited) g where "st' = st\<lparr>in_limiter := g\<rparr>" "\<not> rs_permit response" "rs_status response = 429"
    | (shed) g where "sem_try_acquire sem (in_permits st) = None" "st' = st\<lparr>in_limiter := g\<rparr>"
        "\<not> rs_permit response" "rs_status response = 503"
    | (admitted) g m inner where "sem_try_acquire sem (in_permits st) = Some m"
        "guarded_run ev read_body p cfg fresh request (st\<lparr>in_limiter := g, in_permits := m\<rparr>) = (inner, st')"
        "response = inner\<lparr>rs_permit := True\<rparr>"
proof -
  have conc: thesis if c: "concurrency_limit sem (guarded_run ev read_body p cfg fresh) request (st\<lparr>in_limiter := g\<rparr>) = (response, st')" for g
  proof (cases "sem_try_acquire sem (in_permits st)")
    case None
    with c show thesis by (intro shed) (auto simp: concurrency_limit_def plain_response_def)
  next
    case (Some m)
    obtain inner st1 where i: "guarded_run ev read_body p cfg fresh request (st\<lparr>in_limiter := g, in_permits := m\<rparr>) = (inner, st1)"
      by fastforce
    with c Some show thesis by (intro admitted [OF Some i [THEN trans]]) (auto simp: concurrency_limit_def)
  qed
  show thesis
  proof (cases "pc_rate_limit_per_second cfg = 0")
    case True
    with assms conc [of "in_limiter st"] show thesis by (simp add: run_route_def rate_limit_apply_def)
  next
    case False
    obtain w g where w: "lm_check_key lm (hr_peer request) (in_limiter st) = (w, g)" by fastforce
    show thesis
    proof (cases w)
      case None
      with assms False w conc [of g] show thesis by (simp add: run_route_def rate_limit_apply_def rate_limit_def)
    next
      case (Some secs)
      with assms False w show thesis
        by (intro limited) (auto simp: run_route_def rate_limit_apply_def rate_limit_def plain_response_def)
    qed
  qed
qed

section \<open>Concurrent runs\<close>

text \<open>What is relied on of the semaphore, with \<^verbatim>\<open>avail\<close> the number of free permits.\<close>

definition semaphore_laws :: "'m semaphore \<Rightarrow> ('m \<Rightarrow> nat) \<Rightarrow> bool" where
  "semaphore_laws sem avail \<longleftrightarrow>
    (\<forall>n. avail (sem_new sem n) = n) \<and> (\<forall>m. avail (sem_release sem m) = Suc (avail m)) \<and>
    (\<forall>m. case sem_try_acquire sem m of None \<Rightarrow> avail m = 0 | Some m' \<Rightarrow> avail m = Suc (avail m'))"

text \<open>The responses that are in flight: requests arrive and bodies end in any order.\<close>

inductive serving ::
    "env \<Rightarrow> body_extractor \<Rightarrow> 'm semaphore \<Rightarrow> 'g limiter \<Rightarrow> 's ports \<Rightarrow> proxy_config \<Rightarrow> 's \<Rightarrow>
      http_response list \<Rightarrow> ('s, 'm, 'g) ingress \<Rightarrow> bool"
  for ev :: env and read_body :: body_extractor and sem :: "'m semaphore" and lm :: "'g limiter" and p :: "'s ports"
    and cfg :: proxy_config and s0 :: 's where
  idle: "serving ev read_body sem lm p cfg s0 [] (ingress_start sem lm cfg s0)"
| arrive: "serving ev read_body sem lm p cfg s0 live st \<Longrightarrow>
    run_route ev read_body sem lm p cfg fresh request st = (response, st') \<Longrightarrow>
    serving ev read_body sem lm p cfg s0 (live @ [response]) st'"
| finish: "serving ev read_body sem lm p cfg s0 (before @ response # after) st \<Longrightarrow>
    serving ev read_body sem lm p cfg s0 (before @ after) (finish_response sem response st)"

lemma serving_permits:
  assumes "serving ev read_body sem lm p cfg s0 live st" and laws: "semaphore_laws sem avail"
  shows "avail (in_permits st) + length (filter rs_permit live) = pc_max_concurrent_requests cfg"
  using assms(1)
proof (induction rule: serving.induct)
  case idle
  with laws show ?case by (simp add: ingress_start_def semaphore_laws_def)
next
  case (arrive live st fresh request response st')
  from arrive.hyps(2) show ?case
  proof (cases rule: run_route_cases)
    case (admitted g m inner)
    from arg_cong [OF admitted(2), of "\<lambda>x. in_permits (snd x)"] have "in_permits st' = m"
      by (simp add: guarded_run_permits)
    moreover have "avail (in_permits st) = Suc (avail m)"
      using laws [unfolded semaphore_laws_def, THEN conjunct2, THEN conjunct2, THEN spec, of "in_permits st"] admitted(1) by simp
    ultimately show ?thesis using arrive.IH admitted(3) by simp
  qed (use arrive.IH in simp_all)
next
  case (finish before response after st)
  have "avail (sem_release sem m) = Suc (avail m)" for m using laws unfolding semaphore_laws_def by blast
  with finish.IH show ?case by (cases "rs_permit response") (simp_all add: finish_response_def)
qed

section \<open>What reaches the agent\<close>

lemma proxy_run_forwards:
  assumes "proxy_run ev p cfg fresh request st = (response, st')" and "in_forwarded st' \<noteq> in_forwarded st"
  obtains inbound s where "parse_request (ev_serde ev) (hr_body request) = Inr inbound"
    "inspect_request p (run_identity (ev_v5 ev) fresh inbound) inbound (in_ports st) = (R_Allow, s)"
    "in_forwarded st' = in_forwarded st @
      [\<lparr>rr_body = hr_body request, rr_headers = forwardable_headers (ev_to_str ev) (hr_headers request)\<rparr>]"
  using assms
  by (auto simp: proxy_run_def Let_def split: sum.splits prod.splits request_decision.splits)

lemma run_route_forwards:
  assumes "run_route ev read_body sem lm p cfg fresh request st = (response, st')" and "in_forwarded st' \<noteq> in_forwarded st"
  obtains body inbound s where "rs_permit response" "key_admits (ev_to_str ev) (pc_api_keys cfg) request"
    "read_body (pc_max_body_bytes cfg) (hr_body request) = Inr body"
    "parse_request (ev_serde ev) body = Inr inbound"
    "inspect_request p (run_identity (ev_v5 ev) fresh inbound) inbound (in_ports st) = (R_Allow, s)"
    "in_forwarded st' = in_forwarded st @
      [\<lparr>rr_body = body, rr_headers = forwardable_headers (ev_to_str ev) (hr_headers request)\<rparr>]"
  using assms(1)
proof (cases rule: run_route_cases)
  case (admitted g m inner)
  let ?st = "st\<lparr>in_limiter := g, in_permits := m\<rparr>"
  have key: "key_admits (ev_to_str ev) (pc_api_keys cfg) request"
    using admitted(2) assms(2) by (auto simp: api_key_apply_eq split: if_splits)
  with admitted(2) have b: "with_body_limit read_body (pc_max_body_bytes cfg) (proxy_run ev p cfg fresh) request ?st = (inner, st')"
    by (simp add: api_key_apply_eq)
  then obtain body where body: "read_body (pc_max_body_bytes cfg) (hr_body request) = Inr body"
    using assms(2) by (auto simp: with_body_limit_def split: sum.splits prod.splits)
  with b have run: "proxy_run ev p cfg fresh (request\<lparr>hr_body := body\<rparr>) ?st = (inner, st')" by (simp add: with_body_limit_def)
  have ne: "in_forwarded st' \<noteq> in_forwarded ?st" using assms(2) by simp
  from run ne show thesis
  proof (rule proxy_run_forwards)
    fix inbound s
    assume f: "parse_request (ev_serde ev) (hr_body (request\<lparr>hr_body := body\<rparr>)) = Inr inbound"
      "inspect_request p (run_identity (ev_v5 ev) fresh inbound) inbound (in_ports ?st) = (R_Allow, s)"
      "in_forwarded st' = in_forwarded ?st @ [\<lparr>rr_body = hr_body (request\<lparr>hr_body := body\<rparr>),
        rr_headers = forwardable_headers (ev_to_str ev) (hr_headers (request\<lparr>hr_body := body\<rparr>))\<rparr>]"
    show thesis by (rule that [of body inbound s]) (use f key body admitted(3) in simp_all)
  qed
qed (use assms(2) in simp_all)

section \<open>Properties\<close>

text \<open>C38: The API-key guard admits exactly the requests it should.  With no key configured (blank entries do
  not count) every request passes; otherwise a request passes exactly when the text of its key header is one of the
  trimmed configured keys, although keys are compared by folding exclusive-ors over all bytes and all keys.  A
  refused request is answered 401 and changes no state.\<close>

theorem api_key_guard_exact:
  "api_key_apply to_str keys nxt request st =
    (if filter (\<lambda>k. k \<noteq> []) (map trim keys) = [] \<or>
        (\<exists>v k. map_of (hr_headers request) API_KEY_HEADER = Some v \<and> to_str v = Some k \<and> k \<noteq> [] \<and> k \<in> set (map trim keys))
     then nxt request st
     else (\<lparr>rs_status = 401, rs_headers = [], rs_body = [''missing or invalid API key''], rs_permit = False\<rparr>, st))"
proof -
  have "key_admits to_str keys request \<longleftrightarrow> filter (\<lambda>k. k \<noteq> []) (map trim keys) = [] \<or>
      (\<exists>v k. map_of (hr_headers request) API_KEY_HEADER = Some v \<and> to_str v = Some k \<and> k \<noteq> [] \<and> k \<in> set (map trim keys))"
    by (cases "map_of (hr_headers request) API_KEY_HEADER")
      (auto simp: key_admits_def presented_key_def accepted_keys_def split: option.splits)
  then show ?thesis by (simp only: api_key_apply_eq plain_response_def)
qed

text \<open>C17: The number of runs in progress is bounded.  In every interleaving of requests that arrive and
  responses that end, at most \<^verbatim>\<open>max_concurrent_requests\<close> responses in flight hold a permit; a request is
  admitted only while fewer do, and a request that is handed to the agent gets a response that holds one.\<close>

theorem concurrent_runs_bounded:
  assumes "serving ev read_body sem lm p cfg s0 live st" and "semaphore_laws sem avail"
  shows "length (filter rs_permit live) \<le> pc_max_concurrent_requests cfg \<and>
    (\<forall>fresh request response st'. run_route ev read_body sem lm p cfg fresh request st = (response, st') \<longrightarrow>
      (rs_permit response \<longrightarrow> length (filter rs_permit live) < pc_max_concurrent_requests cfg) \<and>
      (in_forwarded st' \<noteq> in_forwarded st \<longrightarrow> rs_permit response))"
proof -
  note inv = serving_permits [OF assms]
  have "length (filter rs_permit live) < pc_max_concurrent_requests cfg"
    if run: "run_route ev read_body sem lm p cfg fresh request st = (response, st')" and "rs_permit response"
    for fresh request response st'
    using serving_permits [OF serving.arrive [OF assms(1) run] assms(2)] that(2) by simp
  moreover have "rs_permit response"
    if run: "run_route ev read_body sem lm p cfg fresh request st = (response, st')" and "in_forwarded st' \<noteq> in_forwarded st"
    for fresh request response st'
    using that by (rule run_route_forwards)
  ultimately show ?thesis using inv by auto
qed

definition demo_semaphore :: "nat semaphore" where
  "demo_semaphore =
    \<lparr>sem_new = (\<lambda>n. n), sem_try_acquire = (\<lambda>n. case n of 0 \<Rightarrow> None | Suc k \<Rightarrow> Some k), sem_release = Suc\<rparr>"

lemma demo_semaphore_laws: "semaphore_laws demo_semaphore (\<lambda>n. n)"
  by (simp add: semaphore_laws_def demo_semaphore_def split: nat.split)

definition demo_limiter :: "unit limiter" where
  "demo_limiter = \<lparr>lm_new = (\<lambda>_ _. ()), lm_check_key = (\<lambda>_ _. (None, ()))\<rparr>"

definition demo_env :: env where
  "demo_env =
    \<lparr>ev_serde = \<lparr>sj_parse = (\<lambda>_. Inl ''eof''), sj_print = (\<lambda>_. [])\<rparr>, ev_to_str = Some, ev_v5 = (\<lambda>n _. n),
     ev_client = (\<lambda>_. Inr []), ev_drain = (\<lambda>xs. xs)\<rparr>"

definition demo_config :: proxy_config where
  "demo_config = with_concurrency_limit (proxy_config_new ''http://agent'' ''0.0.0.0:8080'') 1"

definition demo_request :: http_request where
  "demo_request = \<lparr>hr_peer = V4 0, hr_headers = [], hr_body = []\<rparr>"

abbreviation demo_serving :: "http_response list \<Rightarrow> (audit_log \<times> sessions, nat, unit) ingress \<Rightarrow> bool" where
  "demo_serving \<equiv> serving demo_env (\<lambda>_ b. Inr b) demo_semaphore demo_limiter
    (local_ports (\<lambda>_ _. V_Allow) (\<lambda>_. None) (\<lambda>_. []) 1 0) demo_config ([], Map.empty)"

lemma demo_first_run:
  obtains response st where "demo_serving [response] st" "rs_permit response" "rs_status response = 400" "in_permits st = 0"
proof -
  let ?r = "run_route demo_env (\<lambda>_ b. Inr b) demo_semaphore demo_limiter
    (local_ports (\<lambda>_ _. V_Allow) (\<lambda>_. None) (\<lambda>_. []) 1 0) demo_config (0, 0) demo_request
    (ingress_start demo_semaphore demo_limiter demo_config ([], Map.empty))"
  have "demo_serving ([] @ [fst ?r]) (snd ?r)" by (rule serving.arrive [OF serving.idle]) (rule surjective_pairing)
  then have run: "demo_serving [fst ?r] (snd ?r)" by (simp only: append_Nil)
  have "rs_permit (fst ?r)" "rs_status (fst ?r) = 400" "in_permits (snd ?r) = 0"
    by (simp_all add: run_route_def rate_limit_apply_def concurrency_limit_def demo_config_def
      with_concurrency_limit_def proxy_config_new_def ingress_start_def demo_semaphore_def api_key_apply_def accepted_keys_def
      with_body_limit_def proxy_run_def parse_request_def parse_ok_def demo_env_def plain_response_def and_then_def ok_or_def)
  then show thesis by (rule that [OF run])
qed

theorem concurrent_runs_bounded_witness:
  "\<exists>response st. demo_serving [response] st \<and> rs_permit response \<and>
    \<not> rs_permit (fst (run_route demo_env (\<lambda>_ b. Inr b) demo_semaphore demo_limiter
      (local_ports (\<lambda>_ _. V_Allow) (\<lambda>_. None) (\<lambda>_. []) 1 0) demo_config (0, 0) demo_request st))"
proof -
  obtain response st where s: "demo_serving [response] st" "rs_permit response" by (rule demo_first_run)
  have max: "pc_max_concurrent_requests demo_config = 1" by (simp add: demo_config_def with_concurrency_limit_def)
  let ?r = "run_route demo_env (\<lambda>_ b. Inr b) demo_semaphore demo_limiter
      (local_ports (\<lambda>_ _. V_Allow) (\<lambda>_. None) (\<lambda>_. []) 1 0) demo_config (0, 0) demo_request st"
  have "?r = (fst ?r, snd ?r)" by simp
  with concurrent_runs_bounded [OF s(1) demo_semaphore_laws] have "rs_permit (fst ?r) \<longrightarrow> length (filter rs_permit [response]) < 1"
    unfolding max by blast
  with s show ?thesis by auto
qed

end
