(* ===== verification/Merkle_Tree.thy ===== *)
theory Merkle_Tree
  imports Agate_Crypto
begin

text \<open>
  The Merkle services of the audit crate
  (\<^verbatim>\<open>crates/agate-audit/src/domain/merkle/services\<close>): the RFC 6962 hasher, the
  tree hash, inclusion and consistency proofs and their verification.

  Sizes and indices are 64-bit words, as \<^verbatim>\<open>usize\<close> is on the supported targets.  The
  loop of \<^verbatim>\<open>split_point\<close> shifts such a word and does not end for sizes above
  \<^term>\<open>2 ^ 63 :: nat\<close>, so it and its callers are partial functions: \<^term>\<open>None\<close> is
  ``does not return''.  A Rust \<^verbatim>\<open>Option\<close> result inside is a second
  option.  The debug assertions are not part of the model.

  The second half gives the reference definitions over natural numbers and lists
  (the recursion of RFC 6962, section 2.1) and proves that the code returns and
  agrees with them for every size up to \<^term>\<open>2 ^ 63 :: nat\<close>.
\<close>

section \<open>Hasher\<close>

definition LEAF_PREFIX :: byte where "LEAF_PREFIX = 0x00"
definition NODE_PREFIX :: byte where "NODE_PREFIX = 0x01"

definition empty_root :: "hasher \<Rightarrow> digest" where
  "empty_root h = hash_data h []"

definition leaf :: "hasher \<Rightarrow> bytes \<Rightarrow> digest" where
  "leaf h rec = hash_data h (LEAF_PREFIX # rec)"

definition node :: "hasher \<Rightarrow> digest \<Rightarrow> digest \<Rightarrow> digest" where
  "node h l r = hash_data h (NODE_PREFIX # dg_bytes l @ dg_bytes r)"

section \<open>Tree hash\<close>

partial_function (option) split_loop :: "usize \<Rightarrow> usize \<Rightarrow> usize option" where
  "split_loop n k = (if k < n then split_loop n (push_bit 1 k) else Some (drop_bit 1 k))"

definition split_point :: "usize \<Rightarrow> usize option" where
  "split_point n = split_loop n 1"

partial_function (option) merkle_root :: "hasher \<Rightarrow> digest list \<Rightarrow> digest option" where
  "merkle_root h leaves =
    (if length leaves = 0 then Some (empty_root h)
     else if length leaves = 1 then Some (leaves ! 0)
     else do {
       k \<leftarrow> split_point (word_of_nat (length leaves));
       left \<leftarrow> merkle_root h (take (unat k) leaves);
       right \<leftarrow> merkle_root h (drop (unat k) leaves);
       Some (node h left right)
     })"

section \<open>Proofs\<close>

record inclusion_proof =
  ip_leaf_index :: u64
  ip_tree_size :: u64
  ip_path :: "digest list"

record consistency_proof =
  cp_first_size :: u64
  cp_second_size :: u64
  cp_path :: "digest list"

partial_function (option) audit_path :: "hasher \<Rightarrow> usize \<Rightarrow> digest list \<Rightarrow> digest list option" where
  "audit_path h m leaves =
    (if length leaves \<le> 1 then Some []
     else do {
       k \<leftarrow> split_point (word_of_nat (length leaves));
       (if m < k then do {
          path \<leftarrow> audit_path h m (take (unat k) leaves);
          sib \<leftarrow> merkle_root h (drop (unat k) leaves);
          Some (path @ [sib])
        } else do {
          path \<leftarrow> audit_path h (m - k) (drop (unat k) leaves);
          sib \<leftarrow> merkle_root h (take (unat k) leaves);
          Some (path @ [sib])
        })
     })"

definition inclusion :: "hasher \<Rightarrow> digest list \<Rightarrow> usize \<Rightarrow> inclusion_proof option option" where
  "inclusion h leaves index =
    (if index \<ge> word_of_nat (length leaves) then Some None
     else do {
       path \<leftarrow> audit_path h index leaves;
       Some (Some \<lparr>ip_leaf_index = index, ip_tree_size = word_of_nat (length leaves), ip_path = path\<rparr>)
     })"

partial_function (option) rebuild_inclusion ::
    "hasher \<Rightarrow> usize \<Rightarrow> usize \<Rightarrow> digest \<Rightarrow> digest list \<Rightarrow> digest option option" where
  "rebuild_inclusion h m n lf path =
    (if n = 0 then Some None
     else if n = 1 then Some (if path = [] then Some lf else None)
     else (case split_last path of
       None \<Rightarrow> Some None
     | Some (lst, rest) \<Rightarrow> do {
         k \<leftarrow> split_point n;
         (if m < k then do {
            r \<leftarrow> rebuild_inclusion h m k lf rest;
            Some (map_option (\<lambda>left. node h left lst) r)
          } else do {
            r \<leftarrow> rebuild_inclusion h (m - k) (n - k) lf rest;
            Some (map_option (\<lambda>right. node h lst right) r)
          })
       }))"

definition verify_inclusion :: "hasher \<Rightarrow> inclusion_proof \<Rightarrow> digest \<Rightarrow> digest \<Rightarrow> bool option" where
  "verify_inclusion h pf lf root =
    (let m = ip_leaf_index pf; n = ip_tree_size pf in
     if m \<ge> n then Some False
     else do {
       r \<leftarrow> rebuild_inclusion h m n lf (ip_path pf);
       Some (case r of Some computed \<Rightarrow> computed = root | None \<Rightarrow> False)
     })"

partial_function (option) subproof ::
    "hasher \<Rightarrow> usize \<Rightarrow> digest list \<Rightarrow> bool \<Rightarrow> digest list option" where
  "subproof h m leaves b =
    (if m = word_of_nat (length leaves) then
       (if b then Some [] else do { r \<leftarrow> merkle_root h leaves; Some [r] })
     else do {
       k \<leftarrow> split_point (word_of_nat (length leaves));
       (if m \<le> k then do {
          path \<leftarrow> subproof h m (take (unat k) leaves) b;
          sib \<leftarrow> merkle_root h (drop (unat k) leaves);
          Some (path @ [sib])
        } else do {
          path \<leftarrow> subproof h (m - k) (drop (unat k) leaves) False;
          sib \<leftarrow> merkle_root h (take (unat k) leaves);
          Some (path @ [sib])
        })
     })"

definition consistency :: "hasher \<Rightarrow> digest list \<Rightarrow> usize \<Rightarrow> consistency_proof option option" where
  "consistency h leaves first =
    (let n = word_of_nat (length leaves) in
     if first = 0 \<or> first > n then Some None
     else do {
       path \<leftarrow> (if first = n then Some [] else subproof h first leaves True);
       Some (Some \<lparr>cp_first_size = first, cp_second_size = n, cp_path = path\<rparr>)
     })"

partial_function (option) rebuild_consistency ::
    "hasher \<Rightarrow> usize \<Rightarrow> usize \<Rightarrow> bool \<Rightarrow> digest \<Rightarrow> digest list \<Rightarrow> (digest \<times> digest) option option" where
  "rebuild_consistency h m n b old_seed path =
    (if m = n then
       Some (if b then (if path = [] then Some (old_seed, old_seed) else None)
             else (case split_last path of
                 None \<Rightarrow> None
               | Some (lst, rest) \<Rightarrow> if rest = [] then Some (lst, lst) else None))
     else do {
       k \<leftarrow> split_point n;
       (case split_last path of
         None \<Rightarrow> Some None
       | Some (lst, rest) \<Rightarrow>
           (if m \<le> k then do {
              r \<leftarrow> rebuild_consistency h m k b old_seed rest;
              Some (map_option (\<lambda>(old_left, new_left). (old_left, node h new_left lst)) r)
            } else do {
              r \<leftarrow> rebuild_consistency h (m - k) (n - k) False old_seed rest;
              Some (map_option (\<lambda>(old_right, new_right). (node h lst old_right, node h lst new_right)) r)
            }))
     })"

definition verify_consistency :: "hasher \<Rightarrow> consistency_proof \<Rightarrow> digest \<Rightarrow> digest \<Rightarrow> bool option" where
  "verify_consistency h pf old_root new_root =
    (let m = cp_first_size pf; n = cp_second_size pf in
     if m > n then Some False
     else if m = n then Some (cp_path pf = [] \<and> old_root = new_root)
     else if m = 0 then Some (cp_path pf = [])
     else do {
       r \<leftarrow> rebuild_consistency h m n True old_root (cp_path pf);
       Some (case r of Some (old, new) \<Rightarrow> old = old_root \<and> new = new_root | None \<Rightarrow> False)
     })"

section \<open>Reference definitions\<close>

text \<open>The largest power of two strictly below \<^verbatim>\<open>n\<close>, for \<^verbatim>\<open>n\<close> at least two.\<close>

fun pow2_below :: "nat \<Rightarrow> nat" where
  "pow2_below n = (if n \<le> 2 then 1 else 2 * pow2_below ((n + 1) div 2))"

declare pow2_below.simps [simp del]

lemma pow2_below_pos [simp]: "0 < pow2_below n"
  by (induction n rule: pow2_below.induct) (subst pow2_below.simps, simp)

lemma pow2_below_bounds:
  "2 \<le> n \<Longrightarrow> pow2_below n < n \<and> n \<le> 2 * pow2_below n \<and> (\<exists>j. pow2_below n = 2 ^ j)"
proof (induction n rule: pow2_below.induct)
  case (1 n)
  show ?case
  proof (cases "n \<le> 2")
    case True
    with 1 have "n = 2" by simp
    then show ?thesis by (auto simp: pow2_below.simps intro: exI [of _ 0])
  next
    case False
    let ?h = "(n + 1) div 2"
    from False have "2 \<le> ?h" by simp
    from "1.IH" [OF False this] obtain j where
      ih: "pow2_below ?h < ?h" "?h \<le> 2 * pow2_below ?h" "pow2_below ?h = 2 ^ j"
      by blast
    from False have eq: "pow2_below n = 2 * pow2_below ?h"
      by (subst pow2_below.simps) simp
    from ih eq have "pow2_below n = 2 ^ Suc j" by simp
    moreover from ih(1) eq have "pow2_below n < n" by linarith
    moreover from ih(2) eq have "n \<le> 2 * pow2_below n" by linarith
    ultimately show ?thesis by blast
  qed
qed

lemma pow2_below_less [simp]: "2 \<le> n \<Longrightarrow> pow2_below n < n"
  using pow2_below_bounds by blast

lemma pow2_below_less' [simp]: "Suc 0 < n \<Longrightarrow> pow2_below n < n"
  using pow2_below_less [of n] by linarith

function (sequential) mth :: "hasher \<Rightarrow> digest list \<Rightarrow> digest" where
  "mth h [] = empty_root h"
| "mth h [d] = d"
| "mth h ds = (let k = pow2_below (length ds)
     in node h (mth h (take k ds)) (mth h (drop k ds)))"
  by pat_completeness auto
termination
  by (relation "measure (\<lambda>(h, ds). length ds)") (auto simp: min_less_iff_disj)

function spec_path :: "hasher \<Rightarrow> nat \<Rightarrow> digest list \<Rightarrow> digest list" where
  "spec_path h m ds =
    (if length ds \<le> 1 then []
     else let k = pow2_below (length ds) in
       if m < k then spec_path h m (take k ds) @ [mth h (drop k ds)]
       else spec_path h (m - k) (drop k ds) @ [mth h (take k ds)])"
  by pat_completeness auto
termination
  by (relation "measure (\<lambda>(h, m, ds). length ds)") (auto simp: min_less_iff_disj not_le intro!: diff_less)

declare spec_path.simps [simp del]

function spec_rebuild :: "hasher \<Rightarrow> nat \<Rightarrow> nat \<Rightarrow> digest \<Rightarrow> digest list \<Rightarrow> digest option" where
  "spec_rebuild h m n lf path =
    (if n = 0 then None
     else if n = 1 then (if path = [] then Some lf else None)
     else if path = [] then None
     else let k = pow2_below n in
       if m < k
       then map_option (\<lambda>l. node h l (last path)) (spec_rebuild h m k lf (butlast path))
       else map_option (\<lambda>r. node h (last path) r) (spec_rebuild h (m - k) (n - k) lf (butlast path)))"
  by pat_completeness auto
termination
  by (relation "measure (\<lambda>(h, m, n, lf, path). n)") auto

declare spec_rebuild.simps [simp del]

function spec_subproof :: "hasher \<Rightarrow> nat \<Rightarrow> digest list \<Rightarrow> bool \<Rightarrow> digest list" where
  "spec_subproof h m ds b =
    (if m = length ds then (if b then [] else [mth h ds])
     else if length ds \<le> 1 then []
     else let k = pow2_below (length ds) in
       if m \<le> k then spec_subproof h m (take k ds) b @ [mth h (drop k ds)]
       else spec_subproof h (m - k) (drop k ds) False @ [mth h (take k ds)])"
  by pat_completeness auto
termination
  by (relation "measure (\<lambda>(h, m, ds, b). length ds)") (auto simp: min_less_iff_disj not_le intro!: diff_less)

declare spec_subproof.simps [simp del]

function spec_reconsistency ::
    "hasher \<Rightarrow> nat \<Rightarrow> nat \<Rightarrow> bool \<Rightarrow> digest \<Rightarrow> digest list \<Rightarrow> (digest \<times> digest) option" where
  "spec_reconsistency h m n b seed path =
    (if m = n then
       (if b then (if path = [] then Some (seed, seed) else None)
        else (case path of [d] \<Rightarrow> Some (d, d) | _ \<Rightarrow> None))
     else if path = [] \<or> n \<le> 1 then None
     else let k = pow2_below n in
       if m \<le> k
       then map_option (\<lambda>(ol, nl). (ol, node h nl (last path)))
              (spec_reconsistency h m k b seed (butlast path))
       else map_option (\<lambda>(rold, nr). (node h (last path) rold, node h (last path) nr))
              (spec_reconsistency h (m - k) (n - k) False seed (butlast path)))"
  by pat_completeness auto
termination
  by (relation "measure (\<lambda>(h, m, n, b, seed, path). n)") auto

declare spec_reconsistency.simps [simp del]

section \<open>The split point\<close>

lemma split_loop_step:
  "2 ^ j < n \<Longrightarrow> n \<le> 2 ^ 63 \<Longrightarrow>
    split_loop (word_of_nat n) (2 ^ j) = split_loop (word_of_nat n) (2 ^ Suc j)"
proof -
  assume j: "2 ^ j < n" and n: "n \<le> 2 ^ 63"
  then have "(2 :: nat) ^ j < 2 ^ 63" by linarith
  then have "j < 63" by (rule pow2_less_63)
  then have "unat (2 ^ j :: usize) = 2 ^ j" by (simp add: unat_pow2)
  moreover from n have "unat (word_of_nat n :: usize) = n"
    by (rule unat_word_of_nat64 [OF le_2_63_less])
  ultimately have "(2 ^ j :: usize) < word_of_nat n" using j by (simp add: word_less_nat_alt)
  then show ?thesis
    by (subst split_loop.simps) (simp add: push_bit_eq_mult mult.commute)
qed

lemma split_loop_from:
  assumes "j \<le> Suc i" and "2 ^ i < n" and "n \<le> 2 ^ Suc i" and n: "n \<le> 2 ^ 63"
  shows "split_loop (word_of_nat n) (2 ^ j) = Some (2 ^ i)"
  using assms(1)
proof (induction rule: inc_induct)
  case base
  from assms have "(2 :: nat) ^ i < 2 ^ 63" by linarith
  then have i: "i < 63" by (rule pow2_less_63)
  then have "unat (2 ^ Suc i :: usize) = 2 ^ Suc i" by (intro unat_pow2) simp
  moreover from n have "unat (word_of_nat n :: usize) = n"
    by (rule unat_word_of_nat64 [OF le_2_63_less])
  ultimately have "\<not> (2 ^ Suc i :: usize) < word_of_nat n"
    using assms(3) by (simp only: word_less_nat_alt not_less)
  moreover have "drop_bit 1 (2 ^ Suc i :: usize) = 2 ^ i"
    using i by (intro bit_word_eqI) (auto simp: bit_simps)
  ultimately show ?case by (subst split_loop.simps) simp
next
  case (step j)
  from step(2) have "(2 :: nat) ^ j \<le> 2 ^ i" by simp
  with assms(2) have "2 ^ j < n" by linarith
  with step(3) n show ?case by (simp only: split_loop_step)
qed

lemma split_point_eq:
  assumes "2 \<le> n" and "n \<le> 2 ^ 63"
  shows "split_point (word_of_nat n) = Some (word_of_nat (pow2_below n))"
proof -
  from pow2_below_bounds [OF assms(1)] obtain i where
    i: "2 ^ i < n" "n \<le> 2 ^ Suc i" "pow2_below n = 2 ^ i" by auto
  from split_loop_from [OF _ i(1,2) assms(2), of 0] i(3) show ?thesis
    by (simp add: split_point_def)
qed

lemma unat_pow2_below:
  "2 \<le> n \<Longrightarrow> n \<le> 2 ^ 63 \<Longrightarrow> unat (word_of_nat (pow2_below n) :: usize) = pow2_below n"
proof -
  assume "2 \<le> n" "n \<le> 2 ^ 63"
  then have "pow2_below n \<le> 2 ^ 63" using pow2_below_less [of n] by linarith
  then show ?thesis by (rule unat_word_of_nat64 [OF le_2_63_less])
qed

text \<open>Above \<^term>\<open>2 ^ 63 :: nat\<close> the shifted word passes through every power of two and
  then stays at zero, below \<^verbatim>\<open>n\<close> for ever.\<close>

lemma pow2_word_le: "(2 :: usize) ^ j \<le> 2 ^ 63"
proof (cases "j \<le> 63")
  case True
  then have "(2 :: nat) ^ j \<le> 2 ^ 63" by (rule power_increasing) simp
  moreover from True have "unat ((2 :: usize) ^ j) = 2 ^ j" by (intro unat_pow2) simp
  moreover have "unat ((2 :: usize) ^ 63) = 2 ^ 63" by (rule unat_pow2) simp
  ultimately show ?thesis by (simp only: word_le_nat_alt)
next
  case False
  then have "(2 :: usize) ^ j = 0" by (simp add: exp_eq_zero_iff)
  then show ?thesis by (simp only: word_zero_le)
qed

lemma split_loop_diverges:
  assumes "split_loop n k = Some y"
  shows "\<not> (2 ^ 63 < n \<and> (\<exists>j. k = 2 ^ j))"
proof (rule split_loop.raw_induct
    [where P = "\<lambda>n k y. \<not> (2 ^ 63 < n \<and> (\<exists>j. k = 2 ^ j))", OF _ assms])
  fix f :: "usize \<Rightarrow> usize \<Rightarrow> usize option" and n k y
  assume IH: "\<And>n k y. f n k = Some y \<Longrightarrow> \<not> (2 ^ 63 < n \<and> (\<exists>j. k = 2 ^ j))"
    and eq: "(if k < n then f n (push_bit 1 k) else Some (drop_bit 1 k)) = Some y"
  have shift: "push_bit 1 (2 ^ j :: usize) = 2 ^ Suc j" for j
    by (simp add: push_bit_eq_mult)
  show "\<not> (2 ^ 63 < n \<and> (\<exists>j. k = 2 ^ j))"
  proof (cases "k < n")
    case True
    with eq have "f n (push_bit 1 k) = Some y" by simp
    from IH [OF this] shift show ?thesis by blast
  next
    case False
    have "2 ^ j < n" if "2 ^ 63 < n" for j
      by (rule le_less_trans [OF pow2_word_le that])
    with False show ?thesis by blast
  qed
qed

lemma split_point_diverges:
  assumes "2 ^ 63 < n"
  shows "split_point n = None"
proof (cases "split_loop n (2 ^ 0)")
  case (Some y)
  from split_loop_diverges [OF this] assms show ?thesis by blast
qed (simp add: split_point_def)

section \<open>The code computes the reference definitions\<close>

lemma split_point_unat:
  assumes "2 \<le> unat n" and "unat n \<le> 2 ^ 63"
  shows "split_point n = Some (word_of_nat (pow2_below (unat n)))"
  using split_point_eq [OF assms] by simp

lemma unat_len:
  "length ds \<le> 2 ^ 63 \<Longrightarrow> unat (word_of_nat (length ds) :: usize) = length ds"
  by (rule unat_word_of_nat64 [OF le_2_63_less])

lemma word_less_pow2_below:
  assumes "2 \<le> n" and "n \<le> 2 ^ 63"
  shows "(m :: usize) < word_of_nat (pow2_below n) \<longleftrightarrow> unat m < pow2_below n"
    and "(m :: usize) \<le> word_of_nat (pow2_below n) \<longleftrightarrow> unat m \<le> pow2_below n"
  using unat_pow2_below [OF assms] by (simp_all add: word_less_nat_alt word_le_nat_alt)

lemma unat_minus_pow2_below:
  assumes "2 \<le> n" and "n \<le> 2 ^ 63" and "pow2_below n \<le> unat (m :: usize)"
  shows "unat (m - word_of_nat (pow2_below n)) = unat m - pow2_below n"
  using unat_pow2_below [OF assms(1,2)] assms(3) by (subst unat_sub) (simp_all add: word_le_nat_alt)

lemmas split_words = word_less_pow2_below unat_minus_pow2_below unat_pow2_below split_point_eq

lemma mth_split:
  assumes "2 \<le> length ds"
  shows "mth h ds = node h (mth h (take (pow2_below (length ds)) ds)) (mth h (drop (pow2_below (length ds)) ds))"
proof -
  from assms obtain a b cs where "ds = a # b # cs"
    by (cases ds; cases "tl ds") auto
  then show ?thesis by (simp only: mth.simps Let_def)
qed

lemma pow2_below_take_drop:
  assumes "2 \<le> length ds"
  shows "length (take (pow2_below (length ds)) ds) = pow2_below (length ds)"
    and "length (take (pow2_below (length ds)) ds) < length ds"
    and "length (drop (pow2_below (length ds)) ds) < length ds"
  using pow2_below_less [OF assms] by (auto intro!: diff_less)

lemma merkle_root_eq: "length ds \<le> 2 ^ 63 \<Longrightarrow> merkle_root h ds = Some (mth h ds)"
proof (induction ds rule: length_induct)
  case (1 ds)
  consider "ds = []" | d where "ds = [d]" | "2 \<le> length ds"
    by (cases ds; cases "tl ds") auto
  then show ?case
  proof cases
    case 3
    note td = pow2_below_take_drop [OF 3]
    from td(2,3) 1 have
      "merkle_root h (take (pow2_below (length ds)) ds) = Some (mth h (take (pow2_below (length ds)) ds))"
      "merkle_root h (drop (pow2_below (length ds)) ds) = Some (mth h (drop (pow2_below (length ds)) ds))"
      by (meson less_imp_le order.trans)+
    moreover from 3 have "length ds \<noteq> 0" "length ds \<noteq> 1" by linarith+
    ultimately show ?thesis
      by (subst merkle_root.simps)
        (simp only: if_False mth_split [OF 3] split_words [OF 3 "1.prems"] Option.bind_lunit)
  qed (subst merkle_root.simps; simp)+
qed

lemma audit_path_eq:
  "length ds \<le> 2 ^ 63 \<Longrightarrow> audit_path h m ds = Some (spec_path h (unat m) ds)"
proof (induction ds arbitrary: m rule: length_induct)
  case (1 ds)
  show ?case
  proof (cases "length ds \<le> 1")
    case True
    then show ?thesis by (subst audit_path.simps, subst spec_path.simps) simp
  next
    case False
    then have two: "2 \<le> length ds" by simp
    note td = pow2_below_take_drop [OF two]
    let ?k = "pow2_below (length ds)"
    from td(2,3) 1 have le: "length (take ?k ds) \<le> 2 ^ 63" "length (drop ?k ds) \<le> 2 ^ 63"
      by (meson less_imp_le order.trans)+
    from 1 td(2,3) le have IH:
      "audit_path h m (take ?k ds) = Some (spec_path h (unat m) (take ?k ds))"
      "audit_path h m (drop ?k ds) = Some (spec_path h (unat m) (drop ?k ds))" for m
      by blast+
    show ?thesis
      by (subst audit_path.simps, subst spec_path.simps)
        (simp add: False Let_def split_words [OF two "1.prems"] IH merkle_root_eq [OF le(1)]
          merkle_root_eq [OF le(2)] del: length_take length_drop)
  qed
qed

lemma subproof_eq:
  "length ds \<le> 2 ^ 63 \<Longrightarrow> 0 < m \<Longrightarrow> unat m \<le> length ds \<Longrightarrow>
    subproof h m ds b = Some (spec_subproof h (unat m) ds b)"
proof (induction ds arbitrary: m b rule: length_induct)
  case (1 ds)
  have m_eq: "m = word_of_nat (length ds) \<longleftrightarrow> unat m = length ds"
    using unat_len [OF "1.prems"(1)] by (simp only: word_unat_eq_iff)
  from "1.prems"(2) have m0: "0 < unat m" by (simp add: unat_gt_0 word_neq_0_conv)
  show ?case
  proof (cases "unat m = length ds")
    case True
    then show ?thesis
      by (subst subproof.simps, subst spec_subproof.simps)
        (simp add: m_eq merkle_root_eq [OF "1.prems"(1)])
  next
    case False
    with "1.prems" m0 have two: "2 \<le> length ds" by linarith
    note td = pow2_below_take_drop [OF two]
    let ?k = "pow2_below (length ds)"
    from td(2,3) "1.prems"(1) have le: "length (take ?k ds) \<le> 2 ^ 63" "length (drop ?k ds) \<le> 2 ^ 63"
      by (meson less_imp_le order.trans)+
    show ?thesis
    proof (cases "unat m \<le> ?k")
      case True
      with 1 td(1,2) le have "subproof h m (take ?k ds) b = Some (spec_subproof h (unat m) (take ?k ds) b)"
        by simp
      with True two show ?thesis
        by (subst subproof.simps, subst spec_subproof.simps)
          (simp add: False m_eq split_words [OF two "1.prems"(1)] Let_def merkle_root_eq [OF le(2)]
            del: length_take length_drop)
    next
      case outer: False
      let ?m = "m - word_of_nat ?k :: usize"
      from outer have um: "unat ?m = unat m - ?k"
        by (intro split_words(3) [OF two "1.prems"(1)]) simp
      with outer have "0 < ?m" by (simp add: word_less_nat_alt)
      moreover from um "1.prems"(3) have "unat ?m \<le> length (drop ?k ds)" by simp
      ultimately have "subproof h ?m (drop ?k ds) False = Some (spec_subproof h (unat ?m) (drop ?k ds) False)"
        using 1 td(3) le by blast
      with outer um two show ?thesis
        by (subst subproof.simps, subst spec_subproof.simps)
          (simp add: False m_eq split_words [OF two "1.prems"(1)] Let_def merkle_root_eq [OF le(1)]
            del: length_take length_drop)
    qed
  qed
qed

lemma rebuild_inclusion_eq:
  "unat n \<le> 2 ^ 63 \<Longrightarrow>
    rebuild_inclusion h m n lf path = Some (spec_rebuild h (unat m) (unat n) lf path)"
proof (induction "unat n" arbitrary: m n path rule: less_induct)
  case less
  have n01: "n = 0 \<longleftrightarrow> unat n = 0" "n = 1 \<longleftrightarrow> unat n = 1"
    by (simp_all add: word_unat_eq_iff)
  show ?case
  proof (cases "unat n \<le> 1 \<or> path = []")
    case True
    then have "unat n = 0 \<or> unat n = 1 \<or> path = []" by linarith
    then show ?thesis
      by (subst rebuild_inclusion.simps, subst spec_rebuild.simps) (auto simp: n01)
  next
    case False
    then have two: "2 \<le> unat n" and ne: "path \<noteq> []" by simp_all
    then obtain rest lst where path: "path = rest @ [lst]" by (cases path rule: rev_cases) auto
    let ?k = "pow2_below (unat n)" and ?K = "word_of_nat (pow2_below (unat n)) :: usize"
    note w = split_words [OF two less.prems]
    from less.prems two pow2_below_less [OF two] have k: "?k < unat n" "?k \<le> 2 ^ 63" by linarith+
    have kn: "unat (n - ?K) = unat n - ?k"
      using k by (intro w(3)) simp
    then have nk: "unat (n - ?K) < unat n" using k by (simp add: diff_less)
    have IH1: "rebuild_inclusion h m ?K lf rest = Some (spec_rebuild h (unat m) ?k lf rest)"
      using less.hyps [of ?K m rest] k by (simp only: w(4))
    have IH2: "rebuild_inclusion h m' (n - ?K) lf rest = Some (spec_rebuild h (unat m') (unat n - ?k) lf rest)"
      for m' using less.hyps [of "n - ?K" m' rest] nk less.prems by (simp only: kn)
    from two have "unat n \<noteq> 0" "unat n \<noteq> 1" by linarith+
    then show ?thesis
      by (subst rebuild_inclusion.simps, subst spec_rebuild.simps)
        (simp add: n01 path Let_def split_point_unat [OF two less.prems] w IH1 IH2)
  qed
qed

lemma rebuild_consistency_eq:
  "unat n \<le> 2 ^ 63 \<Longrightarrow> 0 < m \<Longrightarrow> m \<le> n \<Longrightarrow>
    rebuild_consistency h m n b seed path = Some (spec_reconsistency h (unat m) (unat n) b seed path)"
proof (induction "unat n" arbitrary: m n b path rule: less_induct)
  case less
  have mn: "m = n \<longleftrightarrow> unat m = unat n" by (rule word_unat_eq_iff)
  from less.prems have m0: "0 < unat m" "unat m \<le> unat n"
    by (simp_all add: word_le_nat_alt unat_gt_0)
  show ?case
  proof (cases "unat m = unat n")
    case True
    then show ?thesis
      by (subst rebuild_consistency.simps, subst spec_reconsistency.simps)
        (auto simp: mn split_last_def split: list.splits)
  next
    case False
    with m0 have two: "2 \<le> unat n" by linarith
    let ?k = "pow2_below (unat n)" and ?K = "word_of_nat (pow2_below (unat n)) :: usize"
    note w = split_words [OF two less.prems(1)]
    show ?thesis
    proof (cases path rule: rev_cases)
      case Nil
      with False show ?thesis
        by (subst rebuild_consistency.simps, subst spec_reconsistency.simps)
          (simp add: mn split_point_unat [OF two less.prems(1)])
    next
      case (snoc rest lst)
      from less.prems(1) pow2_below_less [OF two] have k: "?k < unat n" "?k \<le> 2 ^ 63" by linarith+
      have kn: "unat (n - ?K) = unat n - ?k" using k by (intro w(3)) simp
      show ?thesis
      proof (cases "unat m \<le> ?k")
        case True
        have IH: "rebuild_consistency h m ?K b seed rest = Some (spec_reconsistency h (unat m) ?k b seed rest)"
          using less.hyps [of ?K m b rest] k less.prems(2) True by (simp only: w)
        from False True two show ?thesis
          by (subst rebuild_consistency.simps, subst spec_reconsistency.simps)
            (simp add: mn snoc Let_def split_point_unat [OF two less.prems(1)] w IH)
      next
        case outer: False
        then have um: "unat (m - ?K) = unat m - ?k" by (intro w(3)) simp
        with outer have "0 < m - ?K" by (simp add: word_less_nat_alt)
        moreover from um kn m0 have "m - ?K \<le> n - ?K" by (simp add: word_le_nat_alt)
        moreover from kn k have "unat (n - ?K) < unat n" by (simp add: diff_less)
        ultimately have "rebuild_consistency h (m - ?K) (n - ?K) False seed rest =
            Some (spec_reconsistency h (unat (m - ?K)) (unat (n - ?K)) False seed rest)"
          using less.hyps [of "n - ?K" "m - ?K" False rest] less.prems(1) by linarith
        then have IH: "rebuild_consistency h (m - ?K) (n - ?K) False seed rest =
            Some (spec_reconsistency h (unat m - ?k) (unat n - ?k) False seed rest)"
          by (simp only: um kn)
        from False outer two show ?thesis
          by (subst rebuild_consistency.simps, subst spec_reconsistency.simps)
            (simp add: mn snoc Let_def split_point_unat [OF two less.prems(1)] w IH)
      qed
    qed
  qed
qed

end
