(* ===== verification/Merkle_Security.thy ===== *)
theory Merkle_Security
  imports Merkle_Tree
begin

text \<open>
  Completeness and soundness of the Merkle proofs, over the reference definitions
  of \<^verbatim>\<open>Merkle_Tree\<close>.  Completeness: what the prover generates, the verifier
  accepts.  Soundness: from an accepted proof of something else one can compute
  two different byte strings with the same hash; \<^verbatim>\<open>incl_collision\<close> and
  \<^verbatim>\<open>cons_collision\<close> are the algorithms that do it.  No injectivity of the hash is
  assumed, only that its output width is fixed.
\<close>

section \<open>Uniqueness of the split point\<close>

lemma pow2_below_unique:
  assumes "2 ^ i < n" and "n \<le> 2 * 2 ^ i"
  shows "pow2_below n = 2 ^ i"
proof -
  have "(1 :: nat) \<le> 2 ^ i" by simp
  with assms(1) have "2 \<le> n" by linarith
  from pow2_below_bounds [OF this] obtain j where
    j: "2 ^ j < n" "n \<le> 2 * 2 ^ j" "pow2_below n = 2 ^ j" by auto
  from assms j have "(2 :: nat) ^ j < 2 ^ Suc i" "(2 :: nat) ^ i < 2 ^ Suc j" by simp_all
  then have "j < Suc i" "i < Suc j" by (simp_all only: power_strict_increasing_iff one_less_numeral_iff semiring_norm)
  with j(3) show ?thesis by simp
qed

lemma pow2_below_between:
  assumes "2 \<le> n" and "pow2_below n < m" and "m \<le> n"
  shows "pow2_below m = pow2_below n"
proof -
  from pow2_below_bounds [OF assms(1)] obtain i where
    i: "n \<le> 2 * pow2_below n" "pow2_below n = 2 ^ i" by blast
  with assms show ?thesis using pow2_below_unique [of i m] by simp
qed

lemma spec_rebuild_left:
  "2 \<le> n \<Longrightarrow> path \<noteq> [] \<Longrightarrow> m < pow2_below n \<Longrightarrow> spec_rebuild h m n lf path =
    map_option (\<lambda>l. node h l (last path)) (spec_rebuild h m (pow2_below n) lf (butlast path))"
  using spec_rebuild.simps [of h m n lf path] by (simp add: Let_def)

lemma spec_rebuild_right:
  "2 \<le> n \<Longrightarrow> path \<noteq> [] \<Longrightarrow> \<not> m < pow2_below n \<Longrightarrow> spec_rebuild h m n lf path =
    map_option (\<lambda>r. node h (last path) r)
      (spec_rebuild h (m - pow2_below n) (n - pow2_below n) lf (butlast path))"
  using spec_rebuild.simps [of h m n lf path] by (simp add: Let_def)

lemma spec_rebuild_Nil: "2 \<le> n \<Longrightarrow> spec_rebuild h m n lf [] = None"
  using spec_rebuild.simps [of h m n lf "[]"] by simp

lemma spec_rebuild_one: "spec_rebuild h m (Suc 0) lf path = (if path = [] then Some lf else None)"
  using spec_rebuild.simps [of h m "Suc 0" lf path] by simp

lemma spec_path_left:
  "2 \<le> length ds \<Longrightarrow> m < pow2_below (length ds) \<Longrightarrow> spec_path h m ds =
    spec_path h m (take (pow2_below (length ds)) ds) @ [mth h (drop (pow2_below (length ds)) ds)]"
  using spec_path.simps [of h m ds] by (simp add: Let_def)

lemma spec_path_right:
  "2 \<le> length ds \<Longrightarrow> \<not> m < pow2_below (length ds) \<Longrightarrow> spec_path h m ds =
    spec_path h (m - pow2_below (length ds)) (drop (pow2_below (length ds)) ds)
      @ [mth h (take (pow2_below (length ds)) ds)]"
  using spec_path.simps [of h m ds] by (simp add: Let_def)

section \<open>Completeness\<close>

lemma spec_rebuild_path:
  "i < length ds \<Longrightarrow> spec_rebuild h i (length ds) (ds ! i) (spec_path h i ds) = Some (mth h ds)"
proof (induction ds arbitrary: i rule: measure_induct_rule [of length])
  case (less ds)
  show ?case
  proof (cases "length ds \<le> 1")
    case True
    with less.prems obtain d where "ds = [d]" "i = 0" by (cases ds) auto
    then show ?thesis by (subst spec_path.simps, subst spec_rebuild.simps) simp
  next
    case False
    then have two: "2 \<le> length ds" by simp
    let ?k = "pow2_below (length ds)"
    note td = pow2_below_take_drop [OF two]
    show ?thesis
    proof (cases "i < ?k")
      case True
      with td(1) less.IH [OF td(2), of i]
      have "spec_rebuild h i (length (take ?k ds)) (take ?k ds ! i) (spec_path h i (take ?k ds)) =
          Some (mth h (take ?k ds))" by (simp del: length_take)
      with True td(1) have "spec_rebuild h i ?k (ds ! i) (spec_path h i (take ?k ds)) = Some (mth h (take ?k ds))"
        by simp
      then show ?thesis
        using True by (simp add: spec_path_left [OF two] spec_rebuild_left [OF two] mth_split [OF two])
    next
      case outer: False
      with less.prems have "i - ?k < length (drop ?k ds)" by simp
      with less.IH [OF td(3)] have "spec_rebuild h (i - ?k) (length (drop ?k ds)) (drop ?k ds ! (i - ?k))
          (spec_path h (i - ?k) (drop ?k ds)) = Some (mth h (drop ?k ds))" by blast
      with outer less.prems have "spec_rebuild h (i - ?k) (length ds - ?k) (ds ! i)
          (spec_path h (i - ?k) (drop ?k ds)) = Some (mth h (drop ?k ds))" by simp
      then show ?thesis
        using outer by (simp add: spec_path_right [OF two] spec_rebuild_right [OF two] mth_split [OF two])
    qed
  qed
qed

lemma mth_take_split:
  assumes "2 \<le> length ds" and "pow2_below (length ds) < m" and "m \<le> length ds"
  shows "mth h (take m ds) = node h (mth h (take (pow2_below (length ds)) ds))
    (mth h (take (m - pow2_below (length ds)) (drop (pow2_below (length ds)) ds)))"
proof -
  let ?k = "pow2_below (length ds)"
  have k0: "0 < ?k" by simp
  from assms(2) k0 have "2 \<le> m" by linarith
  with assms(1,3) have "2 \<le> length (take m ds)" by simp
  note mth_split [OF this, of h]
  moreover have "pow2_below (length (take m ds)) = ?k"
    using pow2_below_between [OF assms] assms(3) by (simp add: min_absorb2)
  moreover from assms(2) have "take ?k (take m ds) = take ?k ds" by (simp add: min_absorb1)
  moreover have "drop ?k (take m ds) = take (m - ?k) (drop ?k ds)" by (simp add: drop_take)
  ultimately show ?thesis by (simp only:)
qed

lemma spec_reconsistency_subproof:
  "0 < m \<Longrightarrow> m \<le> length ds \<Longrightarrow> (b \<longrightarrow> seed = mth h (take m ds)) \<Longrightarrow>
    spec_reconsistency h m (length ds) b seed (spec_subproof h m ds b) = Some (mth h (take m ds), mth h ds)"
proof (induction ds arbitrary: m b rule: measure_induct_rule [of length])
  case (less ds)
  show ?case
  proof (cases "m = length ds")
    case True
    with less show ?thesis by (subst spec_subproof.simps, subst spec_reconsistency.simps) simp
  next
    case False
    with less.prems have two: "2 \<le> length ds" by linarith
    let ?k = "pow2_below (length ds)"
    note td = pow2_below_take_drop [OF two]
    show ?thesis
    proof (cases "m \<le> ?k")
      case True
      then have tt: "take m (take ?k ds) = take m ds" by simp
      have "spec_reconsistency h m (length (take ?k ds)) b seed (spec_subproof h m (take ?k ds) b) =
          Some (mth h (take m (take ?k ds)), mth h (take ?k ds))"
        using less.IH [OF td(2), of m b] td(1) less.prems True tt by (simp del: length_take)
      with True td(1) tt have "spec_reconsistency h m ?k b seed (spec_subproof h m (take ?k ds) b) =
          Some (mth h (take m ds), mth h (take ?k ds))" by simp
      with True False two show ?thesis
        by (subst spec_subproof.simps, subst spec_reconsistency.simps) (simp add: Let_def mth_split [OF two])
    next
      case outer: False
      with less.prems have "m - ?k \<le> length (drop ?k ds)" "0 < m - ?k" by simp_all
      then have "spec_reconsistency h (m - ?k) (length (drop ?k ds)) False seed
          (spec_subproof h (m - ?k) (drop ?k ds) False) =
          Some (mth h (take (m - ?k) (drop ?k ds)), mth h (drop ?k ds))"
        by (intro less.IH [OF td(3)]) simp_all
      then have "spec_reconsistency h (m - ?k) (length ds - ?k) False seed
          (spec_subproof h (m - ?k) (drop ?k ds) False) =
          Some (mth h (take (m - ?k) (drop ?k ds)), mth h (drop ?k ds))" by simp
      moreover from outer less.prems have "mth h (take m ds) =
          node h (mth h (take ?k ds)) (mth h (take (m - ?k) (drop ?k ds)))"
        by (intro mth_take_split [OF two]) simp_all
      ultimately show ?thesis using outer False two
        by (subst spec_subproof.simps, subst spec_reconsistency.simps) (simp add: Let_def mth_split [OF two])
    qed
  qed
qed

section \<open>Length of a proof\<close>

lemma length_spec_path: "length ds \<le> 2 ^ j \<Longrightarrow> length (spec_path h m ds) \<le> j"
proof (induction j arbitrary: ds m)
  case 0
  then show ?case by (subst spec_path.simps) simp
next
  case (Suc j)
  show ?case
  proof (cases "length ds \<le> 1")
    case True
    then show ?thesis by (subst spec_path.simps) simp
  next
    case False
    then have two: "2 \<le> length ds" by simp
    let ?k = "pow2_below (length ds)"
    from pow2_below_bounds [OF two] obtain i where
      i: "?k < length ds" "length ds \<le> 2 * ?k" "?k = 2 ^ i" by blast
    with Suc.prems have "(2 :: nat) ^ i < 2 ^ Suc j" by simp
    then have "i \<le> j" by (simp only: power_strict_increasing_iff one_less_numeral_iff semiring_norm less_Suc_eq_le)
    then have k: "?k \<le> 2 ^ j" using i(3) by simp
    moreover from k i(2) have "length ds - ?k \<le> 2 ^ j" by linarith
    ultimately have "length (take ?k ds) \<le> 2 ^ j" "length (drop ?k ds) \<le> 2 ^ j" by simp_all
    then have "length (spec_path h m' (take ?k ds)) \<le> j" "length (spec_path h m' (drop ?k ds)) \<le> j" for m'
      using Suc.IH by blast+
    then show ?thesis by (subst spec_path.simps) (simp add: Let_def)
  qed
qed

section \<open>Soundness\<close>

definition hash_collision :: "hasher \<Rightarrow> bytes \<times> bytes \<Rightarrow> bool" where
  "hash_collision h p \<longleftrightarrow> fst p \<noteq> snd p \<and> hs_make h (fst p) = hs_make h (snd p)"

definition fixed_width :: "hasher \<Rightarrow> nat \<Rightarrow> bool" where
  "fixed_width h d \<longleftrightarrow> (\<forall>x. length (hs_make h x) = d)"

definition wf_digest :: "hasher \<Rightarrow> nat \<Rightarrow> digest \<Rightarrow> bool" where
  "wf_digest h d x \<longleftrightarrow> dg_algo x = hs_algo h \<and> length (dg_bytes x) = d"

abbreviation wf_digests :: "hasher \<Rightarrow> nat \<Rightarrow> digest list \<Rightarrow> bool" where
  "wf_digests h d xs \<equiv> list_all (wf_digest h d) xs"

definition node_input :: "digest \<Rightarrow> digest \<Rightarrow> bytes" where
  "node_input l r = NODE_PREFIX # dg_bytes l @ dg_bytes r"

lemma node_eq: "node h l r = hash_data h (node_input l r)"
  by (simp add: node_def node_input_def)

lemma hash_data_bytes [simp]: "dg_bytes (hash_data h x) = hs_make h x"
  and hash_data_algo [simp]: "dg_algo (hash_data h x) = hs_algo h"
  by (simp_all add: hash_data_def)

lemma wf_hash_data: "fixed_width h d \<Longrightarrow> wf_digest h d (hash_data h x)"
  by (simp add: wf_digest_def fixed_width_def)

lemma wf_node: "fixed_width h d \<Longrightarrow> wf_digest h d (node h l r)"
  by (simp add: node_eq wf_hash_data)

lemma wf_leaf: "fixed_width h d \<Longrightarrow> wf_digest h d (leaf h x)"
  by (simp add: leaf_def wf_hash_data)

lemma wf_digest_eqI:
  "wf_digest h d x \<Longrightarrow> wf_digest h d y \<Longrightarrow> dg_bytes x = dg_bytes y \<Longrightarrow> x = y"
  by (simp add: wf_digest_def)

lemma wf_mth: "fixed_width h d \<Longrightarrow> wf_digests h d ds \<Longrightarrow> wf_digest h d (mth h ds)"
proof (cases "2 \<le> length ds")
  case True
  assume "fixed_width h d"
  then show ?thesis by (simp add: mth_split [OF True] wf_node)
next
  case False
  assume "fixed_width h d" "wf_digests h d ds"
  with False show ?thesis by (cases ds; cases "tl ds") (auto simp: empty_root_def wf_hash_data)
qed

lemma wf_digests_take_drop:
  "wf_digests h d ds \<Longrightarrow> wf_digests h d (take k ds)"
  "wf_digests h d ds \<Longrightarrow> wf_digests h d (drop k ds)"
  by (auto simp: list_all_iff dest: in_set_takeD in_set_dropD)

text \<open>Two equal node hashes have equal children or are a collision.  The width of one
  child on each side is enough to cut the concatenations at the same place.\<close>

lemma node_input_left:
  "length (dg_bytes l) = length (dg_bytes l') \<Longrightarrow>
    node_input l r = node_input l' r' \<longleftrightarrow> dg_bytes l = dg_bytes l' \<and> dg_bytes r = dg_bytes r'"
  by (simp add: node_input_def)

lemma node_input_right:
  "length (dg_bytes r) = length (dg_bytes r') \<Longrightarrow>
    node_input l r = node_input l' r' \<longleftrightarrow> dg_bytes l = dg_bytes l' \<and> dg_bytes r = dg_bytes r'"
  by (simp add: node_input_def)

lemma node_bytes_eq_cases:
  assumes "dg_bytes (node h l r) = dg_bytes (node h l' r')"
  obtains "node_input l r = node_input l' r'"
    | "hash_collision h (node_input l r, node_input l' r')"
  using assms by (auto simp: node_eq hash_collision_def)

function incl_collision ::
    "hasher \<Rightarrow> nat \<Rightarrow> digest list \<Rightarrow> digest \<Rightarrow> digest list \<Rightarrow> (bytes \<times> bytes) option" where
  "incl_collision h m ds lf path =
    (if length ds \<le> 1 \<or> path = [] then None
     else let k = pow2_below (length ds); y = node_input (mth h (take k ds)) (mth h (drop k ds)) in
       if m < k then
         (case spec_rebuild h m k lf (butlast path) of
            None \<Rightarrow> None
          | Some l \<Rightarrow>
              if node_input l (last path) \<noteq> y then Some (node_input l (last path), y)
              else incl_collision h m (take k ds) lf (butlast path))
       else
         (case spec_rebuild h (m - k) (length ds - k) lf (butlast path) of
            None \<Rightarrow> None
          | Some r \<Rightarrow>
              if node_input (last path) r \<noteq> y then Some (node_input (last path) r, y)
              else incl_collision h (m - k) (drop k ds) lf (butlast path)))"
  by pat_completeness auto
termination
  by (relation "measure (\<lambda>(h, m, ds, lf, path). length ds)")
    (auto simp: min_less_iff_disj not_le intro!: diff_less)

declare incl_collision.simps [simp del]

lemma spec_rebuild_wf:
  "fixed_width h d \<Longrightarrow> wf_digest h d lf \<Longrightarrow> spec_rebuild h m n lf path = Some r \<Longrightarrow> wf_digest h d r"
  using spec_rebuild.simps [of h m n lf path] by (auto simp: wf_node Let_def split: if_splits)

lemma spec_rebuild_sound:
  assumes "fixed_width h d" and "wf_digest h d lf"
  shows "wf_digests h d ds \<Longrightarrow> m < length ds \<Longrightarrow> spec_rebuild h m (length ds) lf path = Some r \<Longrightarrow>
    dg_bytes r = dg_bytes (mth h ds) \<Longrightarrow>
    lf = ds ! m \<or> (\<exists>c. incl_collision h m ds lf path = Some c \<and> hash_collision h c)"
proof (induction ds arbitrary: m path r rule: measure_induct_rule [of length])
  case (less ds)
  show ?case
  proof (cases "length ds \<le> 1")
    case True
    with less.prems obtain e where ds: "ds = [e]" "m = 0" by (cases ds) auto
    with less.prems(3) have "r = lf" by (simp add: spec_rebuild_one split: if_splits)
    with less.prems ds assms show ?thesis by (auto intro: wf_digest_eqI)
  next
    case False
    then have two: "2 \<le> length ds" by simp
    let ?k = "pow2_below (length ds)"
    let ?L = "mth h (take ?k ds)" and ?R = "mth h (drop ?k ds)"
    note td = pow2_below_take_drop [OF two]
    note wfs = wf_digests_take_drop [OF less.prems(1), of ?k]
    note wfm = wf_mth [OF assms(1) wfs(1)] wf_mth [OF assms(1) wfs(2)]
    from less.prems(3) spec_rebuild_Nil [OF two] have ne: "path \<noteq> []" by auto
    show ?thesis
    proof (cases "m < ?k")
      case True
      with less.prems(3) obtain l where
        l: "spec_rebuild h m ?k lf (butlast path) = Some l" and r: "r = node h l (last path)"
        by (auto simp: spec_rebuild_left [OF two ne])
      have wl: "wf_digest h d l" by (rule spec_rebuild_wf [OF assms l])
      have eq: "incl_collision h m ds lf path =
          (if node_input l (last path) \<noteq> node_input ?L ?R then Some (node_input l (last path), node_input ?L ?R)
           else incl_collision h m (take ?k ds) lf (butlast path))"
        using False ne True l by (subst incl_collision.simps) (simp add: Let_def)
      show ?thesis
      proof (rule node_bytes_eq_cases [OF less.prems(4) [unfolded r mth_split [OF two]]])
        assume same: "node_input l (last path) = node_input ?L ?R"
        with wl wfm(1) have "dg_bytes l = dg_bytes ?L"
          by (simp add: node_input_left wf_digest_def)
        with less.IH [OF td(2) wfs(1), of m "butlast path" l] l True td(1) show ?thesis
          by (simp add: eq same del: length_take)
      qed (auto simp: eq hash_collision_def)
    next
      case outer: False
      with less.prems(3) obtain l where
        l: "spec_rebuild h (m - ?k) (length ds - ?k) lf (butlast path) = Some l"
        and r: "r = node h (last path) l"
        by (auto simp: spec_rebuild_right [OF two ne])
      have wl: "wf_digest h d l" by (rule spec_rebuild_wf [OF assms l])
      have eq: "incl_collision h m ds lf path =
          (if node_input (last path) l \<noteq> node_input ?L ?R then Some (node_input (last path) l, node_input ?L ?R)
           else incl_collision h (m - ?k) (drop ?k ds) lf (butlast path))"
        using False ne outer l by (subst incl_collision.simps) (simp add: Let_def)
      from outer less.prems(2) have mk: "m - ?k < length (drop ?k ds)" "drop ?k ds ! (m - ?k) = ds ! m"
        by simp_all
      show ?thesis
      proof (rule node_bytes_eq_cases [OF less.prems(4) [unfolded r mth_split [OF two]]])
        assume same: "node_input (last path) l = node_input ?L ?R"
        with wl wfm(2) have "dg_bytes l = dg_bytes ?R"
          by (simp add: node_input_right wf_digest_def)
        with less.IH [OF td(3) wfs(2) mk(1), of "butlast path" l] l show ?thesis
          by (simp add: eq same mk(2) del: nth_drop)
      qed (auto simp: eq hash_collision_def)
    qed
  qed
qed

lemma spec_reconsistency_left:
  "2 \<le> n \<Longrightarrow> m \<noteq> n \<Longrightarrow> path \<noteq> [] \<Longrightarrow> m \<le> pow2_below n \<Longrightarrow> spec_reconsistency h m n b seed path =
    map_option (\<lambda>(ol, nl). (ol, node h nl (last path)))
      (spec_reconsistency h m (pow2_below n) b seed (butlast path))"
  using spec_reconsistency.simps [of h m n b seed path] by (simp add: Let_def)

lemma spec_reconsistency_right:
  "2 \<le> n \<Longrightarrow> m \<noteq> n \<Longrightarrow> path \<noteq> [] \<Longrightarrow> \<not> m \<le> pow2_below n \<Longrightarrow> spec_reconsistency h m n b seed path =
    map_option (\<lambda>(rold, nr). (node h (last path) rold, node h (last path) nr))
      (spec_reconsistency h (m - pow2_below n) (n - pow2_below n) False seed (butlast path))"
  using spec_reconsistency.simps [of h m n b seed path] by (simp add: Let_def)

lemma spec_reconsistency_same:
  "spec_reconsistency h n n b seed path =
    (if b then (if path = [] then Some (seed, seed) else None)
     else (case path of [d] \<Rightarrow> Some (d, d) | _ \<Rightarrow> None))"
  using spec_reconsistency.simps [of h n n b seed path] by simp

lemma spec_reconsistency_Nil: "m \<noteq> n \<Longrightarrow> spec_reconsistency h m n b seed [] = None"
  using spec_reconsistency.simps [of h m n b seed "[]"] by simp

function cons_collision ::
    "hasher \<Rightarrow> nat \<Rightarrow> digest list \<Rightarrow> bool \<Rightarrow> digest \<Rightarrow> digest list \<Rightarrow> (bytes \<times> bytes) option" where
  "cons_collision h m ds b seed path =
    (if length ds \<le> 1 \<or> m = length ds \<or> path = [] then None
     else let k = pow2_below (length ds); y = node_input (mth h (take k ds)) (mth h (drop k ds)) in
       if m \<le> k then
         (case spec_reconsistency h m k b seed (butlast path) of
            None \<Rightarrow> None
          | Some (ol, nl) \<Rightarrow>
              if node_input nl (last path) \<noteq> y then Some (node_input nl (last path), y)
              else cons_collision h m (take k ds) b seed (butlast path))
       else
         (case spec_reconsistency h (m - k) (length ds - k) False seed (butlast path) of
            None \<Rightarrow> None
          | Some (rold, nr) \<Rightarrow>
              if node_input (last path) nr \<noteq> y then Some (node_input (last path) nr, y)
              else cons_collision h (m - k) (drop k ds) False seed (butlast path)))"
  by pat_completeness auto
termination
  by (relation "measure (\<lambda>(h, m, ds, b, seed, path). length ds)")
    (auto simp: min_less_iff_disj not_le intro!: diff_less)

declare cons_collision.simps [simp del]

lemma spec_reconsistency_wf:
  assumes "fixed_width h d" and "wf_digest h d seed"
  shows "wf_digests h d path \<Longrightarrow> spec_reconsistency h m n b seed path = Some (old, new) \<Longrightarrow>
    wf_digest h d old \<and> wf_digest h d new"
proof (induction path arbitrary: m n b old new rule: rev_induct)
  case Nil
  then show ?case using assms(2)
    by (cases "m = n") (auto simp: spec_reconsistency_same spec_reconsistency_Nil split: if_splits)
next
  case (snoc lst rest)
  from snoc.prems(1) have wfr: "wf_digests h d rest" "wf_digest h d lst" by simp_all
  show ?case
  proof (cases "m = n")
    case True
    with snoc.prems wfr show ?thesis
      by (auto simp: spec_reconsistency_same split: if_splits list.splits)
  next
    case False
    have two: "2 \<le> n"
    proof (rule ccontr)
      assume "\<not> 2 \<le> n"
      with False have "spec_reconsistency h m n b seed (rest @ [lst]) = None"
        using spec_reconsistency.simps [of h m n b seed "rest @ [lst]"] by simp
      with snoc.prems(2) show False by simp
    qed
    show ?thesis
    proof (cases "m \<le> pow2_below n")
      case True
      with snoc.prems(2) False two obtain nl where
        "spec_reconsistency h m (pow2_below n) b seed rest = Some (old, nl)" "new = node h nl lst"
        by (auto simp: spec_reconsistency_left)
      then show ?thesis using snoc.IH [OF wfr(1)] wf_node [OF assms(1)] by blast
    next
      case outer: False
      with snoc.prems(2) False two obtain x y where "old = node h lst x" "new = node h lst y"
        by (auto simp: spec_reconsistency_right)
      then show ?thesis using wf_node [OF assms(1)] by blast
    qed
  qed
qed

lemma wf_digests_butlast_last:
  "wf_digests h d path \<Longrightarrow> path \<noteq> [] \<Longrightarrow> wf_digests h d (butlast path) \<and> wf_digest h d (last path)"
  by (auto simp: list_all_iff dest: in_set_butlastD)

lemma spec_reconsistency_sound:
  assumes "fixed_width h d" and "wf_digest h d seed"
  shows "wf_digests h d ds \<Longrightarrow> wf_digests h d path \<Longrightarrow> 0 < m \<Longrightarrow> m \<le> length ds \<Longrightarrow>
    spec_reconsistency h m (length ds) b seed path = Some (old, new) \<Longrightarrow>
    dg_bytes new = dg_bytes (mth h ds) \<Longrightarrow>
    old = mth h (take m ds) \<or> (\<exists>c. cons_collision h m ds b seed path = Some c \<and> hash_collision h c)"
proof (induction ds arbitrary: m b path old new rule: measure_induct_rule [of length])
  case (less ds)
  show ?case
  proof (cases "m = length ds")
    case True
    with less.prems(5) have "old = new"
      by (auto simp: spec_reconsistency_same split: if_splits list.splits)
    with True less.prems spec_reconsistency_wf [OF assms less.prems(2,5)] wf_mth [OF assms(1) less.prems(1)]
    show ?thesis by (auto intro: wf_digest_eqI)
  next
    case False
    with less.prems have two: "2 \<le> length ds" by linarith
    let ?k = "pow2_below (length ds)"
    let ?L = "mth h (take ?k ds)" and ?R = "mth h (drop ?k ds)"
    note td = pow2_below_take_drop [OF two]
    note wfs = wf_digests_take_drop [OF less.prems(1), of ?k]
    note wfm = wf_mth [OF assms(1) wfs(1)] wf_mth [OF assms(1) wfs(2)]
    from less.prems(5) False have ne: "path \<noteq> []" by (auto simp: spec_reconsistency_Nil)
    note wfp = wf_digests_butlast_last [OF less.prems(2) ne]
    show ?thesis
    proof (cases "m \<le> ?k")
      case True
      with less.prems(5) False obtain nl where
        l: "spec_reconsistency h m ?k b seed (butlast path) = Some (old, nl)"
        and r: "new = node h nl (last path)"
        by (auto simp: spec_reconsistency_left [OF two _ ne])
      have wl: "wf_digest h d nl" using spec_reconsistency_wf [OF assms conjunct1 [OF wfp] l] by blast
      have eq: "cons_collision h m ds b seed path =
          (if node_input nl (last path) \<noteq> node_input ?L ?R then Some (node_input nl (last path), node_input ?L ?R)
           else cons_collision h m (take ?k ds) b seed (butlast path))"
        using False ne True l two cons_collision.simps [of h m ds b seed path] by (simp add: Let_def)
      have tt: "take m (take ?k ds) = take m ds" using True by (simp add: min_absorb1)
      show ?thesis
      proof (rule node_bytes_eq_cases [OF less.prems(6) [unfolded r mth_split [OF two]]])
        assume same: "node_input nl (last path) = node_input ?L ?R"
        with wl wfm(1) have "dg_bytes nl = dg_bytes ?L"
          by (simp add: node_input_left wf_digest_def)
        with less.IH [OF td(2) wfs(1) conjunct1 [OF wfp] less.prems(3), of b old nl] l True td(1) tt show ?thesis
          by (simp add: eq same del: length_take)
      qed (auto simp: eq hash_collision_def)
    next
      case outer: False
      with less.prems(5) False obtain rold nr where
        l: "spec_reconsistency h (m - ?k) (length ds - ?k) False seed (butlast path) = Some (rold, nr)"
        and r: "new = node h (last path) nr" "old = node h (last path) rold"
        by (auto simp: spec_reconsistency_right [OF two _ ne])
      have wl: "wf_digest h d nr" using spec_reconsistency_wf [OF assms conjunct1 [OF wfp] l] by blast
      have eq: "cons_collision h m ds b seed path =
          (if node_input (last path) nr \<noteq> node_input ?L ?R then Some (node_input (last path) nr, node_input ?L ?R)
           else cons_collision h (m - ?k) (drop ?k ds) False seed (butlast path))"
        using False ne outer l two cons_collision.simps [of h m ds b seed path] by (simp add: Let_def)
      from outer less.prems(4) have mk: "0 < m - ?k" "m - ?k \<le> length (drop ?k ds)" by simp_all
      have split: "mth h (take m ds) = node h ?L (mth h (take (m - ?k) (drop ?k ds)))"
        using outer less.prems(4) by (intro mth_take_split [OF two]) simp_all
      show ?thesis
      proof (rule node_bytes_eq_cases [OF less.prems(6) [unfolded r mth_split [OF two]]])
        assume same: "node_input (last path) nr = node_input ?L ?R"
        with wl wfm(2) have bytes: "dg_bytes nr = dg_bytes ?R" "dg_bytes (last path) = dg_bytes ?L"
          by (simp_all add: node_input_right wf_digest_def)
        have ceq: "cons_collision h m ds b seed path = cons_collision h (m - ?k) (drop ?k ds) False seed (butlast path)"
          by (simp only: eq same not_not if_False simp_thms)
        from bytes(2) have "last path = ?L" using wfp wfm(1) by (blast intro: wf_digest_eqI)
        with less.IH [OF td(3) wfs(2) conjunct1 [OF wfp] mk, of False rold nr] l bytes(1) show ?thesis
          by (auto simp: ceq r split)
      qed (auto simp: eq hash_collision_def)
    qed
  qed
qed

section \<open>Properties of the code\<close>

lemma word_of_nat_less: "i < n \<Longrightarrow> n < 2 ^ 64 \<Longrightarrow> (word_of_nat i :: usize) < word_of_nat n"
  by (simp add: word_less_nat_alt unat_word_of_nat64 less_trans [of i n])

lemma inclusion_eq:
  assumes "length ds \<le> 2 ^ 63" and "i < length ds"
  shows "inclusion h ds (word_of_nat i) = Some (Some
    \<lparr>ip_leaf_index = word_of_nat i, ip_tree_size = word_of_nat (length ds), ip_path = spec_path h i ds\<rparr>)"
proof -
  have "(word_of_nat i :: usize) < word_of_nat (length ds)"
    by (rule word_of_nat_less [OF assms(2) le_2_63_less [OF assms(1)]])
  moreover have "unat (word_of_nat i :: usize) = i"
    using assms(2) le_2_63_less [OF assms(1)] by (intro unat_word_of_nat64) linarith
  ultimately show ?thesis
    using audit_path_eq [OF assms(1), of h "word_of_nat i"] by (simp add: inclusion_def not_le)
qed

lemma verify_inclusion_eq:
  assumes "ip_leaf_index pf < ip_tree_size pf" and "unat (ip_tree_size pf) \<le> 2 ^ 63"
  shows "verify_inclusion h pf lf root =
    Some (spec_rebuild h (unat (ip_leaf_index pf)) (unat (ip_tree_size pf)) lf (ip_path pf) = Some root)"
  using assms by (auto simp: verify_inclusion_def Let_def not_le rebuild_inclusion_eq split: option.splits)

lemma verify_consistency_eq:
  assumes "0 < cp_first_size pf" and "cp_first_size pf < cp_second_size pf"
    and "unat (cp_second_size pf) \<le> 2 ^ 63"
  shows "verify_consistency h pf old new =
    Some (spec_reconsistency h (unat (cp_first_size pf)) (unat (cp_second_size pf)) True old (cp_path pf)
      = Some (old, new))"
  using assms
  by (auto simp: verify_consistency_def Let_def not_less rebuild_consistency_eq split: option.splits)

lemma consistency_eq:
  assumes "length ds \<le> 2 ^ 63" and "0 < m" and "m \<le> length ds"
  shows "consistency h ds (word_of_nat m) = Some (Some
    \<lparr>cp_first_size = word_of_nat m, cp_second_size = word_of_nat (length ds),
     cp_path = spec_subproof h m ds True\<rparr>)"
proof -
  have um: "unat (word_of_nat m :: usize) = m"
    using assms le_2_63_less [OF assms(1)] by (intro unat_word_of_nat64) linarith
  have ul: "unat (word_of_nat (length ds) :: usize) = length ds" by (rule unat_len [OF assms(1)])
  have w: "(word_of_nat m :: usize) \<noteq> 0" "\<not> (word_of_nat m :: usize) > word_of_nat (length ds)"
      "(word_of_nat m :: usize) = word_of_nat (length ds) \<longleftrightarrow> m = length ds"
    using assms(2,3) by (simp_all only: word_unat_eq_iff word_less_nat_alt um ul) (simp_all add: word_unat_eq_iff)
  then have "(0 :: usize) < word_of_nat m" by (simp add: word_neq_0_conv)
  with um assms(3) have "subproof h (word_of_nat m) ds True = Some (spec_subproof h m ds True)"
    using subproof_eq [OF assms(1), of "word_of_nat m"] by simp
  moreover have "spec_subproof h (length ds) ds True = []"
    using spec_subproof.simps [of h "length ds" ds True] by simp
  ultimately show ?thesis using w by (auto simp: consistency_def Let_def)
qed

text \<open>\<^verbatim>\<open>split_point\<close> returns exactly for sizes up to \<^verbatim>\<open>2^63\<close>, and what it returns is the
  largest power of two strictly below the size, as its comment says.\<close>

lemma split_point_correct:
  assumes "2 \<le> unat n"
  shows "(split_point n \<noteq> None \<longleftrightarrow> unat n \<le> 2 ^ 63) \<and>
    (\<forall>k. split_point n = Some k \<longrightarrow>
      (\<exists>j. unat k = 2 ^ j) \<and> unat k < unat n \<and> unat n \<le> 2 * unat k)"
proof (cases "unat n \<le> 2 ^ 63")
  case True
  from split_point_unat [OF assms True] pow2_below_bounds [OF assms] unat_pow2_below [OF assms True]
  show ?thesis using True by auto
next
  case False
  have "unat (2 ^ 63 :: usize) = 2 ^ 63" by (rule unat_pow2) simp
  with False have "2 ^ 63 < n" by (simp only: word_less_nat_alt not_le)
  with False split_point_diverges show ?thesis by simp
qed

lemma unat_2_63_le: "unat (n :: usize) \<le> 2 ^ 63 \<longleftrightarrow> \<not> 2 ^ 63 < n"
  by (simp add: word_less_nat_alt not_less)

lemma rebuilds_hang:
  assumes "2 ^ 63 < n"
  shows "path \<noteq> [] \<Longrightarrow> rebuild_inclusion h m n lf path = None"
    and "m < n \<Longrightarrow> rebuild_consistency h m n True old path' = None"
proof -
  have n: "n \<noteq> 0" "n \<noteq> 1" using assms by auto
  show "path \<noteq> [] \<Longrightarrow> rebuild_inclusion h m n lf path = None"
    using n by (subst rebuild_inclusion.simps) (simp add: split_last_def split_point_diverges [OF assms])
  show "m < n \<Longrightarrow> rebuild_consistency h m n True old path' = None"
    by (subst rebuild_consistency.simps) (simp add: split_point_diverges [OF assms])
qed

lemma rebuild_inclusion_short: "\<exists>r. rebuild_inclusion h m n lf [] = Some r"
  by (subst rebuild_inclusion.simps) (simp add: split_last_def)

text \<open>C26: When the verifiers return, on whatever untrusted proof: the inclusion check fails to return exactly on a
  proof that claims a tree of more than \<^verbatim>\<open>2^63\<close> leaves, a leaf of that tree and a non-empty path, the consistency check
  exactly on a proof that claims a second tree of more than \<^verbatim>\<open>2^63\<close> leaves and a first one that is smaller and not
  empty, even with an empty path.\<close>

theorem verifiers_hang_on_huge_sizes:
  "(verify_inclusion h ipf lf root = None \<longleftrightarrow>
      2 ^ 63 < ip_tree_size ipf \<and> ip_leaf_index ipf < ip_tree_size ipf \<and> ip_path ipf \<noteq> []) \<and>
    (verify_consistency h cpf old new = None \<longleftrightarrow>
      2 ^ 63 < cp_second_size cpf \<and> 0 < cp_first_size cpf \<and> cp_first_size cpf < cp_second_size cpf)"
proof
  show "verify_inclusion h ipf lf root = None \<longleftrightarrow>
      2 ^ 63 < ip_tree_size ipf \<and> ip_leaf_index ipf < ip_tree_size ipf \<and> ip_path ipf \<noteq> []"
  proof (cases "ip_leaf_index ipf < ip_tree_size ipf")
    case True
    with rebuild_inclusion_short [of h "ip_leaf_index ipf" "ip_tree_size ipf" lf] show ?thesis
      using verify_inclusion_eq [OF True, of h lf root] rebuilds_hang(1) [of "ip_tree_size ipf" "ip_path ipf" h "ip_leaf_index ipf" lf]
      unfolding unat_2_63_le by (cases "2 ^ 63 < ip_tree_size ipf") (auto simp: verify_inclusion_def Let_def)
  qed (auto simp: verify_inclusion_def Let_def not_less)
  show "verify_consistency h cpf old new = None \<longleftrightarrow>
      2 ^ 63 < cp_second_size cpf \<and> 0 < cp_first_size cpf \<and> cp_first_size cpf < cp_second_size cpf"
  proof (cases "0 < cp_first_size cpf \<and> cp_first_size cpf < cp_second_size cpf")
    case True
    then show ?thesis
      using verify_consistency_eq [of cpf h old new] rebuilds_hang(2) [of "cp_second_size cpf" "cp_first_size cpf" h old "cp_path cpf"]
      unfolding unat_2_63_le
      by (cases "2 ^ 63 < cp_second_size cpf") (auto simp: verify_consistency_def Let_def)
  next
    case False
    then show ?thesis by (auto simp: verify_consistency_def Let_def word_gt_0)
  qed
qed

definition demo_hasher :: hasher where
  "demo_hasher = \<lparr>hs_algo = Sha256, hs_make = \<lambda>xs. [fold (\<lambda>x a. 31 * a + x + 7) xs 3]\<rparr>"

definition demo_leaves :: "digest list" where
  "demo_leaves = map (leaf demo_hasher) [[1], [2], [3]]"

lemma verify_generated_inclusion:
  assumes "length ds \<le> 2 ^ 63" and "i < length ds"
  shows "verify_inclusion h \<lparr>ip_leaf_index = word_of_nat i, ip_tree_size = word_of_nat (length ds),
    ip_path = spec_path h i ds\<rparr> (ds ! i) (mth h ds) = Some True"
proof -
  have "(word_of_nat i :: usize) < word_of_nat (length ds)"
    by (rule word_of_nat_less [OF assms(2) le_2_63_less [OF assms(1)]])
  moreover have "unat (word_of_nat i :: usize) = i"
    using assms(2) le_2_63_less [OF assms(1)] by (intro unat_word_of_nat64) linarith
  ultimately show ?thesis
    using spec_rebuild_path [OF assms(2), of h] assms(1)
    by (subst verify_inclusion_eq) (simp_all add: unat_len)
qed

text \<open>C23: Completeness of inclusion proofs: for every leaf of a log of up to \<^verbatim>\<open>2^63\<close> leaves
  the prover returns a proof, it has at most 63 hashes, and the verifier returns
  and accepts it for that leaf against the root of the log.\<close>

theorem inclusion_complete:
  assumes "length ds \<le> 2 ^ 63" and "i < length ds"
  shows "\<exists>pf root. inclusion h ds (word_of_nat i) = Some (Some pf) \<and>
    merkle_root h ds = Some root \<and> length (ip_path pf) \<le> 63 \<and>
    verify_inclusion h pf (ds ! i) root = Some True"
  using inclusion_eq [OF assms] merkle_root_eq [OF assms(1)] length_spec_path [OF assms(1)]
    verify_generated_inclusion [OF assms]
  by fastforce

theorem inclusion_complete_witness:
  "\<exists>pf root. inclusion demo_hasher demo_leaves 2 = Some (Some pf) \<and>
    merkle_root demo_hasher demo_leaves = Some root \<and> length (ip_path pf) \<le> 63 \<and>
    verify_inclusion demo_hasher pf (demo_leaves ! 2) root = Some True"
  using inclusion_complete [of demo_leaves 2 demo_hasher] by (simp add: demo_leaves_def)

text \<open>C3: Soundness of inclusion proofs, for a tree size that comes with the root: if the proof claims the size of the log
  whose root it is checked against, of up to \<^verbatim>\<open>2^63\<close> records, and the verifier accepts it for a record at a position, then
  the position is one of the log and the record is the one the log has there, or a collision of the hash
  function has been found: either on the two leaf inputs, or the pair computed from the proof.  The hash is assumed to
  have a fixed width.\<close>

theorem inclusion_sound:
  assumes "fixed_width h d" and ds: "ds = map (leaf h) recs" and "length recs \<le> 2 ^ 63"
    and root: "merkle_root h ds = Some root"
    and size: "ip_tree_size pf = word_of_nat (length recs)"
    and acc: "verify_inclusion h pf (leaf h rec) root = Some True"
  shows "unat (ip_leaf_index pf) < length recs \<and>
    (rec = recs ! unat (ip_leaf_index pf) \<or>
     hash_collision h (LEAF_PREFIX # rec, LEAF_PREFIX # recs ! unat (ip_leaf_index pf)) \<or>
     (\<exists>c. incl_collision h (unat (ip_leaf_index pf)) ds (leaf h rec) (ip_path pf) = Some c \<and>
        hash_collision h c))"
proof -
  let ?i = "unat (ip_leaf_index pf)"
  from ds have len: "length ds = length recs" by simp
  have us: "unat (ip_tree_size pf) = length ds"
    using unat_len [of ds] assms(3) by (simp add: size len)
  from acc have lt: "ip_leaf_index pf < ip_tree_size pf"
    by (auto simp: verify_inclusion_def Let_def not_le split: if_splits)
  then have i: "?i < length ds" by (simp add: word_less_nat_alt us)
  have "root = mth h ds" using root merkle_root_eq [of ds h] assms(3) by (simp add: len)
  moreover have "spec_rebuild h ?i (length ds) (leaf h rec) (ip_path pf) = Some root"
    using acc verify_inclusion_eq [OF lt] assms(3) by (simp add: us len)
  moreover have "wf_digests h d ds" by (auto simp: ds list_all_iff wf_leaf [OF assms(1)])
  ultimately have "leaf h rec = ds ! ?i \<or>
      (\<exists>c. incl_collision h ?i ds (leaf h rec) (ip_path pf) = Some c \<and> hash_collision h c)"
    using spec_rebuild_sound [OF assms(1) wf_leaf [OF assms(1)] _ i] by blast
  moreover from i len have "ds ! ?i = leaf h (recs ! ?i)" by (simp add: ds)
  moreover have "rec = recs ! ?i \<or> hash_collision h (LEAF_PREFIX # rec, LEAF_PREFIX # recs ! ?i)"
    if "leaf h rec = leaf h (recs ! ?i)"
    using that by (auto simp: leaf_def hash_data_def hash_collision_def)
  ultimately show ?thesis using i len by auto
qed

lemma demo_fixed_width: "fixed_width demo_hasher 1"
  by (simp add: fixed_width_def demo_hasher_def)

lemma demo_wf: "wf_digests demo_hasher 1 demo_leaves"
  unfolding demo_leaves_def list_all_iff by (auto intro: wf_leaf [OF demo_fixed_width] simp del: One_nat_def)

theorem inclusion_sound_witness:
  "\<exists>pf root. merkle_root demo_hasher (map (leaf demo_hasher) [[1], [2], [3]]) = Some root \<and>
    verify_inclusion demo_hasher pf (leaf demo_hasher [3]) root = Some True \<and>
    unat (ip_leaf_index pf) < 3"
proof -
  let ?pf = "\<lparr>ip_leaf_index = 2, ip_tree_size = 3, ip_path = spec_path demo_hasher 2 demo_leaves\<rparr>"
  have acc: "verify_inclusion demo_hasher ?pf (leaf demo_hasher [3]) (mth demo_hasher demo_leaves) = Some True"
    using verify_generated_inclusion [of demo_leaves 2 demo_hasher] by (simp add: demo_leaves_def)
  have root: "merkle_root demo_hasher demo_leaves = Some (mth demo_hasher demo_leaves)"
    by (rule merkle_root_eq) (simp add: demo_leaves_def)
  from inclusion_sound [OF demo_fixed_width demo_leaves_def _ root _ acc]
  have "unat (ip_leaf_index ?pf) < 3" by simp
  with acc root show ?thesis unfolding demo_leaves_def by blast
qed

lemma verify_generated_consistency:
  assumes "length ds \<le> 2 ^ 63" and "0 < m" and "m \<le> length ds"
  shows "verify_consistency h \<lparr>cp_first_size = word_of_nat m, cp_second_size = word_of_nat (length ds),
    cp_path = spec_subproof h m ds True\<rparr> (mth h (take m ds)) (mth h ds) = Some True"
proof (cases "m = length ds")
  case True
  then show ?thesis
    using spec_subproof.simps [of h m ds True] by (simp add: verify_consistency_def Let_def)
next
  case False
  have um: "unat (word_of_nat m :: usize) = m"
    using assms le_2_63_less [OF assms(1)] by (intro unat_word_of_nat64) linarith
  have "(word_of_nat m :: usize) < word_of_nat (length ds)"
    using False assms(3) by (intro word_of_nat_less [OF _ le_2_63_less [OF assms(1)]]) simp
  moreover have "(0 :: usize) < word_of_nat m" using um assms(2) by (simp add: word_less_nat_alt)
  ultimately show ?thesis
    using spec_reconsistency_subproof [OF assms(2,3), of True "mth h (take m ds)" h] assms(1)
    by (subst verify_consistency_eq) (simp_all add: um unat_len)
qed

text \<open>C24: Completeness of consistency proofs: for every non-empty prefix of a log of up to
  \<^verbatim>\<open>2^63\<close> leaves the prover returns a proof that the verifier accepts against the
  two roots.\<close>

theorem consistency_complete:
  assumes "length ds \<le> 2 ^ 63" and "0 < m" and "m \<le> length ds"
  shows "\<exists>pf old new. consistency h ds (word_of_nat m) = Some (Some pf) \<and>
    merkle_root h (take m ds) = Some old \<and> merkle_root h ds = Some new \<and>
    verify_consistency h pf old new = Some True"
proof -
  from assms have "length (take m ds) \<le> 2 ^ 63" by simp
  from merkle_root_eq [OF this] consistency_eq [OF assms] merkle_root_eq [OF assms(1)]
    verify_generated_consistency [OF assms]
  show ?thesis by fastforce
qed

theorem consistency_complete_witness:
  "\<exists>pf old new. consistency demo_hasher demo_leaves 2 = Some (Some pf) \<and>
    merkle_root demo_hasher (take 2 demo_leaves) = Some old \<and>
    merkle_root demo_hasher demo_leaves = Some new \<and>
    verify_consistency demo_hasher pf old new = Some True"
  using consistency_complete [of demo_leaves 2 demo_hasher] by (simp add: demo_leaves_def)

text \<open>C8: Soundness of consistency proofs (append-only), for a second size that comes with the new root: if the proof claims as
  its second size that of the log whose root it is checked against, of up to \<^verbatim>\<open>2^63\<close> leaves, all
  digests have the hash's own width, and the verifier accepts an old root, then the old
  root is the root of the prefix of the claimed first size, or the computed pair is a hash
  collision, or the claimed first size is 0 and the path empty, where the verifier accepts any old root.\<close>

theorem consistency_sound:
  assumes "fixed_width h d" and "wf_digests h d ds" and "length ds \<le> 2 ^ 63"
    and "wf_digest h d old" and "wf_digests h d (cp_path pf)"
    and new: "merkle_root h ds = Some new"
    and size: "cp_second_size pf = word_of_nat (length ds)"
    and acc: "verify_consistency h pf old new = Some True"
  shows "merkle_root h (take (unat (cp_first_size pf)) ds) = Some old \<or>
    (\<exists>c. cons_collision h (unat (cp_first_size pf)) ds True old (cp_path pf) = Some c \<and> hash_collision h c) \<or>
    cp_first_size pf = 0 \<and> cp_path pf = []"
proof (cases "cp_first_size pf = 0")
  case True
  with acc show ?thesis by (auto simp: verify_consistency_def Let_def split: if_splits)
next
  case False
  then have pos: "0 < cp_first_size pf" by (simp add: word_gt_0)
  let ?m = "unat (cp_first_size pf)"
  have us: "unat (cp_second_size pf) = length ds" using unat_len [OF assms(3)] by (simp add: size)
  have new_eq: "new = mth h ds" using new merkle_root_eq [OF assms(3)] by simp
  from assms(3) have "length (take ?m ds) \<le> 2 ^ 63" by simp
  note old_root = merkle_root_eq [OF this, of h]
  from acc have le: "cp_first_size pf \<le> cp_second_size pf"
    by (auto simp: verify_consistency_def Let_def not_less split: if_splits)
  then have m: "0 < ?m" "?m \<le> length ds" using pos us by (simp_all add: word_le_nat_alt unat_gt_0)
  show ?thesis
  proof (cases "cp_first_size pf = cp_second_size pf")
    case True
    with acc us new_eq old_root show ?thesis by (simp add: verify_consistency_def Let_def)
  next
    case False
    with le have lt: "cp_first_size pf < cp_second_size pf" by simp
    have "spec_reconsistency h ?m (length ds) True old (cp_path pf) = Some (old, new)"
      using acc verify_consistency_eq [OF pos lt] assms(3) by (simp add: us)
    from spec_reconsistency_sound [OF assms(1,4,2,5) m this] new_eq old_root
    show ?thesis by auto
  qed
qed

theorem consistency_sound_witness:
  "\<exists>pf old new. merkle_root demo_hasher demo_leaves = Some new \<and>
    verify_consistency demo_hasher pf old new = Some True \<and>
    (merkle_root demo_hasher (take 2 demo_leaves) = Some old \<or>
     (\<exists>c. cons_collision demo_hasher 2 demo_leaves True old (cp_path pf) = Some c \<and>
       hash_collision demo_hasher c))"
proof -
  let ?old = "mth demo_hasher (take 2 demo_leaves)" and ?new = "mth demo_hasher demo_leaves"
  let ?pf = "\<lparr>cp_first_size = 2, cp_second_size = 3, cp_path = spec_subproof demo_hasher 2 demo_leaves True\<rparr>"
  have acc: "verify_consistency demo_hasher ?pf ?old ?new = Some True"
    using verify_generated_consistency [of demo_leaves 2 demo_hasher] by (simp add: demo_leaves_def)
  have root: "merkle_root demo_hasher demo_leaves = Some ?new"
    by (rule merkle_root_eq) (simp add: demo_leaves_def)
  have wf: "wf_digests demo_hasher 1 demo_leaves" "wf_digest demo_hasher 1 ?old"
    by (rule demo_wf, rule wf_mth [OF demo_fixed_width wf_digests_take_drop(1) [OF demo_wf]])
  have "wf_digest demo_hasher 1 (leaf demo_hasher [3])" by (rule wf_leaf [OF demo_fixed_width])
  then have "wf_digests demo_hasher 1 (cp_path ?pf)"
    by (simp add: demo_leaves_def spec_subproof.simps pow2_below.simps del: One_nat_def)
  moreover have "length demo_leaves = 3" by (simp add: demo_leaves_def)
  ultimately have "merkle_root demo_hasher (take 2 demo_leaves) = Some ?old \<or>
     (\<exists>c. cons_collision demo_hasher 2 demo_leaves True ?old (cp_path ?pf) = Some c \<and>
       hash_collision demo_hasher c)"
    using consistency_sound [OF demo_fixed_width wf(1) _ wf(2) _ root _ acc] by simp
  with acc root show ?thesis by blast
qed

section \<open>The root commits to the records\<close>

text \<open>From two different lists of records of one length whose trees have the same root, a collision of the hash function
  is computed: on the leaf inputs where the lists first differ, or from the path to that leaf.\<close>

definition trail_collision :: "hasher \<Rightarrow> bytes list \<Rightarrow> bytes list \<Rightarrow> (bytes \<times> bytes) option" where
  "trail_collision h rs rs' =
    (case find (\<lambda>m. rs ! m \<noteq> rs' ! m) [0..<length rs] of
       None \<Rightarrow> None
     | Some m \<Rightarrow>
         if leaf h (rs ! m) = leaf h (rs' ! m) then Some (LEAF_PREFIX # rs ! m, LEAF_PREFIX # rs' ! m)
         else incl_collision h m (map (leaf h) rs) (leaf h (rs' ! m)) (spec_path h m (map (leaf h) rs')))"

lemma equal_roots_equal_records:
  assumes fw: "fixed_width h d" and len: "length rs = length rs'"
    and tree: "dg_bytes (mth h (map (leaf h) rs)) = dg_bytes (mth h (map (leaf h) rs'))"
  shows "rs = rs' \<or> (\<exists>c. trail_collision h rs rs' = Some c \<and> hash_collision h c)"
proof (cases "find (\<lambda>m. rs ! m \<noteq> rs' ! m) [0..<length rs]")
  case None
  then have "\<forall>m < length rs. rs ! m = rs' ! m" by (auto simp: find_None_iff)
  with len show ?thesis by (simp add: nth_equalityI)
next
  case (Some m)
  then have m: "m < length rs" "rs ! m \<noteq> rs' ! m" by (auto simp: find_Some_iff)
  show ?thesis
  proof (cases "leaf h (rs ! m) = leaf h (rs' ! m)")
    case True
    have "hs_make h (LEAF_PREFIX # rs ! m) = hs_make h (LEAF_PREFIX # rs' ! m)"
      using arg_cong [OF True, of dg_bytes] by (simp add: leaf_def)
    with True Some m(2) show ?thesis by (simp add: trail_collision_def hash_collision_def)
  next
    case False
    let ?ds = "map (leaf h) rs" and ?es = "map (leaf h) rs'"
    have wf: "wf_digest h d (leaf h (rs' ! m))" "wf_digests h d ?ds" using fw by (simp_all add: wf_leaf list_all_iff)
    have "spec_rebuild h m (length ?es) (?es ! m) (spec_path h m ?es) = Some (mth h ?es)"
      by (rule spec_rebuild_path) (use m len in simp)
    then have re: "spec_rebuild h m (length ?ds) (leaf h (rs' ! m)) (spec_path h m ?es) = Some (mth h ?es)"
      using m len by simp
    have "leaf h (rs' ! m) = ?ds ! m \<or> (\<exists>c. incl_collision h m ?ds (leaf h (rs' ! m)) (spec_path h m ?es) = Some c \<and> hash_collision h c)"
      by (rule spec_rebuild_sound [OF fw wf(1,2) _ re tree [symmetric]]) (use m in simp)
    with False Some m show ?thesis by (auto simp: trail_collision_def)
  qed
qed

end
