(* ===== verification/Audit_Log.thy ===== *)
theory Audit_Log
  imports Merkle_Security
begin

text \<open>
  The transparency-log aggregate of the audit crate
  (\<^verbatim>\<open>crates/agate-audit/src/domain\<close>): timestamps, pending domain events, tree
  heads and their canonical bytes, checkpoint signing, the aggregate
  \<^verbatim>\<open>TransparencyLog\<close> with its factory, and the key store that holds the checkpoint
  key.

  An instant is an integer (nanoseconds).  The \<^verbatim>\<open>jiff\<close> conversions to and from
  milliseconds are parameters.  Operations that hash the whole tree return an
  option, as the tree hash does.
\<close>

section \<open>Time\<close>

type_synonym instant = int

record jiff =
  jf_from_ms :: "i64 \<Rightarrow> (string, instant) result"
  jf_as_ms :: "instant \<Rightarrow> i64"

datatype time_error = InconsistentTime (te_created: i64) (te_updated: i64)

datatype domain_error = Field string | Time time_error

fun show_time_error :: "time_error \<Rightarrow> string" where
  "show_time_error (InconsistentTime created_at updated_at) =
    ''inconsistent time: updated_at ('' @ show_int (sint updated_at) @ '') earlier than created_at ('' @
      show_int (sint created_at) @ '')''"

fun show_domain_error :: "domain_error \<Rightarrow> string" where
  "show_domain_error (Field msg) = ''domain field error: '' @ msg"
| "show_domain_error (Time err) = show_time_error err"

record timestamps =
  ts_created :: instant
  ts_updated :: instant

definition timestamp_from_millis :: "jiff \<Rightarrow> i64 \<Rightarrow> (domain_error, instant) result" where
  "timestamp_from_millis j ms = map_err (\<lambda>e. Field (''invalid timestamp: '' @ e)) (jf_from_ms j ms)"

definition timestamps_new :: "instant \<Rightarrow> timestamps" where
  "timestamps_new now = \<lparr>ts_created = now, ts_updated = now\<rparr>"

definition timestamps_reconstitute ::
    "jiff \<Rightarrow> instant \<Rightarrow> instant \<Rightarrow> (domain_error, timestamps) result" where
  "timestamps_reconstitute j created updated =
    (if updated < created
     then Inl (Time (InconsistentTime (jf_as_ms j created) (jf_as_ms j updated)))
     else Inr \<lparr>ts_created = created, ts_updated = updated\<rparr>)"

definition timestamps_touched :: "jiff \<Rightarrow> timestamps \<Rightarrow> instant \<Rightarrow> (domain_error, timestamps) result" where
  "timestamps_touched j t now =
    (if now < ts_created t
     then Inl (Time (InconsistentTime (jf_as_ms j (ts_created t)) (jf_as_ms j now)))
     else Inr \<lparr>ts_created = ts_created t, ts_updated = now\<rparr>)"

section \<open>Tree heads\<close>

record tree_head =
  th_size :: u64
  th_root :: digest
  th_at :: instant

record signed_tree_head =
  sth_head :: tree_head
  sth_signature :: signature

definition to_canonical_bytes :: "jiff \<Rightarrow> tree_head \<Rightarrow> bytes" where
  "to_canonical_bytes j head =
    to_be_bytes (th_size head) @ [hash_code (dg_algo (th_root head))] @ dg_bytes (th_root head)
      @ to_be_bytes (jf_as_ms j (th_at head))"

definition checkpoint_sign :: "jiff \<Rightarrow> ed25519_backend \<Rightarrow> signer \<Rightarrow> tree_head \<Rightarrow> signed_tree_head" where
  "checkpoint_sign j be s head =
    \<lparr>sth_head = head, sth_signature = signer_sign be s (to_canonical_bytes j head)\<rparr>"

definition checkpoint_verify :: "jiff \<Rightarrow> ed25519_backend \<Rightarrow> verifier \<Rightarrow> signed_tree_head \<Rightarrow> bool" where
  "checkpoint_verify j be v sth =
    verifier_verify be v (to_canonical_bytes j (sth_head sth)) (sth_signature sth)"

section \<open>Events\<close>

datatype audit_event = RecordAppended u64 digest | CheckpointIssued tree_head

fun event_type :: "audit_event \<Rightarrow> string" where
  "event_type (RecordAppended _ _) = ''audit.record_appended''"
| "event_type (CheckpointIssued _) = ''audit.checkpoint_issued''"

text \<open>The pending events of an aggregate: a queue that is drained as a whole.\<close>

definition events_record :: "'e \<Rightarrow> 'e list \<Rightarrow> 'e list" where
  "events_record e es = es @ [e]"

definition events_pull :: "'e list \<Rightarrow> 'e list \<times> 'e list" where
  "events_pull es = (es, [])"

section \<open>The aggregate\<close>

type_synonym log_id = "128 word"

record transparency_log =
  tl_id :: log_id
  tl_timestamps :: timestamps
  tl_hasher :: hasher
  tl_leaves :: "digest list"
  tl_events :: "audit_event list"

definition tl_new :: "log_id \<Rightarrow> timestamps \<Rightarrow> hasher \<Rightarrow> audit_event list \<Rightarrow> transparency_log" where
  "tl_new i ts h es =
    \<lparr>tl_id = i, tl_timestamps = ts, tl_hasher = h, tl_leaves = [], tl_events = es\<rparr>"

definition tl_reconstitute ::
    "log_id \<Rightarrow> timestamps \<Rightarrow> hasher \<Rightarrow> digest list \<Rightarrow> audit_event list \<Rightarrow> transparency_log" where
  "tl_reconstitute i ts h leaves es =
    \<lparr>tl_id = i, tl_timestamps = ts, tl_hasher = h, tl_leaves = leaves, tl_events = es\<rparr>"

definition tl_algo :: "transparency_log \<Rightarrow> hash_algo" where
  "tl_algo l = hs_algo (tl_hasher l)"

definition tl_size :: "transparency_log \<Rightarrow> u64" where
  "tl_size l = word_of_nat (length (tl_leaves l))"

definition tl_append :: "transparency_log \<Rightarrow> bytes \<Rightarrow> u64 \<times> transparency_log" where
  "tl_append l record =
    (let index = word_of_nat (length (tl_leaves l)); lf = leaf (tl_hasher l) record in
     (index, l\<lparr>tl_leaves := tl_leaves l @ [lf],
               tl_events := events_record (RecordAppended index lf) (tl_events l)\<rparr>))"

definition tl_root :: "transparency_log \<Rightarrow> digest option" where
  "tl_root l = merkle_root (tl_hasher l) (tl_leaves l)"

definition tl_head :: "transparency_log \<Rightarrow> instant \<Rightarrow> tree_head option" where
  "tl_head l at = do {
     r \<leftarrow> tl_root l;
     Some \<lparr>th_size = tl_size l, th_root = r, th_at = at\<rparr>
   }"

definition tl_issue_checkpoint :: "transparency_log \<Rightarrow> instant \<Rightarrow> (tree_head \<times> transparency_log) option" where
  "tl_issue_checkpoint l at = do {
     head \<leftarrow> tl_head l at;
     Some (head, l\<lparr>tl_events := events_record (CheckpointIssued head) (tl_events l)\<rparr>)
   }"

definition tl_prove_inclusion :: "transparency_log \<Rightarrow> u64 \<Rightarrow> inclusion_proof option option" where
  "tl_prove_inclusion l index = inclusion (tl_hasher l) (tl_leaves l) index"

definition tl_prove_consistency :: "transparency_log \<Rightarrow> u64 \<Rightarrow> consistency_proof option option" where
  "tl_prove_consistency l first = consistency (tl_hasher l) (tl_leaves l) first"

definition tl_pull_events :: "transparency_log \<Rightarrow> audit_event list \<times> transparency_log" where
  "tl_pull_events l = (case events_pull (tl_events l) of (out, rest) \<Rightarrow> (out, l\<lparr>tl_events := rest\<rparr>))"

section \<open>Factory\<close>

definition factory_create :: "hasher \<Rightarrow> log_id \<Rightarrow> instant \<Rightarrow> transparency_log" where
  "factory_create h i now = tl_new i (timestamps_new now) h []"

definition factory_reconstitute :: "hasher \<Rightarrow> log_id \<Rightarrow> timestamps \<Rightarrow> digest list \<Rightarrow> transparency_log" where
  "factory_reconstitute h i ts leaves = tl_reconstitute i ts h leaves []"

section \<open>Key store\<close>

text \<open>\<^verbatim>\<open>char::to_digit(16)\<close>.\<close>

definition to_digit16 :: "char \<Rightarrow> nat option" where
  "to_digit16 c =
    (let n = of_char c :: nat in
     if 48 \<le> n \<and> n \<le> 57 then Some (n - 48)
     else if 97 \<le> n \<and> n \<le> 102 then Some (n - 87)
     else if 65 \<le> n \<and> n \<le> 70 then Some (n - 55)
     else None)"

fun decode_pairs :: "string \<Rightarrow> bytes option" where
  "decode_pairs (a # b # rest) =
    (case to_digit16 a of
       None \<Rightarrow> None
     | Some high \<Rightarrow>
         (case to_digit16 b of
            None \<Rightarrow> None
          | Some low \<Rightarrow> map_option (\<lambda>bs. word_of_nat (high * 16 + low) # bs) (decode_pairs rest)))"
| "decode_pairs _ = Some []"

definition decode_seed :: "string \<Rightarrow> bytes option" where
  "decode_seed hex =
    (let hex = trim hex in
     if length hex \<noteq> 64 then None else decode_pairs hex)"

record configured_key =
  ck_id :: string
  ck_signer :: signer
  ck_verifier :: verifier

definition keys_from_seed :: "ed25519_backend \<Rightarrow> string \<Rightarrow> bytes \<Rightarrow> configured_key option" where
  "keys_from_seed be kid seed =
    (let s = \<lparr>sn_seed = seed, sn_key_id = kid\<rparr> in
     case verifier_from_public be (dalek_public be seed) of
       Inr v \<Rightarrow> Some \<lparr>ck_id = kid, ck_signer = s, ck_verifier = v\<rparr>
     | Inl _ \<Rightarrow> None)"

text \<open>\<^verbatim>\<open>from_env\<close>: the two environment variables are arguments.\<close>

definition keys_from_env :: "ed25519_backend \<Rightarrow> string option \<Rightarrow> string option \<Rightarrow> configured_key option" where
  "keys_from_env be key_id_var seed_var =
    (let kid = (case key_id_var of None \<Rightarrow> ''checkpoint-ed25519'' | Some k \<Rightarrow> k) in
     case Option.bind seed_var decode_seed of
       None \<Rightarrow> None
     | Some seed \<Rightarrow> keys_from_seed be kid seed)"

definition keys_lookup :: "configured_key option \<Rightarrow> string \<Rightarrow> configured_key option" where
  "keys_lookup st key =
    (case st of None \<Rightarrow> None | Some c \<Rightarrow> if ck_id c = key then Some c else None)"

section \<open>Canonical bytes\<close>

lemma to_canonical_bytes_inject:
  "to_canonical_bytes j a = to_canonical_bytes j b \<longleftrightarrow>
    th_size a = th_size b \<and> th_root a = th_root b \<and> jf_as_ms j (th_at a) = jf_as_ms j (th_at b)"
proof
  assume eq: "to_canonical_bytes j a = to_canonical_bytes j b"
  then have front: "to_be_bytes (th_size a) = to_be_bytes (th_size b)"
      "hash_code (dg_algo (th_root a)) = hash_code (dg_algo (th_root b))"
    and rear: "dg_bytes (th_root a) @ to_be_bytes (jf_as_ms j (th_at a)) =
      dg_bytes (th_root b) @ to_be_bytes (jf_as_ms j (th_at b))"
    by (simp_all add: to_canonical_bytes_def append_inj_left_len)
  from rear have "dg_bytes (th_root a) = dg_bytes (th_root b)"
      "to_be_bytes (jf_as_ms j (th_at a)) = to_be_bytes (jf_as_ms j (th_at b))"
    by (simp_all add: append_eq_append_conv)
  with front show "th_size a = th_size b \<and> th_root a = th_root b \<and>
      jf_as_ms j (th_at a) = jf_as_ms j (th_at b)"
    by (simp add: hash_codes.code_inject)
qed (simp add: to_canonical_bytes_def)

section \<open>Timestamps\<close>

definition timestamps_ok :: "timestamps \<Rightarrow> bool" where
  "timestamps_ok t \<longleftrightarrow> ts_created t \<le> ts_updated t"

lemma timestamps_ok_ops [agate_invs]:
  "timestamps_ok (timestamps_new now)"
  "timestamps_reconstitute j c u = Inr t \<Longrightarrow> timestamps_ok t"
  "timestamps_touched j t0 now = Inr t \<Longrightarrow> timestamps_ok t \<and> ts_created t = ts_created t0"
  by (auto simp: timestamps_ok_def timestamps_new_def timestamps_reconstitute_def
      timestamps_touched_def split: if_splits)

section \<open>The append-only contract\<close>

text \<open>Run a list of appends, collecting the indices.\<close>

fun run_appends :: "('r \<Rightarrow> 's \<Rightarrow> (u64 \<times> 's) option) \<Rightarrow> 'r list \<Rightarrow> 's \<Rightarrow> (u64 list \<times> 's) option" where
  "run_appends app [] s = Some ([], s)"
| "run_appends app (r # rs) s =
    (case app r s of
       None \<Rightarrow> None
     | Some (i, s1) \<Rightarrow>
         (case run_appends app rs s1 of
            None \<Rightarrow> None
          | Some (ks, s2) \<Rightarrow> Some (i # ks, s2)))"

text \<open>What a log implementation promises: an append puts exactly the leaf of the record
  at the end and returns its position.  The aggregate implements it here, the
  database gateway in \<^verbatim>\<open>Audit_Store\<close>.\<close>

locale append_only =
  fixes inv :: "'s \<Rightarrow> bool"
    and leaves :: "'s \<Rightarrow> digest list"
    and h :: hasher
    and app :: "bytes \<Rightarrow> 's \<Rightarrow> (u64 \<times> 's) option"
  assumes app_leaves: "inv s \<Longrightarrow> app r s = Some (i, s') \<Longrightarrow> leaves s' = leaves s @ [leaf h r]"
    and app_index: "inv s \<Longrightarrow> app r s = Some (i, s') \<Longrightarrow> i = word_of_nat (length (leaves s))"
    and app_inv: "inv s \<Longrightarrow> app r s = Some (i, s') \<Longrightarrow> inv s'"
begin

lemma run_appends_leaves:
  "run_appends app rs s = Some (ks, s') \<Longrightarrow> inv s \<Longrightarrow> inv s' \<and> leaves s' = leaves s @ map (leaf h) rs"
proof (induction rs arbitrary: s ks)
  case (Cons r rs)
  from Cons.prems(1) obtain i s1 ks1 where
    s1: "app r s = Some (i, s1)" "run_appends app rs s1 = Some (ks1, s')"
    by (auto split: option.splits prod.splits)
  from Cons.IH [OF s1(2) app_inv [OF Cons.prems(2) s1(1)]] app_leaves [OF Cons.prems(2) s1(1)]
  show ?case by simp
qed simp

lemma run_appends_indices:
  "run_appends app rs s = Some (ks, s') \<Longrightarrow> inv s \<Longrightarrow>
    ks = map (\<lambda>k. word_of_nat (length (leaves s) + k)) [0..<length rs]"
proof (induction rs arbitrary: s ks)
  case (Cons r rs)
  from Cons.prems(1) obtain i s1 ks1 where
    s1: "app r s = Some (i, s1)" "run_appends app rs s1 = Some (ks1, s')" "ks = i # ks1"
    by (auto split: option.splits prod.splits)
  note lv = app_leaves [OF Cons.prems(2) s1(1)]
  have "ks1 = map (\<lambda>k. word_of_nat (length (leaves s) + k)) [1..<Suc (length rs)]"
    using Cons.IH [OF s1(2) app_inv [OF Cons.prems(2) s1(1)]] lv
    by (simp add: map_Suc_upt [symmetric] del: upt_Suc)
  then show ?case
    using app_index [OF Cons.prems(2) s1(1)] s1(3) by (simp add: upt_rec del: upt_Suc)
qed simp

text \<open>Every earlier state of the log is provably a prefix of the later one.\<close>

lemma run_appends_consistent:
  assumes "run_appends app rs s = Some (ks, s')" and "inv s"
    and "leaves s \<noteq> []" and "length (leaves s') \<le> 2 ^ 63"
  shows "\<exists>pf old new. consistency h (leaves s') (word_of_nat (length (leaves s))) = Some (Some pf) \<and>
    merkle_root h (leaves s) = Some old \<and> merkle_root h (leaves s') = Some new \<and>
    verify_consistency h pf old new = Some True"
proof -
  have lv: "leaves s' = leaves s @ map (leaf h) rs"
    using run_appends_leaves [OF assms(1,2)] by simp
  then have m: "0 < length (leaves s)" "length (leaves s) \<le> length (leaves s')" "length (leaves s) \<le> 2 ^ 63"
    and tk: "take (length (leaves s)) (leaves s') = leaves s"
    using assms(3,4) by simp_all
  from consistency_eq [OF assms(4) m(1,2)] verify_generated_consistency [OF assms(4) m(1,2)]
    merkle_root_eq [OF assms(4)] merkle_root_eq [OF m(3)] tk
  show ?thesis by auto
qed

end

interpretation aggregate: append_only "\<lambda>l. tl_hasher l = h" tl_leaves h "\<lambda>r l. Some (tl_append l r)"
  for h
  by unfold_locales (auto simp: tl_append_def Let_def)

section \<open>Key store\<close>

lemma of_char_nth_hex:
  "n < 16 \<Longrightarrow> (of_char (''0123456789abcdef'' ! n) :: nat) = (if n < 10 then 48 + n else 87 + n)"
  by (cases "n \<in> {0, 1, 2, 3, 4, 5, 6, 7, 8, 9, 10, 11, 12, 13, 14, 15}") auto

lemma to_digit16_hex_digit: "to_digit16 (hex_digit n) = Some (n mod 16)"
  unfolding hex_digit_def to_digit16_def
  by (subst of_char_nth_hex) (auto simp: of_char_nth_hex Let_def)

lemma decode_pairs_hex_encode: "decode_pairs (hex_encode bs) = Some bs"
proof (induction bs)
  case (Cons b bs)
  have "unat b < 16 * 16" using unsigned_less [of b, where 'a = nat] by simp
  then have "unat b div 16 < 16" by (simp only: less_mult_imp_div_less)
  then have "unat b div 16 mod 16 * 16 + unat b mod 16 = unat b"
    by (simp only: mod_less div_mult_mod_eq)
  then have "(word_of_nat (unat b div 16 mod 16 * 16 + unat b mod 16) :: byte) = b"
    by (simp only: word_nat_cases) simp
  with Cons show ?case
    by (simp add: hex_encode_def hex_byte_def to_digit16_hex_digit)
qed (simp add: hex_encode_def)

lemma ascii_graph_hex_digit: "ascii_graph (hex_digit n)"
proof -
  have "n mod 16 < 16" by simp
  then have "n mod 16 < 16" "n mod 16 < 41" by linarith+
  then show ?thesis
    unfolding hex_digit_def ascii_graph_def ascii_ws_def by (simp add: of_char_nth_hex Let_def)
qed

lemma hex_encode_ends:
  "bs \<noteq> [] \<Longrightarrow> ascii_graph (List.hd (hex_encode bs)) \<and> ascii_graph (last (hex_encode bs))"
proof
  assume "bs \<noteq> []"
  then show "ascii_graph (List.hd (hex_encode bs))"
    by (cases bs) (simp_all add: hex_encode_def hex_byte_def ascii_graph_hex_digit)
  from \<open>bs \<noteq> []\<close> show "ascii_graph (last (hex_encode bs))"
    by (cases bs rule: rev_cases) (simp_all add: hex_encode_def hex_byte_def ascii_graph_hex_digit)
qed

lemma decode_seed_hex_encode: "length seed = 32 \<Longrightarrow> decode_seed (hex_encode seed) = Some seed"
proof -
  assume len: "length seed = 32"
  then have "seed \<noteq> []" by auto
  then have "hex_encode seed \<noteq> []" by (cases seed) (simp_all add: hex_encode_def hex_byte_def)
  with hex_encode_ends [OF \<open>seed \<noteq> []\<close>] have "trim (hex_encode seed) = hex_encode seed"
    by (simp add: trim_ascii_id)
  then show ?thesis using len by (simp add: decode_seed_def Let_def decode_pairs_hex_encode)
qed

lemma length_decode_pairs: "decode_pairs s = Some bs \<Longrightarrow> length bs = length s div 2"
  by (induction s arbitrary: bs rule: decode_pairs.induct) (auto split: option.splits)

lemma length_decode_seed: "decode_seed s = Some bs \<Longrightarrow> length bs = 32"
  by (auto simp: decode_seed_def Let_def dest: length_decode_pairs split: if_splits)

lemma keys_from_seed_correct:
  assumes "ed25519_correct be seed"
  shows "keys_from_seed be kid seed = Some \<lparr>ck_id = kid, ck_signer = \<lparr>sn_seed = seed, sn_key_id = kid\<rparr>,
    ck_verifier = \<lparr>vf_key = dalek_public be seed\<rparr>\<rparr>"
  using assms by (simp add: keys_from_seed_def Let_def verifier_from_public_def ed25519_correct_def)

section \<open>Properties\<close>

text \<open>C28: The signed bytes of a tree head determine its size, its root (with the hash
  algorithm) and its time in milliseconds: two different heads never share their
  canonical bytes, whatever the width of the root.\<close>

theorem canonical_bytes_injective:
  "to_canonical_bytes j a = to_canonical_bytes j b \<longleftrightarrow>
    th_size a = th_size b \<and> th_root a = th_root b \<and> jf_as_ms j (th_at a) = jf_as_ms j (th_at b)"
  by (rule to_canonical_bytes_inject)

text \<open>C27: A checkpoint key configured through the environment as 64 hexadecimal digits is
  loaded as that seed, and every tree head the store's signer signs is accepted by
  the store's verifier under the configured key id, provided \<^verbatim>\<open>ed25519-dalek\<close> is
  correct for the seed.  Any other key id finds nothing.\<close>

theorem checkpoint_key_roundtrip:
  assumes "length seed = 32" and "ed25519_correct be seed"
  shows "\<exists>c. keys_from_env be (Some kid) (Some (hex_encode seed)) = Some c \<and>
    keys_lookup (Some c) kid = Some c \<and> (\<forall>k. k \<noteq> kid \<longrightarrow> keys_lookup (Some c) k = None) \<and>
    (\<forall>head. checkpoint_verify j be (ck_verifier c) (checkpoint_sign j be (ck_signer c) head))"
  using assms keys_from_seed_correct [OF assms(2), of kid]
  by (auto simp: keys_from_env_def decode_seed_hex_encode keys_lookup_def checkpoint_verify_def
      checkpoint_sign_def verifier_verify_def signer_sign_def ed25519_correct_def)

definition demo_ed25519 :: ed25519_backend where
  "demo_ed25519 = \<lparr>dalek_sign = \<lambda>k d. replicate 64 0, dalek_public = \<lambda>k. k,
    dalek_parse_key = Inr, dalek_verify = \<lambda>k d s. s = replicate 64 0\<rparr>"

definition demo_jiff :: jiff where
  "demo_jiff = \<lparr>jf_from_ms = \<lambda>ms. Inr (sint ms * 1000000), jf_as_ms = \<lambda>t. word_of_int (t div 1000000)\<rparr>"

theorem checkpoint_key_roundtrip_witness:
  "\<exists>c. keys_from_env demo_ed25519 (Some ''k'') (Some (hex_encode (replicate 32 7))) = Some c \<and>
    (\<forall>head. checkpoint_verify demo_jiff demo_ed25519 (ck_verifier c)
      (checkpoint_sign demo_jiff demo_ed25519 (ck_signer c) head))"
  using checkpoint_key_roundtrip [of "replicate 32 7" demo_ed25519 "''k''" demo_jiff]
  by (auto simp: ed25519_correct_def demo_ed25519_def)

text \<open>The log is append-only: after any sequence of appends the earlier leaves are a
  prefix, the new ones are the leaf hashes of the records in order, the returned
  indices are the consecutive positions from the old size, and the root at the
  old size and the root now are linked by a consistency proof that verifies.\<close>

lemma log_append_only:
  assumes "run_appends (\<lambda>r l. Some (tl_append l r)) recs l = Some (ks, l')"
  shows "tl_leaves l' = tl_leaves l @ map (leaf (tl_hasher l)) recs \<and>
    ks = map (\<lambda>k. word_of_nat (length (tl_leaves l) + k)) [0..<length recs] \<and>
    (tl_leaves l \<noteq> [] \<and> length (tl_leaves l') \<le> 2 ^ 63 \<longrightarrow>
      (\<exists>pf old new. tl_prove_consistency l' (tl_size l) = Some (Some pf) \<and> tl_root l = Some old \<and>
        tl_root l' = Some new \<and> verify_consistency (tl_hasher l) pf old new = Some True))"
proof -
  note leaves = aggregate.run_appends_leaves [OF assms refl]
  note indices = aggregate.run_appends_indices [OF assms refl]
  show ?thesis
    using leaves indices aggregate.run_appends_consistent [OF assms refl]
    by (simp add: tl_prove_consistency_def tl_root_def tl_size_def)
qed

definition demo_log :: transparency_log where
  "demo_log = factory_reconstitute demo_hasher 7 (timestamps_new 0) demo_leaves"

end
