(* ===== verification/Audit_Store.thy ===== *)
theory Audit_Store
  imports Audit_Log
begin

text \<open>
  The PostgreSQL adapters of the audit crate
  (\<^verbatim>\<open>crates/agate-audit/src/infrastructure/persistence\<close>): the three tables of the
  migrations, the request-scoped transaction slot and its manager, the command
  gateway, the checkpoint anchor and the query gateway.

  A table is the list of its rows.  A transaction works on a copy of the committed
  database, which commit installs.  The database may fail any statement: the field
  \<^verbatim>\<open>w_faults\<close> scripts the outcome of the coming statements, and the lemmas hold
  for every script.  \<^verbatim>\<open>Unacked\<close> is a statement that took effect although its client saw an
  error, which matters for commit only.
\<close>

section \<open>Tables\<close>

record log_row =
  lr_id :: log_id
  lr_created :: i64
  lr_updated :: i64
  lr_algo :: "16 word"

record leaf_row =
  lf_log :: log_id
  lf_index :: int
  lf_hash :: bytes

record checkpoint_row =
  cr_log :: log_id
  cr_size :: i64
  cr_root :: bytes
  cr_root_algo :: "16 word"
  cr_issued :: i64
  cr_sig_algo :: "16 word"
  cr_key_id :: string
  cr_signature :: bytes

record db =
  db_logs :: "log_row list"
  db_leaves :: "leaf_row list"
  db_checkpoints :: "checkpoint_row list"

text \<open>The statements of the gateways.  \<^verbatim>\<open>next_index\<close> is
  \<^verbatim>\<open>COALESCE(MAX(leaf_index) + 1, 0)\<close>; the sum is a \<^verbatim>\<open>BIGINT\<close>, whose overflow is an
  error of the statement.\<close>

definition find_log :: "db \<Rightarrow> log_id \<Rightarrow> log_row option" where
  "find_log d i = find (\<lambda>r. lr_id r = i) (db_logs d)"

definition rows_of :: "db \<Rightarrow> log_id \<Rightarrow> leaf_row list" where
  "rows_of d i = filter (\<lambda>r. lf_log r = i) (db_leaves d)"

definition leaves_of :: "db \<Rightarrow> log_id \<Rightarrow> bytes list" where
  "leaves_of d i = map lf_hash (sort_key lf_index (rows_of d i))"

definition next_index :: "db \<Rightarrow> log_id \<Rightarrow> int" where
  "next_index d i =
    (case map lf_index (rows_of d i) of
       [] \<Rightarrow> 0
     | k # ks \<Rightarrow> fold max ks k + 1)"

definition upsert_log :: "log_row \<Rightarrow> db \<Rightarrow> db" where
  "upsert_log r d =
    (if find_log d (lr_id r) = None then d\<lparr>db_logs := db_logs d @ [r]\<rparr>
     else d\<lparr>db_logs := map (\<lambda>q. if lr_id q = lr_id r then q\<lparr>lr_updated := lr_updated r\<rparr> else q) (db_logs d)\<rparr>)"

definition has_leaf :: "db \<Rightarrow> log_id \<Rightarrow> int \<Rightarrow> bool" where
  "has_leaf d i k = list_ex (\<lambda>r. lf_log r = i \<and> lf_index r = k) (db_leaves d)"

definition insert_leaf_ignore :: "leaf_row \<Rightarrow> db \<Rightarrow> db" where
  "insert_leaf_ignore r d =
    (if has_leaf d (lf_log r) (lf_index r) then d else d\<lparr>db_leaves := db_leaves d @ [r]\<rparr>)"

definition insert_leaf :: "leaf_row \<Rightarrow> db \<Rightarrow> (string, db) result" where
  "insert_leaf r d =
    (if has_leaf d (lf_log r) (lf_index r) then Inl ''duplicate key value violates unique constraint''
     else Inr (d\<lparr>db_leaves := db_leaves d @ [r]\<rparr>))"

definition insert_checkpoint_ignore :: "checkpoint_row \<Rightarrow> db \<Rightarrow> db" where
  "insert_checkpoint_ignore r d =
    (if list_ex (\<lambda>q. cr_log q = cr_log r \<and> cr_size q = cr_size r) (db_checkpoints d) then d
     else d\<lparr>db_checkpoints := db_checkpoints d @ [r]\<rparr>)"

section \<open>Errors and effects\<close>

datatype audit_error =
    LogNotFound log_id
  | LeafOutOfRange u64 u64
  | SizeOutOfRange u64 u64
  | KeyNotFound string
  | Domain domain_error
  | Storage string

text \<open>The messages; \<^verbatim>\<open>show_uuid\<close> prints an identifier.\<close>

fun show_audit_error :: "(log_id \<Rightarrow> string) \<Rightarrow> audit_error \<Rightarrow> string" where
  "show_audit_error show_uuid (LogNotFound i) = ''log not found: LogId('' @ show_uuid i @ '')''"
| "show_audit_error show_uuid (LeafOutOfRange index tree_size) =
    ''leaf LeafIndex('' @ show_nat (unat index) @ '') is out of range (tree size '' @ show_nat (unat tree_size) @ '')''"
| "show_audit_error show_uuid (SizeOutOfRange requested current) =
    ''size '' @ show_nat (unat requested) @ '' is out of range (current size '' @ show_nat (unat current) @ '')''"
| "show_audit_error show_uuid (KeyNotFound key) = ''signing key not configured or unknown: '' @ key"
| "show_audit_error show_uuid (Domain err) = ''domain error: '' @ show_domain_error err"
| "show_audit_error show_uuid (Storage msg) = ''storage error: '' @ msg"

datatype outcome = Done | Failed string | Unacked string

record world =
  w_db :: db
  w_slot :: "db option"
  w_faults :: "outcome list"
  w_appended :: nat
  w_dropped :: nat

text \<open>An operation runs in the world and returns a result; \<^term>\<open>None\<close> is an operation that
  does not return, which only a tree hash can cause.\<close>

type_synonym 'a op = "world \<Rightarrow> ((audit_error, 'a) result \<times> world) option"

definition op_lift :: "(audit_error, 'a) result \<Rightarrow> 'a op" where
  "op_lift r w = Some (r, w)"

definition op_ok :: "'a \<Rightarrow> 'a op" where
  "op_ok a = op_lift (Inr a)"

definition op_err :: "audit_error \<Rightarrow> 'a op" where
  "op_err e = op_lift (Inl e)"

definition op_run :: "'a option \<Rightarrow> 'a op" where
  "op_run x w = map_option (\<lambda>a. (Inr a, w)) x"

definition op_bind :: "'a op \<Rightarrow> ('a \<Rightarrow> 'b op) \<Rightarrow> 'b op" where
  "op_bind m f w =
    (case m w of
       None \<Rightarrow> None
     | Some (Inl e, w') \<Rightarrow> Some (Inl e, w')
     | Some (Inr a, w') \<Rightarrow> f a w')"

definition next_fault :: "world \<Rightarrow> outcome \<times> world" where
  "next_fault w = (case w_faults w of [] \<Rightarrow> (Done, w) | f # fs \<Rightarrow> (f, w\<lparr>w_faults := fs\<rparr>))"

text \<open>A statement on the open transaction; without one the gateway reports \<^verbatim>\<open>msg\<close>.\<close>

definition tx_stmt :: "string \<Rightarrow> (db \<Rightarrow> (string, 'a \<times> db) result) \<Rightarrow> 'a op" where
  "tx_stmt msg q w =
    Some (case w_slot w of
       None \<Rightarrow> (Inl (Storage msg), w)
     | Some d \<Rightarrow>
         (case next_fault w of
            (Done, w') \<Rightarrow>
              (case q d of
                 Inl e \<Rightarrow> (Inl (Storage e), w')
               | Inr (a, d') \<Rightarrow> (Inr a, w'\<lparr>w_slot := Some d'\<rparr>))
          | (Failed e, w') \<Rightarrow> (Inl (Storage e), w')
          | (Unacked e, w') \<Rightarrow> (Inl (Storage e), w')))"

text \<open>A read through the pool sees the committed database.\<close>

definition pool_read :: "(db \<Rightarrow> 'a) \<Rightarrow> 'a op" where
  "pool_read q w =
    Some (case next_fault w of
       (Done, w') \<Rightarrow> (Inr (q (w_db w)), w')
     | (Failed e, w') \<Rightarrow> (Inl (Storage e), w')
     | (Unacked e, w') \<Rightarrow> (Inl (Storage e), w'))"

section \<open>Transaction manager\<close>

definition tx_begin :: "unit op" where
  "tx_begin w =
    Some (case w_slot w of
       Some _ \<Rightarrow> (Inl (Storage ''transaction already begun''), w)
     | None \<Rightarrow>
         (case next_fault w of
            (Done, w') \<Rightarrow> (Inr (), w'\<lparr>w_slot := Some (w_db w)\<rparr>)
          | (Failed e, w') \<Rightarrow> (Inl (Storage e), w')
          | (Unacked e, w') \<Rightarrow> (Inl (Storage e), w')))"

definition tx_commit :: "unit op" where
  "tx_commit w =
    Some (case w_slot w of
       None \<Rightarrow> (Inl (Storage ''commit without an active transaction''), w)
     | Some d \<Rightarrow>
         (case next_fault (w\<lparr>w_slot := None\<rparr>) of
            (Done, w') \<Rightarrow> (Inr (), w'\<lparr>w_db := d\<rparr>)
          | (Failed e, w') \<Rightarrow> (Inl (Storage e), w')
          | (Unacked e, w') \<Rightarrow> (Inl (Storage e), w'\<lparr>w_db := d\<rparr>)))"

definition tx_rollback :: "unit op" where
  "tx_rollback w =
    Some (case w_slot w of
       None \<Rightarrow> (Inr (), w)
     | Some d \<Rightarrow>
         (case next_fault (w\<lparr>w_slot := None\<rparr>) of
            (Done, w') \<Rightarrow> (Inr (), w')
          | (Failed e, w') \<Rightarrow> (Inl (Storage e), w')
          | (Unacked e, w') \<Rightarrow> (Inl (Storage e), w')))"

section \<open>Command gateway\<close>

definition reconstitute_row ::
    "jiff \<Rightarrow> hasher \<Rightarrow> log_row \<Rightarrow> bytes list \<Rightarrow> hash_algo \<Rightarrow> (audit_error, transparency_log) result" where
  "reconstitute_row j h r hashes a =
    (let leaves = map (\<lambda>bs. \<lparr>dg_algo = a, dg_bytes = bs\<rparr>) hashes in
     map_err Domain
      (and_then (timestamp_from_millis j (lr_created r)) (\<lambda>c.
       and_then (timestamp_from_millis j (lr_updated r)) (\<lambda>u.
       and_then (timestamps_reconstitute j c u) (\<lambda>ts.
         Inr (factory_reconstitute h (lr_id r) ts leaves))))))"

definition gw_load :: "jiff \<Rightarrow> hasher \<Rightarrow> log_id \<Rightarrow> transparency_log option op" where
  "gw_load j h i =
    op_bind (tx_stmt ''load without an active transaction'' (\<lambda>d. Inr (find_log d i, d))) (\<lambda>row.
      case row of
        None \<Rightarrow> op_ok None
      | Some r \<Rightarrow>
          op_bind (op_lift (ok_or (Storage (''unknown hash algo code '' @ show_int (sint (lr_algo r))))
                     (hash_from_code (ucast (lr_algo r))))) (\<lambda>a.
          op_bind (tx_stmt ''load without an active transaction'' (\<lambda>d. Inr (leaves_of d i, d))) (\<lambda>hashes.
          op_bind (op_lift (reconstitute_row j h r hashes a)) (\<lambda>l. op_ok (Some l)))))"

text \<open>The loop over the enumerated leaves, one statement per leaf.\<close>

fun save_leaves :: "log_id \<Rightarrow> nat \<Rightarrow> digest list \<Rightarrow> unit op" where
  "save_leaves i k [] = op_ok ()"
| "save_leaves i k (lf # rest) =
    op_bind (tx_stmt ''save without an active transaction''
        (\<lambda>d. Inr ((), insert_leaf_ignore \<lparr>lf_log = i, lf_index = int k, lf_hash = dg_bytes lf\<rparr> d)))
      (\<lambda>_. save_leaves i (Suc k) rest)"

definition gw_save :: "jiff \<Rightarrow> transparency_log \<Rightarrow> unit op" where
  "gw_save j l =
    op_bind (tx_stmt ''save without an active transaction''
        (\<lambda>d. Inr ((), upsert_log
          \<lparr>lr_id = tl_id l, lr_created = jf_as_ms j (ts_created (tl_timestamps l)),
           lr_updated = jf_as_ms j (ts_updated (tl_timestamps l)), lr_algo = ucast (hash_code (tl_algo l))\<rparr> d)))
      (\<lambda>_. save_leaves (tl_id l) 0 (tl_leaves l))"

definition gw_append_record :: "hasher \<Rightarrow> log_id \<Rightarrow> bytes \<Rightarrow> u64 option op" where
  "gw_append_record h i rec =
    op_bind (tx_stmt ''append without an active transaction'' (\<lambda>d. Inr (find_log d i, d))) (\<lambda>row.
      case row of
        None \<Rightarrow> op_ok None
      | Some _ \<Rightarrow>
          op_bind (tx_stmt ''append without an active transaction''
              (\<lambda>d. if next_index d i > 2 ^ 63 - 1 then Inl ''bigint out of range'' else Inr (next_index d i, d)))
            (\<lambda>nxt.
          op_bind (tx_stmt ''append without an active transaction''
              (\<lambda>d. and_then (insert_leaf \<lparr>lf_log = i, lf_index = nxt, lf_hash = dg_bytes (leaf h rec)\<rparr> d)
                     (\<lambda>d'. Inr ((), d'))))
            (\<lambda>_. op_ok (Some (word_of_int nxt)))))"

section \<open>Checkpoint anchor\<close>

definition checkpoint_row_of :: "jiff \<Rightarrow> log_id \<Rightarrow> signed_tree_head \<Rightarrow> checkpoint_row" where
  "checkpoint_row_of j i sth =
    \<lparr>cr_log = i, cr_size = th_size (sth_head sth), cr_root = dg_bytes (th_root (sth_head sth)),
     cr_root_algo = ucast (hash_code (dg_algo (th_root (sth_head sth)))),
     cr_issued = jf_as_ms j (th_at (sth_head sth)),
     cr_sig_algo = ucast (sign_code (sg_algo (sth_signature sth))),
     cr_key_id = sg_key_id (sth_signature sth), cr_signature = sg_bytes (sth_signature sth)\<rparr>"

definition anchor :: "jiff \<Rightarrow> log_id \<Rightarrow> signed_tree_head \<Rightarrow> unit op" where
  "anchor j i sth =
    tx_stmt ''anchor without an active transaction''
      (\<lambda>d. Inr ((), insert_checkpoint_ignore (checkpoint_row_of j i sth) d))"

section \<open>Query gateway\<close>

record inclusion_view =
  iv_proof :: inclusion_proof
  iv_leaf_hash :: digest
  iv_root :: digest

record consistency_view =
  cv_proof :: consistency_proof
  cv_old_root :: digest
  cv_new_root :: digest

definition qg_leaves :: "hasher \<Rightarrow> log_id \<Rightarrow> digest list op" where
  "qg_leaves h i =
    op_bind (pool_read (\<lambda>d. leaves_of d i)) (\<lambda>hashes.
      op_ok (map (\<lambda>bs. \<lparr>dg_algo = hs_algo h, dg_bytes = bs\<rparr>) hashes))"

definition qg_inclusion_proof :: "hasher \<Rightarrow> log_id \<Rightarrow> u64 \<Rightarrow> inclusion_view op" where
  "qg_inclusion_proof h i index =
    op_bind (pool_read (\<lambda>d. find_log d i \<noteq> None)) (\<lambda>ex.
      if \<not> ex then op_err (LogNotFound i)
      else op_bind (qg_leaves h i) (\<lambda>leaves.
        op_bind (op_run (inclusion h leaves index)) (\<lambda>p.
        op_bind (op_lift (ok_or (LeafOutOfRange index (word_of_nat (length leaves))) p)) (\<lambda>pf.
        op_bind (op_run (merkle_root h leaves)) (\<lambda>r.
          op_ok \<lparr>iv_proof = pf, iv_leaf_hash = leaves ! unat index, iv_root = r\<rparr>)))))"

definition qg_consistency_proof :: "hasher \<Rightarrow> log_id \<Rightarrow> u64 \<Rightarrow> consistency_view op" where
  "qg_consistency_proof h i first =
    op_bind (pool_read (\<lambda>d. find_log d i \<noteq> None)) (\<lambda>ex.
      if \<not> ex then op_err (LogNotFound i)
      else op_bind (qg_leaves h i) (\<lambda>leaves.
        op_bind (op_run (consistency h leaves first)) (\<lambda>p.
        op_bind (op_lift (ok_or (SizeOutOfRange first (word_of_nat (length leaves))) p)) (\<lambda>pf.
        op_bind (op_run (merkle_root h (take (unat first) leaves))) (\<lambda>old.
        op_bind (op_run (merkle_root h leaves)) (\<lambda>new.
          op_ok \<lparr>cv_proof = pf, cv_old_root = old, cv_new_root = new\<rparr>))))))"

section \<open>Operations\<close>

lemma op_bind_Some_Inr:
  "op_bind m f w = Some (Inr b, w2) \<longleftrightarrow> (\<exists>a w1. m w = Some (Inr a, w1) \<and> f a w1 = Some (Inr b, w2))"
  by (auto simp: op_bind_def split: option.splits sum.splits prod.splits)

lemma op_bind_Some_Inl:
  "op_bind m f w = Some (Inl e, w2) \<longleftrightarrow>
    m w = Some (Inl e, w2) \<or> (\<exists>a w1. m w = Some (Inr a, w1) \<and> f a w1 = Some (Inl e, w2))"
  by (auto simp: op_bind_def split: option.splits sum.splits prod.splits)

lemma op_lift_simps [simp]:
  "op_lift r w = Some (r, w)"
  "op_ok a w = Some (Inr a, w)"
  "op_err e w = Some (Inl e, w)"
  by (simp_all add: op_lift_def op_ok_def op_err_def)

lemma op_run_eq_Some [simp]: "op_run x w = Some (r, w') \<longleftrightarrow> (\<exists>a. x = Some a \<and> r = Inr a \<and> w' = w)"
  by (cases x) (auto simp: op_run_def)

lemma next_fault_Done:
  "next_fault w = (Done, w') \<Longrightarrow> w_db w' = w_db w \<and> w_slot w' = w_slot w \<and>
    w_appended w' = w_appended w \<and> w_dropped w' = w_dropped w \<and> set (w_faults w') \<subseteq> set (w_faults w)"
  by (auto simp: next_fault_def split: list.splits)

lemma next_fault_frame:
  "next_fault w = (f, w') \<Longrightarrow> w_db w' = w_db w \<and> w_slot w' = w_slot w \<and>
    w_appended w' = w_appended w \<and> w_dropped w' = w_dropped w \<and> set (w_faults w') \<subseteq> set (w_faults w)"
  by (auto simp: next_fault_def split: list.splits)

lemma tx_stmt_Inr:
  "tx_stmt msg q w = Some (Inr a, w') \<longleftrightarrow>
    (\<exists>d w1 d'. w_slot w = Some d \<and> next_fault w = (Done, w1) \<and> q d = Inr (a, d') \<and> w' = w1\<lparr>w_slot := Some d'\<rparr>)"
  by (auto simp: tx_stmt_def split: option.splits prod.splits outcome.splits sum.splits)

text \<open>No gateway statement touches the committed database or closes the transaction.\<close>

definition in_tx :: "'a op \<Rightarrow> bool" where
  "in_tx m \<longleftrightarrow> (\<forall>w r w'. m w = Some (r, w') \<longrightarrow>
    w_db w' = w_db w \<and> (w_slot w \<noteq> None \<longrightarrow> w_slot w' \<noteq> None) \<and>
    w_appended w' = w_appended w \<and> w_dropped w' = w_dropped w \<and> set (w_faults w') \<subseteq> set (w_faults w))"

lemma in_tx_stmt [agate_invs]: "in_tx (tx_stmt msg q)"
  by (auto simp: in_tx_def tx_stmt_def dest!: next_fault_frame
      split: option.splits prod.splits outcome.splits sum.splits)

lemma in_tx_lift [agate_invs]: "in_tx (op_lift r)" "in_tx (op_ok a)" "in_tx (op_err e)" "in_tx (op_run x)"
  by (auto simp: in_tx_def)

lemma in_tx_bind [agate_invs]:
  assumes "in_tx m" and "\<And>a. in_tx (f a)"
  shows "in_tx (op_bind m f)"
  unfolding in_tx_def
proof (intro allI impI)
  fix w r w'
  assume run: "op_bind m f w = Some (r, w')"
  then obtain q w1 where q: "m w = Some (q, w1)"
    by (auto simp: op_bind_def split: option.splits)
  let ?P = "\<lambda>w w'. w_db w' = w_db w \<and> (w_slot w \<noteq> None \<longrightarrow> w_slot w' \<noteq> None) \<and>
      w_appended w' = w_appended w \<and> w_dropped w' = w_dropped w \<and> set (w_faults w') \<subseteq> set (w_faults w)"
  from assms(1) q have first: "?P w w1" by (simp add: in_tx_def)
  show "?P w w'"
  proof (cases q)
    case (Inl e)
    with run q first show ?thesis by (simp add: op_bind_def)
  next
    case (Inr a)
    with run q have "f a w1 = Some (r, w')" by (simp add: op_bind_def)
    with assms(2) [of a] have "?P w1 w'" by (simp add: in_tx_def)
    with first show ?thesis by auto
  qed
qed

lemma in_tx_save_leaves [agate_invs]: "in_tx (save_leaves i k ls)"
  by (induction ls arbitrary: k) (simp_all add: in_tx_lift in_tx_bind in_tx_stmt)

lemma in_tx_gateway [agate_invs]:
  "in_tx (gw_load j h i)" "in_tx (gw_save j l)" "in_tx (gw_append_record h i rec)" "in_tx (anchor j i sth)"
proof -
  show "in_tx (gw_load j h i)"
    unfolding gw_load_def
    by (intro in_tx_bind in_tx_stmt) (auto split: option.split intro!: in_tx_bind in_tx_stmt in_tx_lift)
  show "in_tx (gw_save j l)"
    unfolding gw_save_def by (intro in_tx_bind in_tx_stmt in_tx_save_leaves)
  show "in_tx (gw_append_record h i rec)"
    unfolding gw_append_record_def
    by (intro in_tx_bind in_tx_stmt) (auto split: option.split intro!: in_tx_bind in_tx_stmt in_tx_lift)
  show "in_tx (anchor j i sth)"
    unfolding anchor_def by (rule in_tx_stmt)
qed

section \<open>Leaf indices\<close>

text \<open>The indices of a log's leaves are 0, 1, ... without gaps or duplicates.\<close>

definition contiguous :: "db \<Rightarrow> log_id \<Rightarrow> bool" where
  "contiguous d i \<longleftrightarrow>
    distinct (map lf_index (rows_of d i)) \<and> set (map lf_index (rows_of d i)) = {0..<int (length (rows_of d i))}"

lemma fold_max_Max: "fold max ks k = Max (insert k (set ks))" for k :: int
  using Max.set_eq_fold [of k ks] by simp

lemma next_index_contiguous:
  assumes "contiguous d i"
  shows "next_index d i = int (length (rows_of d i))"
proof (cases "map lf_index (rows_of d i)")
  case Nil
  then show ?thesis by (simp add: next_index_def)
next
  case (Cons k ks)
  then have "insert k (set ks) = {0..<int (length (rows_of d i))}"
    using assms by (metis contiguous_def list.set(2))
  moreover have "0 < length (rows_of d i)" using Cons by auto
  then have "Max {0..<int (length (rows_of d i))} = int (length (rows_of d i)) - 1"
    by (intro Max_eqI) auto
  ultimately show ?thesis by (simp add: next_index_def Cons fold_max_Max)
qed

lemma rows_of_append_leaf:
  "rows_of (d\<lparr>db_leaves := db_leaves d @ [r]\<rparr>) i = rows_of d i @ (if lf_log r = i then [r] else [])"
  by (simp add: rows_of_def)

lemma insort_key_snoc: "f a < f x \<Longrightarrow> insort_key f a (ys @ [x]) = insort_key f a ys @ [x]"
  by (induction ys) auto

lemma sort_key_snoc_max: "(\<And>y. y \<in> set xs \<Longrightarrow> f y < f x) \<Longrightarrow> sort_key f (xs @ [x]) = sort_key f xs @ [x]"
  by (induction xs) (auto simp: insort_key_snoc)

lemma leaves_of_append_leaf:
  assumes "contiguous d i" and "lf_log r = i" and "lf_index r = int (length (rows_of d i))"
  shows "leaves_of (d\<lparr>db_leaves := db_leaves d @ [r]\<rparr>) i = leaves_of d i @ [lf_hash r]"
proof -
  have "lf_index q < lf_index r" if "q \<in> set (rows_of d i)" for q
  proof -
    from that have "lf_index q \<in> set (map lf_index (rows_of d i))" by simp
    with assms show ?thesis by (simp only: contiguous_def) simp
  qed
  then show ?thesis by (simp add: leaves_of_def rows_of_append_leaf assms(2) sort_key_snoc_max)
qed

lemma contiguous_append_leaf:
  assumes "contiguous d i" and "lf_log r = i" and "lf_index r = int (length (rows_of d i))"
  shows "contiguous (d\<lparr>db_leaves := db_leaves d @ [r]\<rparr>) k \<longleftrightarrow> k = i \<or> contiguous d k"
proof (cases "k = i")
  case True
  have S: "lf_index ` set (rows_of d i) = {0..<int (length (rows_of d i))}"
      "distinct (map lf_index (rows_of d i))"
    using assms(1) by (simp_all add: contiguous_def)
  have "contiguous (d\<lparr>db_leaves := db_leaves d @ [r]\<rparr>) i"
    using S(2) unfolding contiguous_def rows_of_append_leaf
    by (simp add: assms(2,3) S(1)) auto
  with True show ?thesis by simp
next
  case False
  with assms(2) show ?thesis by (simp add: contiguous_def rows_of_append_leaf)
qed

lemma length_leaves_of [simp]: "length (leaves_of d i) = length (rows_of d i)"
  by (simp add: leaves_of_def)

lemma has_leaf_rows: "has_leaf d i k \<longleftrightarrow> k \<in> set (map lf_index (rows_of d i))"
  by (auto simp: has_leaf_def rows_of_def list_ex_iff)

section \<open>Appending a record\<close>

definition digests_of :: "hasher \<Rightarrow> db \<Rightarrow> log_id \<Rightarrow> digest list" where
  "digests_of h d i = map (\<lambda>bs. \<lparr>dg_algo = hs_algo h, dg_bytes = bs\<rparr>) (leaves_of d i)"

lemma gw_append_record_Inr:
  assumes "gw_append_record h i rec w = Some (Inr (Some k), w')"
  obtains d where "w_slot w = Some d" and "find_log d i \<noteq> None" and "k = word_of_int (next_index d i)"
    and "next_index d i < 2 ^ 63" and "\<not> has_leaf d i (next_index d i)"
    and "w_slot w' = Some (d\<lparr>db_leaves := db_leaves d @
      [\<lparr>lf_log = i, lf_index = next_index d i, lf_hash = dg_bytes (leaf h rec)\<rparr>]\<rparr>)"
proof -
  from assms obtain d where d: "w_slot w = Some d"
    by (auto simp: gw_append_record_def op_bind_Some_Inr tx_stmt_Inr)
  from assms d show thesis
    by (intro that [OF d])
      (auto simp: gw_append_record_def op_bind_Some_Inr tx_stmt_Inr insert_leaf_def and_then_eq_Inr
        dest!: next_fault_Done split: option.splits if_splits)
qed

text \<open>The effect of a successful append on the transaction's database, as a pure function.\<close>

definition db_append :: "hasher \<Rightarrow> log_id \<Rightarrow> bytes \<Rightarrow> db \<Rightarrow> (u64 \<times> db) option" where
  "db_append h i rec d =
    (case gw_append_record h i rec \<lparr>w_db = d, w_slot = Some d, w_faults = [], w_appended = 0, w_dropped = 0\<rparr> of
       Some (Inr (Some k), w) \<Rightarrow> map_option (\<lambda>d'. (k, d')) (w_slot w)
     | _ \<Rightarrow> None)"

lemma db_append_Some:
  assumes "contiguous d i" and "db_append h i rec d = Some (k, d')"
  shows "k = word_of_nat (length (leaves_of d i))"
    and "leaves_of d' i = leaves_of d i @ [dg_bytes (leaf h rec)]"
    and "contiguous d' i"
proof -
  let ?w = "\<lparr>w_db = d, w_slot = Some d, w_faults = [], w_appended = 0, w_dropped = 0\<rparr>"
  let ?r = "\<lparr>lf_log = i, lf_index = next_index d i, lf_hash = dg_bytes (leaf h rec)\<rparr>"
  from assms(2) obtain w where run: "gw_append_record h i rec ?w = Some (Inr (Some k), w)"
    and d': "w_slot w = Some d'"
    by (auto simp: db_append_def split: option.splits sum.splits)
  from run have "k = word_of_int (next_index d i) \<and> d' = d\<lparr>db_leaves := db_leaves d @ [?r]\<rparr>"
    by (rule gw_append_record_Inr) (use d' in auto)
  moreover have "next_index d i = int (length (rows_of d i))" by (rule next_index_contiguous [OF assms(1)])
  ultimately have k: "k = word_of_int (next_index d i)" "next_index d i = int (length (rows_of d i))"
    and d'_eq: "d' = d\<lparr>db_leaves := db_leaves d @ [?r]\<rparr>" by blast+
  show "k = word_of_nat (length (leaves_of d i))" by (simp add: k)
  show "leaves_of d' i = leaves_of d i @ [dg_bytes (leaf h rec)]"
    using leaves_of_append_leaf [OF assms(1), of ?r] k(2) by (simp add: d'_eq)
  show "contiguous d' i"
    using contiguous_append_leaf [OF assms(1), of ?r i] k(2) by (simp add: d'_eq)
qed

lemma leaf_digest: "\<lparr>dg_algo = hs_algo h, dg_bytes = dg_bytes (leaf h rec)\<rparr> = leaf h rec"
  by (simp add: leaf_def hash_data_def)

interpretation gateway: append_only "\<lambda>d. contiguous d i" "\<lambda>d. digests_of h d i" h "db_append h i"
  for h i
  by unfold_locales
    (auto simp: digests_of_def leaf_digest db_append_Some(2) dest: db_append_Some(1) db_append_Some(3))

end
