(* ===== verification/Audit_App.thy ===== *)
theory Audit_App
  imports Audit_Store
begin

text \<open>
  The application and presentation layers of the audit crate
  (\<^verbatim>\<open>crates/agate-audit/src/application\<close>, \<^verbatim>\<open>presentation\<close>, \<^verbatim>\<open>setup/ioc/registry.rs\<close>): the
  behavior pipeline, the five use-case handlers with the pipelines the registry
  gives them, the mapping of errors and read models to HTTP, and the startup
  connection loop.
\<close>

section \<open>Pipeline\<close>

type_synonym ('r, 'a) handler = "'r \<Rightarrow> 'a op"
type_synonym ('r, 'a) behavior = "'r \<Rightarrow> ('r, 'a) handler \<Rightarrow> 'a op"

definition tracing_behavior :: "('r, 'a) behavior" where
  "tracing_behavior req nxt = nxt req"

definition metrics_behavior :: "('r, 'a) behavior" where
  "metrics_behavior req nxt w =
    (case nxt req w of
       None \<Rightarrow> None
     | Some (r, w') \<Rightarrow>
         Some (r, if is_ok r then w'\<lparr>w_appended := Suc (w_appended w')\<rparr>
                  else w'\<lparr>w_dropped := Suc (w_dropped w')\<rparr>))"

definition transaction_behavior :: "('r, 'a) behavior" where
  "transaction_behavior req nxt =
    op_bind tx_begin (\<lambda>_ w.
      case nxt req w of
        None \<Rightarrow> None
      | Some (Inr v, w1) \<Rightarrow> op_bind tx_commit (\<lambda>_. op_ok v) w1
      | Some (Inl e, w1) \<Rightarrow>
          (case tx_rollback w1 of
             None \<Rightarrow> None
           | Some (_, w2) \<Rightarrow> Some (Inl e, w2)))"

text \<open>\<^verbatim>\<open>Mediator::send\<close> wraps from the last behavior to the first.\<close>

definition mediator_send :: "('r, 'a) handler \<Rightarrow> ('r, 'a) behavior list \<Rightarrow> ('r, 'a) handler" where
  "mediator_send hnd behaviors = foldl (\<lambda>nxt b req. b req nxt) hnd (rev behaviors)"

section \<open>Handlers\<close>

definition handle_create_log :: "jiff \<Rightarrow> hasher \<Rightarrow> log_id \<Rightarrow> instant \<Rightarrow> (unit, log_id) handler" where
  "handle_create_log j h new_id now req =
    op_bind (gw_save j (factory_create h new_id now)) (\<lambda>_. op_ok new_id)"

definition handle_append_record :: "hasher \<Rightarrow> (log_id \<times> bytes, u64) handler" where
  "handle_append_record h req =
    (case req of (i, rec) \<Rightarrow>
       op_bind (gw_append_record h i rec) (\<lambda>r. op_lift (ok_or (LogNotFound i) r)))"

definition keys_signer :: "configured_key option \<Rightarrow> string \<Rightarrow> (audit_error, signer) result" where
  "keys_signer st key = ok_or (KeyNotFound key) (map_option ck_signer (keys_lookup st key))"

definition keys_verifier :: "configured_key option \<Rightarrow> string \<Rightarrow> (audit_error, verifier) result" where
  "keys_verifier st key = ok_or (KeyNotFound key) (map_option ck_verifier (keys_lookup st key))"

record issue_request =
  ir_log :: log_id
  ir_key :: string
  ir_previous :: "u64 option"

definition handle_issue_checkpoint ::
    "jiff \<Rightarrow> ed25519_backend \<Rightarrow> hasher \<Rightarrow> configured_key option \<Rightarrow> instant \<Rightarrow>
      (issue_request, signed_tree_head) handler" where
  "handle_issue_checkpoint j be h st now req =
    op_bind (gw_load j h (ir_log req)) (\<lambda>x.
    op_bind (op_lift (ok_or (LogNotFound (ir_log req)) x)) (\<lambda>l.
    op_bind (op_lift (keys_signer st (ir_key req))) (\<lambda>s.
      if ir_previous req = Some (tl_size l) then
        op_bind (op_run (tl_head l now)) (\<lambda>head. op_ok (checkpoint_sign j be s head))
      else
        op_bind (op_run (tl_issue_checkpoint l now)) (\<lambda>(head, l').
          let sth = checkpoint_sign j be s head in
          op_bind (anchor j (ir_log req) sth) (\<lambda>_.
          op_bind (gw_save j l') (\<lambda>_. op_ok sth))))))"

definition handle_inclusion_proof :: "hasher \<Rightarrow> (log_id \<times> u64, inclusion_view) handler" where
  "handle_inclusion_proof h req = (case req of (i, index) \<Rightarrow> qg_inclusion_proof h i index)"

definition handle_consistency_proof :: "hasher \<Rightarrow> (log_id \<times> u64, consistency_view) handler" where
  "handle_consistency_proof h req = (case req of (i, first) \<Rightarrow> qg_consistency_proof h i first)"

section \<open>Registry\<close>

text \<open>\<^verbatim>\<open>build_registry\<close>: the pipeline of each request type, in registration order.\<close>

definition send_create_log :: "jiff \<Rightarrow> hasher \<Rightarrow> log_id \<Rightarrow> instant \<Rightarrow> (unit, log_id) handler" where
  "send_create_log j h new_id now =
    mediator_send (handle_create_log j h new_id now) [tracing_behavior, transaction_behavior]"

definition send_append_record :: "hasher \<Rightarrow> (log_id \<times> bytes, u64) handler" where
  "send_append_record h =
    mediator_send (handle_append_record h) [tracing_behavior, metrics_behavior, transaction_behavior]"

definition send_issue_checkpoint ::
    "jiff \<Rightarrow> ed25519_backend \<Rightarrow> hasher \<Rightarrow> configured_key option \<Rightarrow> instant \<Rightarrow>
      (issue_request, signed_tree_head) handler" where
  "send_issue_checkpoint j be h st now =
    mediator_send (handle_issue_checkpoint j be h st now) [tracing_behavior, transaction_behavior]"

definition send_inclusion_proof :: "hasher \<Rightarrow> (log_id \<times> u64, inclusion_view) handler" where
  "send_inclusion_proof h = mediator_send (handle_inclusion_proof h) [tracing_behavior]"

definition send_consistency_proof :: "hasher \<Rightarrow> (log_id \<times> u64, consistency_view) handler" where
  "send_consistency_proof h = mediator_send (handle_consistency_proof h) [tracing_behavior]"

section \<open>HTTP\<close>

fun http_error :: "audit_error \<Rightarrow> nat \<times> string" where
  "http_error (LogNotFound _) = (404, ''log_not_found'')"
| "http_error (LeafOutOfRange _ _) = (400, ''out_of_range'')"
| "http_error (SizeOutOfRange _ _) = (400, ''out_of_range'')"
| "http_error (KeyNotFound _) = (500, ''key_not_found'')"
| "http_error (Domain _) = (400, ''domain_error'')"
| "http_error (Storage _) = (500, ''storage_error'')"

record inclusion_response =
  rs_leaf_index :: u64
  rs_tree_size :: u64
  rs_leaf_hash :: string
  rs_root :: string
  rs_path :: "string list"

definition inclusion_response_of :: "inclusion_view \<Rightarrow> inclusion_response" where
  "inclusion_response_of v =
    \<lparr>rs_leaf_index = ip_leaf_index (iv_proof v), rs_tree_size = ip_tree_size (iv_proof v),
     rs_leaf_hash = to_hex (iv_leaf_hash v), rs_root = to_hex (iv_root v),
     rs_path = map to_hex (ip_path (iv_proof v))\<rparr>"

record consistency_response =
  rs_first_size :: u64
  rs_second_size :: u64
  rs_old_root :: string
  rs_new_root :: string
  rs_cpath :: "string list"

definition consistency_response_of :: "consistency_view \<Rightarrow> consistency_response" where
  "consistency_response_of v =
    \<lparr>rs_first_size = cp_first_size (cv_proof v), rs_second_size = cp_second_size (cv_proof v),
     rs_old_root = to_hex (cv_old_root v), rs_new_root = to_hex (cv_new_root v),
     rs_cpath = map to_hex (cp_path (cv_proof v))\<rparr>"

record checkpoint_response =
  rs_size :: u64
  rs_head_root :: string
  rs_at_ms :: i64
  rs_key_id :: string
  rs_algorithm :: string
  rs_signature :: string

definition checkpoint_response_of :: "jiff \<Rightarrow> signed_tree_head \<Rightarrow> checkpoint_response" where
  "checkpoint_response_of j sth =
    \<lparr>rs_size = th_size (sth_head sth), rs_head_root = to_hex (th_root (sth_head sth)),
     rs_at_ms = jf_as_ms j (th_at (sth_head sth)), rs_key_id = sg_key_id (sth_signature sth),
     rs_algorithm = sign_algo_debug (sg_algo (sth_signature sth)),
     rs_signature = hex_encode (sg_bytes (sth_signature sth))\<rparr>"

text \<open>A route sends its request and answers with the status and the projected value, or with the status
  and the error body: the code of the error and its message.\<close>

record error_body =
  eb_error :: string
  eb_detail :: string

datatype 'b http_reply = Reply nat 'b | ErrorReply nat error_body

definition error_reply :: "(log_id \<Rightarrow> string) \<Rightarrow> audit_error \<Rightarrow> 'b http_reply" where
  "error_reply show_uuid e =
    (case http_error e of (status, code) \<Rightarrow>
       ErrorReply status \<lparr>eb_error = code, eb_detail = show_audit_error show_uuid e\<rparr>)"

definition http_route ::
    "(log_id \<Rightarrow> string) \<Rightarrow> nat \<Rightarrow> ('a \<Rightarrow> 'b) \<Rightarrow> 'a op \<Rightarrow> world \<Rightarrow> ('b http_reply \<times> world) option" where
  "http_route show_uuid status f m w =
    map_option (\<lambda>(r, w'). (case r of Inr v \<Rightarrow> Reply status (f v) | Inl e \<Rightarrow> error_reply show_uuid e, w')) (m w)"

definition http_create_log ::
    "(log_id \<Rightarrow> string) \<Rightarrow> jiff \<Rightarrow> hasher \<Rightarrow> log_id \<Rightarrow> instant \<Rightarrow> world \<Rightarrow> (log_id http_reply \<times> world) option" where
  "http_create_log su j h new_id now = http_route su 201 id (send_create_log j h new_id now ())"

definition http_append_record ::
    "(log_id \<Rightarrow> string) \<Rightarrow> hasher \<Rightarrow> log_id \<Rightarrow> string \<Rightarrow> world \<Rightarrow> (u64 http_reply \<times> world) option" where
  "http_append_record su h i body = http_route su 201 id (send_append_record h (i, map of_char body))"

definition http_inclusion_proof ::
    "(log_id \<Rightarrow> string) \<Rightarrow> hasher \<Rightarrow> log_id \<Rightarrow> u64 \<Rightarrow> world \<Rightarrow> (inclusion_response http_reply \<times> world) option" where
  "http_inclusion_proof su h i index = http_route su 200 inclusion_response_of (send_inclusion_proof h (i, index))"

definition http_consistency_proof ::
    "(log_id \<Rightarrow> string) \<Rightarrow> hasher \<Rightarrow> log_id \<Rightarrow> u64 \<Rightarrow> world \<Rightarrow> (consistency_response http_reply \<times> world) option" where
  "http_consistency_proof su h i first = http_route su 200 consistency_response_of (send_consistency_proof h (i, first))"

definition http_issue_checkpoint ::
    "(log_id \<Rightarrow> string) \<Rightarrow> jiff \<Rightarrow> ed25519_backend \<Rightarrow> hasher \<Rightarrow> configured_key option \<Rightarrow> instant \<Rightarrow> log_id \<Rightarrow> string \<Rightarrow>
      world \<Rightarrow> (checkpoint_response http_reply \<times> world) option" where
  "http_issue_checkpoint su j be h st now i key =
    http_route su 201 (checkpoint_response_of j)
      (send_issue_checkpoint j be h st now \<lparr>ir_log = i, ir_key = key, ir_previous = None\<rparr>)"

section \<open>Startup connection\<close>

text \<open>\<^verbatim>\<open>connect_pool\<close>: \<^verbatim>\<open>try n\<close> is the outcome of the n-th connection attempt; the result
  carries the delays slept between attempts, in units of the clock.\<close>

function connect_loop ::
    "(nat \<Rightarrow> (string, 'p) result) \<Rightarrow> nat \<Rightarrow> nat \<Rightarrow> nat \<Rightarrow> nat list \<Rightarrow> (audit_error, 'p) result \<times> nat list" where
  "connect_loop attempt_fn max_retries backoff attempt slept =
    (case attempt_fn attempt of
       Inr pool \<Rightarrow> (Inr pool, slept)
     | Inl err \<Rightarrow>
         if attempt \<ge> max_retries then (Inl (Storage err), slept)
         else connect_loop attempt_fn max_retries backoff (attempt + 1)
                (slept @ [backoff * 2 ^ min attempt 6]))"
  by pat_completeness auto
termination
  by (relation "measure (\<lambda>(f, m, b, a, s). m - a)") auto

declare connect_loop.simps [simp del]

definition connect_pool ::
    "(nat \<Rightarrow> (string, 'p) result) \<Rightarrow> nat \<Rightarrow> nat \<Rightarrow> (audit_error, 'p) result \<times> nat list" where
  "connect_pool attempt_fn max_retries backoff = connect_loop attempt_fn max_retries backoff 0 []"

section \<open>Transactions\<close>

definition no_unacked :: "outcome list \<Rightarrow> bool" where
  "no_unacked fs \<longleftrightarrow> (\<forall>m. Unacked m \<notin> set fs)"

lemma tx_begin_Inr:
  "tx_begin w = Some (Inr u, w0) \<Longrightarrow> w_slot w = None \<and> w_slot w0 = Some (w_db w) \<and> w_db w0 = w_db w \<and>
    w_appended w0 = w_appended w \<and> w_dropped w0 = w_dropped w \<and> set (w_faults w0) \<subseteq> set (w_faults w)"
  by (auto simp: tx_begin_def dest!: next_fault_frame split: option.splits prod.splits outcome.splits)

lemma tx_begin_Inl:
  "tx_begin w = Some (Inl e, w0) \<Longrightarrow> w_slot w0 = w_slot w \<and> w_db w0 = w_db w \<and>
    w_appended w0 = w_appended w \<and> w_dropped w0 = w_dropped w"
  by (auto simp: tx_begin_def dest!: next_fault_frame split: option.splits prod.splits outcome.splits)

lemma tx_commit_Inr:
  "tx_commit w = Some (Inr u, w') \<Longrightarrow> w_slot w = Some (w_db w') \<and> w_slot w' = None \<and>
    w_appended w' = w_appended w \<and> w_dropped w' = w_dropped w"
  by (auto simp: tx_commit_def dest!: next_fault_frame split: option.splits prod.splits outcome.splits)

lemma next_fault_Unacked: "next_fault w = (Unacked m, w') \<Longrightarrow> Unacked m \<in> set (w_faults w)"
  by (auto simp: next_fault_def split: list.splits)

lemma tx_commit_Inl:
  "tx_commit w = Some (Inl e, w') \<Longrightarrow> w_slot w' = None \<and> w_appended w' = w_appended w \<and>
    w_dropped w' = w_dropped w \<and> (no_unacked (w_faults w) \<longrightarrow> w_db w' = w_db w)"
  using next_fault_Unacked [of "w\<lparr>w_slot := None\<rparr>"]
  by (auto simp: tx_commit_def no_unacked_def dest!: next_fault_frame
      split: option.splits prod.splits outcome.splits)

lemma tx_rollback_frame:
  "tx_rollback w = Some (r, w') \<Longrightarrow> w_slot w' = None \<and> w_db w' = w_db w \<and>
    w_appended w' = w_appended w \<and> w_dropped w' = w_dropped w"
  by (auto simp: tx_rollback_def dest!: next_fault_frame split: option.splits prod.splits outcome.splits)

lemma in_txD:
  "in_tx m \<Longrightarrow> m w = Some (r, w') \<Longrightarrow> w_db w' = w_db w \<and> (w_slot w \<noteq> None \<longrightarrow> w_slot w' \<noteq> None) \<and>
    w_appended w' = w_appended w \<and> w_dropped w' = w_dropped w \<and> set (w_faults w') \<subseteq> set (w_faults w)"
  by (auto simp: in_tx_def)

lemma no_unacked_mono: "no_unacked fs \<Longrightarrow> set gs \<subseteq> set fs \<Longrightarrow> no_unacked gs"
  by (auto simp: no_unacked_def)

lemma transaction_behavior_result:
  assumes run: "transaction_behavior req nxt w = Some (r, w')"
    and tx: "in_tx (nxt req)" and slot: "w_slot w = None"
  shows "w_slot w' = None \<and> w_appended w' = w_appended w \<and> w_dropped w' = w_dropped w \<and>
    (case r of
       Inr v \<Rightarrow> \<exists>w0 w1. w_slot w0 = Some (w_db w) \<and> nxt req w0 = Some (Inr v, w1) \<and> w_slot w1 = Some (w_db w')
     | Inl e \<Rightarrow> no_unacked (w_faults w) \<longrightarrow> w_db w' = w_db w)"
proof -
  from run obtain q w0 where q: "tx_begin w = Some (q, w0)"
    by (auto simp: transaction_behavior_def op_bind_def split: option.splits)
  show ?thesis
  proof (cases q)
    case (Inl e)
    with run q have "r = Inl e" "w' = w0" by (simp_all add: transaction_behavior_def op_bind_def)
    with tx_begin_Inl [OF q [unfolded Inl]] slot show ?thesis by simp
  next
    case (Inr u)
    note b = tx_begin_Inr [OF q [unfolded Inr]]
    from run q Inr obtain z w1 where z: "nxt req w0 = Some (z, w1)"
      by (auto simp: transaction_behavior_def op_bind_def split: option.splits)
    note n = in_txD [OF tx z]
    show ?thesis
    proof (cases z)
      case zl: (Inl e)
      with run q Inr z obtain x w2 where "tx_rollback w1 = Some (x, w2)" "r = Inl e" "w' = w2"
        by (auto simp: transaction_behavior_def op_bind_def split: option.splits)
      with tx_rollback_frame b n show ?thesis by fastforce
    next
      case zr: (Inr v)
      with run q Inr z have c: "op_bind tx_commit (\<lambda>_. op_ok v) w1 = Some (r, w')"
        by (simp add: transaction_behavior_def op_bind_def)
      show ?thesis
      proof (cases r)
        case rl: (Inl e)
        with c have "tx_commit w1 = Some (Inl e, w')" by (simp add: op_bind_Some_Inl)
        moreover have "no_unacked (w_faults w1)" if "no_unacked (w_faults w)"
          using no_unacked_mono [OF that] b n by (meson order_trans)
        ultimately show ?thesis using tx_commit_Inl b n rl by fastforce
      next
        case rr: (Inr y)
        with c have "tx_commit w1 = Some (Inr (), w')" "y = v" by (auto simp: op_bind_Some_Inr)
        with tx_commit_Inr b n z zr rr show ?thesis by fastforce
      qed
    qed
  qed
qed

text \<open>Whatever a transaction reported, the database is as before or as the handler left it.\<close>

lemma tx_commit_db: "tx_commit w = Some (r, w') \<Longrightarrow> w_db w' = w_db w \<or> w_slot w = Some (w_db w')"
  by (auto simp: tx_commit_def dest!: next_fault_frame split: option.splits prod.splits outcome.splits)

lemma transaction_behavior_db:
  assumes run: "transaction_behavior req nxt w = Some (r, w')" and tx: "in_tx (nxt req)"
  shows "w_db w' = w_db w \<or> (\<exists>w0 v w1. w_slot w0 = Some (w_db w) \<and> nxt req w0 = Some (Inr v, w1) \<and> w_slot w1 = Some (w_db w'))"
proof -
  from run obtain q w0 where q: "tx_begin w = Some (q, w0)"
    by (auto simp: transaction_behavior_def op_bind_def split: option.splits)
  show ?thesis
  proof (cases q)
    case (Inl e)
    with run q tx_begin_Inl [OF q [unfolded Inl]] show ?thesis by (auto simp: transaction_behavior_def op_bind_def)
  next
    case (Inr u)
    note b = tx_begin_Inr [OF q [unfolded Inr]]
    from run q Inr obtain z w1 where z: "nxt req w0 = Some (z, w1)"
      by (auto simp: transaction_behavior_def op_bind_def split: option.splits)
    note n = in_txD [OF tx z]
    show ?thesis
    proof (cases z)
      case zl: (Inl e)
      with run q Inr z obtain x where "tx_rollback w1 = Some (x, w')"
        by (auto simp: transaction_behavior_def op_bind_def split: option.splits)
      with tx_rollback_frame b n show ?thesis by fastforce
    next
      case zr: (Inr v)
      with run q Inr z obtain x where "tx_commit w1 = Some (x, w')"
        by (auto simp: transaction_behavior_def op_bind_def split: option.splits sum.splits)
      with tx_commit_db [of w1 x w'] b n z zr show ?thesis by force
    qed
  qed
qed

lemma tx_faults:
  "tx_begin w = Some (r, w') \<Longrightarrow> set (w_faults w') \<subseteq> set (w_faults w)"
  "tx_commit w = Some (r, w') \<Longrightarrow> set (w_faults w') \<subseteq> set (w_faults w)"
  "tx_rollback w = Some (r, w') \<Longrightarrow> set (w_faults w') \<subseteq> set (w_faults w)"
  by (auto simp: tx_begin_def tx_commit_def tx_rollback_def dest!: next_fault_frame
      split: option.splits prod.splits outcome.splits)

lemma transaction_behavior_faults:
  assumes run: "transaction_behavior req nxt w = Some (r, w')" and tx: "in_tx (nxt req)"
  shows "set (w_faults w') \<subseteq> set (w_faults w)"
proof -
  from run obtain q w0 where q: "tx_begin w = Some (q, w0)"
    by (auto simp: transaction_behavior_def op_bind_def split: option.splits)
  note b = tx_faults(1) [OF q]
  show ?thesis
  proof (cases q)
    case (Inl e)
    with run q b show ?thesis by (simp add: transaction_behavior_def op_bind_def)
  next
    case (Inr u)
    with run q obtain z w1 where z: "nxt req w0 = Some (z, w1)"
      by (auto simp: transaction_behavior_def op_bind_def split: option.splits)
    have n: "set (w_faults w1) \<subseteq> set (w_faults w)" using in_txD [OF tx z] b by blast
    have "\<exists>y. tx_commit w1 = Some (y, w') \<or> tx_rollback w1 = Some (y, w')"
      using run q Inr z
      by (cases z) (auto simp: transaction_behavior_def op_bind_def op_ok_def op_lift_def split: option.splits sum.splits)
    with tx_faults(2,3) [of w1] n show ?thesis by blast
  qed
qed

section \<open>Appending through the pipeline\<close>

lemma send_append_record_unfold:
  "send_append_record h req = metrics_behavior req (\<lambda>req. transaction_behavior req (handle_append_record h))"
  by (simp add: send_append_record_def mediator_send_def tracing_behavior_def)

lemma in_tx_handle_append [agate_invs]: "in_tx (handle_append_record h req)"
  by (cases req) (simp add: handle_append_record_def in_tx_bind in_tx_gateway in_tx_lift)

lemma send_append_record_Inr:
  assumes run: "send_append_record h (i, rec) w = Some (Inr k, w')" and slot: "w_slot w = None"
  shows "w_slot w' = None \<and> w_appended w' = Suc (w_appended w) \<and> w_dropped w' = w_dropped w \<and>
    k = word_of_int (next_index (w_db w) i) \<and> next_index (w_db w) i < 2 ^ 63 \<and> find_log (w_db w) i \<noteq> None \<and>
    w_db w' = (w_db w)\<lparr>db_leaves := db_leaves (w_db w) @
      [\<lparr>lf_log = i, lf_index = next_index (w_db w) i, lf_hash = dg_bytes (leaf h rec)\<rparr>]\<rparr>"
proof -
  from run obtain v where v: "transaction_behavior (i, rec) (handle_append_record h) w = Some (Inr k, v)"
    and w': "w' = v\<lparr>w_appended := Suc (w_appended v)\<rparr>"
    by (auto simp: send_append_record_unfold metrics_behavior_def split: option.splits if_splits)
  note t = transaction_behavior_result [OF v in_tx_handle_append slot]
  then obtain w0 w1 where w0: "w_slot w0 = Some (w_db w)"
      "handle_append_record h (i, rec) w0 = Some (Inr k, w1)" "w_slot w1 = Some (w_db v)"
    by auto
  then have "gw_append_record h i rec w0 = Some (Inr (Some k), w1)"
    by (auto simp: handle_append_record_def op_bind_Some_Inr)
  then show ?thesis
    by (rule gw_append_record_Inr) (use t w0 w' in auto)
qed

lemma appended_leaves:
  assumes cont: "\<forall>n. contiguous d n" and bound: "next_index d i < 2 ^ 63"
    and db: "d' = d\<lparr>db_leaves := db_leaves d @ [\<lparr>lf_log = i, lf_index = next_index d i, lf_hash = x\<rparr>]\<rparr>"
  shows "next_index d i = int (length (leaves_of d i)) \<and> length (leaves_of d i) < 2 ^ 63 \<and> leaves_of d' i = leaves_of d i @ [x] \<and>
    (\<forall>n. n \<noteq> i \<longrightarrow> leaves_of d' n = leaves_of d n) \<and> (\<forall>n. contiguous d' n)"
proof -
  have ci: "contiguous d i" using cont by simp
  have ni: "next_index d i = int (length (rows_of d i))" by (rule next_index_contiguous [OF ci])
  let ?r = "\<lparr>lf_log = i, lf_index = next_index d i, lf_hash = x\<rparr>"
  have "leaves_of d' n = leaves_of d n" if "n \<noteq> i" for n
    using that by (simp add: db leaves_of_def rows_of_append_leaf)
  moreover have "leaves_of d' i = leaves_of d i @ [x]"
    unfolding db using leaves_of_append_leaf [OF ci, of ?r] ni by simp
  moreover have "contiguous d' n" for n
    unfolding db using contiguous_append_leaf [OF ci, of ?r n] ni cont by simp
  moreover have "length (leaves_of d i) < 2 ^ 63"
  proof -
    from bound ni have "int (length (rows_of d i)) < 2 ^ 63" by simp
    then show ?thesis by simp
  qed
  ultimately show ?thesis using ni by simp
qed

lemma send_append_record_leaves:
  assumes run: "send_append_record h (i, rec) w = Some (Inr k, w')" and slot: "w_slot w = None"
    and cont: "\<forall>n. contiguous (w_db w) n"
  shows "k = word_of_nat (length (leaves_of (w_db w) i)) \<and> length (leaves_of (w_db w) i) < 2 ^ 63 \<and>
    leaves_of (w_db w') i = leaves_of (w_db w) i @ [dg_bytes (leaf h rec)] \<and>
    (\<forall>n. n \<noteq> i \<longrightarrow> leaves_of (w_db w') n = leaves_of (w_db w) n) \<and> (\<forall>n. contiguous (w_db w') n)"
proof -
  note a = send_append_record_Inr [OF run slot]
  then have "next_index (w_db w) i < 2 ^ 63" "w_db w' = (w_db w)\<lparr>db_leaves := db_leaves (w_db w) @
      [\<lparr>lf_log = i, lf_index = next_index (w_db w) i, lf_hash = dg_bytes (leaf h rec)\<rparr>]\<rparr>" by blast+
  note l = appended_leaves [OF cont this]
  have "k = word_of_int (next_index (w_db w) i)" using a by blast
  then have "k = word_of_nat (length (leaves_of (w_db w) i))" using conjunct1 [OF l] by (simp del: length_leaves_of)
  with l show ?thesis by blast
qed

lemma send_append_record_Inl:
  assumes run: "send_append_record h (i, rec) w = Some (Inl e, w')" and slot: "w_slot w = None"
  shows "w_slot w' = None \<and> w_appended w' = w_appended w \<and> w_dropped w' = Suc (w_dropped w) \<and>
    (no_unacked (w_faults w) \<longrightarrow> w_db w' = w_db w)"
proof -
  from run obtain v where v: "transaction_behavior (i, rec) (handle_append_record h) w = Some (Inl e, v)"
    and w': "w' = v\<lparr>w_dropped := Suc (w_dropped v)\<rparr>"
    by (auto simp: send_append_record_unfold metrics_behavior_def split: option.splits if_splits)
  from transaction_behavior_result [OF v in_tx_handle_append slot] w' show ?thesis by simp
qed

text \<open>A failed append wrote nothing, or the acknowledgement of its commit was lost and it wrote what a successful one writes.\<close>

lemma send_append_record_unacked:
  assumes run: "send_append_record h (i, rec) w = Some (Inl e, w')" and slot: "w_slot w = None" and db: "w_db w' \<noteq> w_db w"
    and cont: "\<forall>n. contiguous (w_db w) n"
  shows "\<not> no_unacked (w_faults w) \<and> db_checkpoints (w_db w') = db_checkpoints (w_db w) \<and>
    length (leaves_of (w_db w) i) < 2 ^ 63 \<and> leaves_of (w_db w') i = leaves_of (w_db w) i @ [dg_bytes (leaf h rec)] \<and>
    (\<forall>n. contiguous (w_db w') n)"
proof -
  from run obtain v where v: "transaction_behavior (i, rec) (handle_append_record h) w = Some (Inl e, v)" and wv: "w_db w' = w_db v"
    by (auto simp: send_append_record_unfold metrics_behavior_def split: option.splits if_splits)
  from transaction_behavior_db [OF v in_tx_handle_append] db wv obtain w0 k w1 where w0: "w_slot w0 = Some (w_db w)"
      "handle_append_record h (i, rec) w0 = Some (Inr k, w1)" "w_slot w1 = Some (w_db w')"
    by auto
  then have "gw_append_record h i rec w0 = Some (Inr (Some k), w1)"
    by (auto simp: handle_append_record_def op_bind_Some_Inr)
  then have d: "next_index (w_db w) i < 2 ^ 63 \<and> w_db w' = (w_db w)\<lparr>db_leaves := db_leaves (w_db w) @
      [\<lparr>lf_log = i, lf_index = next_index (w_db w) i, lf_hash = dg_bytes (leaf h rec)\<rparr>]\<rparr>"
    by (rule gw_append_record_Inr) (use w0 in auto)
  have "db_checkpoints (w_db w') = db_checkpoints (w_db w)" using d by simp
  with appended_leaves [OF cont conjunct1 [OF d] conjunct2 [OF d]] send_append_record_Inl [OF run slot] db show ?thesis by blast
qed

lemma send_append_record_faults:
  assumes "send_append_record h req w = Some (r, w')"
  shows "set (w_faults w') \<subseteq> set (w_faults w)"
proof -
  from assms obtain v where v: "transaction_behavior req (handle_append_record h) w = Some (r, v)"
    and "w_faults w' = w_faults v"
    by (auto simp: send_append_record_unfold metrics_behavior_def split: option.splits if_splits)
  with transaction_behavior_faults [OF v in_tx_handle_append] show ?thesis by simp
qed

definition returns :: "'a op \<Rightarrow> bool" where
  "returns m \<longleftrightarrow> (\<forall>w. m w \<noteq> None)"

lemma returns_bind: "returns m \<Longrightarrow> (\<And>a. returns (f a)) \<Longrightarrow> returns (op_bind m f)"
  unfolding returns_def op_bind_def by (auto split: option.split sum.split)

lemma returns_simps [simp]:
  "returns (tx_stmt msg q)" "returns (op_lift r)" "returns (op_ok a)" "returns tx_begin" "returns tx_commit"
  by (simp_all add: returns_def tx_stmt_def op_lift_def op_ok_def tx_begin_def tx_commit_def)

lemma returns_Some: "returns m \<Longrightarrow> (\<And>r w'. m w = Some (r, w') \<Longrightarrow> P) \<Longrightarrow> P"
  unfolding returns_def by (cases "m w") (blast, force)

lemma transaction_behavior_returns:
  assumes "returns (nxt req)"
  shows "returns (transaction_behavior req nxt)"
  unfolding transaction_behavior_def
proof (rule returns_bind)
  have cm: "returns (op_bind tx_commit (\<lambda>_. op_ok v))" for v by (simp add: returns_bind)
  show "returns (\<lambda>w. case nxt req w of None \<Rightarrow> None
      | Some (Inl e, w1) \<Rightarrow> (case tx_rollback w1 of None \<Rightarrow> None | Some (_, w2) \<Rightarrow> Some (Inl e, w2))
      | Some (Inr v, w1) \<Rightarrow> op_bind tx_commit (\<lambda>_. op_ok v) w1)" for a
    unfolding returns_def
  proof
    fix w
    obtain z w1 where z: "nxt req w = Some (z, w1)" using assms by (rule returns_Some)
    have "returns tx_rollback" by (simp add: returns_def tx_rollback_def)
    then obtain y w2 where y: "tx_rollback w1 = Some (y, w2)" by (rule returns_Some)
    show "(case nxt req w of None \<Rightarrow> None
      | Some (Inl e, w1) \<Rightarrow> (case tx_rollback w1 of None \<Rightarrow> None | Some (_, w2) \<Rightarrow> Some (Inl e, w2))
      | Some (Inr v, w1) \<Rightarrow> op_bind tx_commit (\<lambda>_. op_ok v) w1) \<noteq> None"
      using z y cm [unfolded returns_def, THEN spec, of _ w1] by (cases z) simp_all
  qed
qed simp

lemma send_append_record_returns: "send_append_record h (i, rec) w \<noteq> None"
proof -
  have "returns (gw_append_record h i rec)"
    unfolding gw_append_record_def by (intro returns_bind returns_simps) (auto split: option.split intro!: returns_bind)
  then have "returns (handle_append_record h (i, rec))"
    unfolding handle_append_record_def by (auto intro: returns_bind)
  from transaction_behavior_returns [of "handle_append_record h" "(i, rec)", OF this]
  obtain r w' where "transaction_behavior (i, rec) (handle_append_record h) w = Some (r, w')"
    by (rule returns_Some)
  then show ?thesis by (simp add: send_append_record_unfold metrics_behavior_def)
qed

section \<open>Issuing a checkpoint\<close>

lemma gw_load_Inr:
  assumes "gw_load j h i w = Some (Inr (Some l), w')"
  obtains d r a where "w_slot w = Some d" and "w_slot w' = Some d" and "find_log d i = Some r"
    and "hash_from_code (ucast (lr_algo r)) = Some a" and "tl_id l = i" and "tl_hasher l = h"
    and "tl_leaves l = map (\<lambda>bs. \<lparr>dg_algo = a, dg_bytes = bs\<rparr>) (leaves_of d i)"
    and "jf_from_ms j (lr_created r) = Inr (ts_created (tl_timestamps l))"
    and "jf_from_ms j (lr_updated r) = Inr (ts_updated (tl_timestamps l))"
proof -
  from assms obtain d r where d: "w_slot w = Some d" "find_log d i = Some r"
    by (auto simp: gw_load_def op_bind_Some_Inr tx_stmt_Inr split: option.splits)
  from d(2) have i: "lr_id r = i" by (auto simp: find_log_def find_Some_iff)
  from assms d obtain a w1 where rest: "hash_from_code (ucast (lr_algo r)) = Some a" "w_slot w' = Some d"
      "reconstitute_row j h r (leaves_of d i) a = Inr l"
    by (auto simp: gw_load_def op_bind_Some_Inr tx_stmt_Inr dest!: next_fault_Done split: option.splits)
  from rest(3) i have "tl_id l = i \<and> tl_hasher l = h \<and>
      tl_leaves l = map (\<lambda>bs. \<lparr>dg_algo = a, dg_bytes = bs\<rparr>) (leaves_of d i) \<and>
      jf_from_ms j (lr_created r) = Inr (ts_created (tl_timestamps l)) \<and>
      jf_from_ms j (lr_updated r) = Inr (ts_updated (tl_timestamps l))"
    by (auto simp: reconstitute_row_def Let_def map_err_def timestamp_from_millis_def and_then_def
        timestamps_reconstitute_def factory_reconstitute_def tl_reconstitute_def
        split: sum.splits if_splits)
  with that d rest show thesis by blast
qed

text \<open>Saving leaves whose positions are already taken changes nothing.\<close>

lemma save_leaves_present:
  "save_leaves i k ls w = Some (Inr u, w') \<Longrightarrow> w_slot w = Some d \<Longrightarrow>
    (\<forall>n < length ls. has_leaf d i (int (k + n))) \<Longrightarrow> w_slot w' = Some d"
proof (induction ls arbitrary: k w)
  case (Cons lf ls)
  from Cons.prems(3) have "has_leaf d i (int k)" by force
  with Cons.prems(1,2) obtain w1 where w1: "save_leaves i (Suc k) ls w1 = Some (Inr u, w')" "w_slot w1 = Some d"
    by (auto simp: op_bind_Some_Inr tx_stmt_Inr insert_leaf_ignore_def)
  moreover have "\<forall>n < length ls. has_leaf d i (int (Suc k + n))"
    using Cons.prems(3) by (metis Suc_less_eq add_Suc_shift length_Cons)
  ultimately show ?case by (rule Cons.IH)
qed simp

lemma upsert_log_frame:
  "db_leaves (upsert_log r d) = db_leaves d" "db_checkpoints (upsert_log r d) = db_checkpoints d"
  "leaves_of (upsert_log r d) i = leaves_of d i" "has_leaf (upsert_log r d) i k = has_leaf d i k"
  "rows_of (upsert_log r d) i = rows_of d i"
  by (simp_all add: upsert_log_def leaves_of_def rows_of_def has_leaf_def)

lemma gw_save_loaded:
  assumes "gw_save j l w = Some (Inr u, w')" and "w_slot w = Some d"
    and "contiguous d (tl_id l)" and "length (tl_leaves l) = length (leaves_of d (tl_id l))"
  shows "\<exists>r. w_slot w' = Some (upsert_log r d) \<and> lr_id r = tl_id l"
proof -
  from assms(1,2) have "\<exists>r w1. lr_id r = tl_id l \<and> w_slot w1 = Some (upsert_log r d) \<and>
      save_leaves (tl_id l) 0 (tl_leaves l) w1 = Some (Inr u, w')"
    by (force simp: gw_save_def op_bind_Some_Inr tx_stmt_Inr)
  then obtain r w1 where r: "lr_id r = tl_id l" "w_slot w1 = Some (upsert_log r d)"
      "save_leaves (tl_id l) 0 (tl_leaves l) w1 = Some (Inr u, w')" by blast
  have "has_leaf (upsert_log r d) (tl_id l) (int n)" if "n < length (tl_leaves l)" for n
    using that assms(3,4) by (simp add: upsert_log_frame has_leaf_rows contiguous_def)
  with save_leaves_present [OF r(3,2)] r(1) show ?thesis by auto
qed

definition checkpoint_at :: "db \<Rightarrow> log_id \<Rightarrow> i64 \<Rightarrow> checkpoint_row option" where
  "checkpoint_at d i n = find (\<lambda>q. cr_log q = i \<and> cr_size q = n) (db_checkpoints d)"

lemma find_append_single:
  "find P (xs @ [y]) = (case find P xs of None \<Rightarrow> if P y then Some y else None | Some x \<Rightarrow> Some x)"
  by (induction xs) auto

lemma insert_checkpoint_ignore_at:
  "checkpoint_at (insert_checkpoint_ignore r d) i n =
    (if cr_log r = i \<and> cr_size r = n then
       (case checkpoint_at d i n of None \<Rightarrow> Some r | Some q \<Rightarrow> Some q)
     else checkpoint_at d i n)"
proof (cases "list_ex (\<lambda>q. cr_log q = cr_log r \<and> cr_size q = cr_size r) (db_checkpoints d)")
  case True
  then have "checkpoint_at d (cr_log r) (cr_size r) \<noteq> None"
    by (auto simp: checkpoint_at_def find_None_iff list_ex_iff)
  with True show ?thesis by (auto simp: insert_checkpoint_ignore_def)
next
  case False
  then show ?thesis
    by (auto simp: insert_checkpoint_ignore_def checkpoint_at_def find_append_single split: option.splits)
qed

lemma insert_checkpoint_ignore_frame:
  "db_leaves (insert_checkpoint_ignore r d) = db_leaves d" "db_logs (insert_checkpoint_ignore r d) = db_logs d"
  "leaves_of (insert_checkpoint_ignore r d) i = leaves_of d i"
  "contiguous (insert_checkpoint_ignore r d) i = contiguous d i"
  by (simp_all add: insert_checkpoint_ignore_def leaves_of_def rows_of_def contiguous_def)

lemma in_tx_handle_issue [agate_invs]: "in_tx (handle_issue_checkpoint j be h st now req)"
  unfolding handle_issue_checkpoint_def
  by (intro in_tx_bind in_tx_gateway in_tx_lift)
    (auto simp: Let_def intro!: in_tx_bind in_tx_gateway in_tx_lift split: prod.splits)

text \<open>What the handler does inside the transaction: \<^term>\<open>d\<close> is the transaction's database before,
  \<^term>\<open>d'\<close> after.\<close>

definition checkpoint_effect :: "jiff \<Rightarrow> issue_request \<Rightarrow> signed_tree_head \<Rightarrow> db \<Rightarrow> db \<Rightarrow> bool" where
  "checkpoint_effect j req sth d d' \<longleftrightarrow>
    (let i = ir_log req; n = word_of_nat (length (leaves_of d i)) in
     th_size (sth_head sth) = n \<and>
     (if ir_previous req = Some n then d' = d
      else checkpoint_at d' i n =
             (case checkpoint_at d i n of None \<Rightarrow> Some (checkpoint_row_of j i sth) | Some q \<Rightarrow> Some q) \<and>
           (\<forall>k m. (k, m) \<noteq> (i, n) \<longrightarrow> checkpoint_at d' k m = checkpoint_at d k m) \<and>
           (\<forall>k. leaves_of d' k = leaves_of d k)))"

lemma tl_head_Some: "tl_head l at = Some head \<longleftrightarrow>
    (\<exists>r. merkle_root (tl_hasher l) (tl_leaves l) = Some r \<and> head = \<lparr>th_size = tl_size l, th_root = r, th_at = at\<rparr>)"
  by (auto simp: tl_head_def tl_root_def bind_eq_Some_conv)

lemma checkpoint_sign_head [simp]: "sth_head (checkpoint_sign j be s head) = head"
  by (simp add: checkpoint_sign_def)

lemma handle_issue_checkpoint_effect:
  assumes run: "handle_issue_checkpoint j be h st now req w = Some (Inr sth, w')"
    and d: "w_slot w = Some d" and c: "contiguous d (ir_log req)"
  shows "\<exists>d' a s. w_slot w' = Some d' \<and> checkpoint_effect j req sth d d' \<and>
    (d' = d \<or> (\<exists>r. d' = upsert_log r (insert_checkpoint_ignore (checkpoint_row_of j (ir_log req) sth) d))) \<and>
    keys_signer st (ir_key req) = Inr s \<and> sth = checkpoint_sign j be s (sth_head sth) \<and> th_at (sth_head sth) = now \<and>
    merkle_root h (map (\<lambda>bs. \<lparr>dg_algo = a, dg_bytes = bs\<rparr>) (leaves_of d (ir_log req))) = Some (th_root (sth_head sth))"
proof -
  let ?i = "ir_log req"
  from run obtain l w1 s where load: "gw_load j h ?i w = Some (Inr (Some l), w1)"
    and s: "keys_signer st (ir_key req) = Inr s"
    and rest: "(if ir_previous req = Some (tl_size l) then
        op_bind (op_run (tl_head l now)) (\<lambda>head. op_ok (checkpoint_sign j be s head))
      else
        op_bind (op_run (tl_issue_checkpoint l now)) (\<lambda>(head, l').
          let sth = checkpoint_sign j be s head in
          op_bind (anchor j ?i sth) (\<lambda>_. op_bind (gw_save j l') (\<lambda>_. op_ok sth)))) w1 = Some (Inr sth, w')"
    by (auto simp: handle_issue_checkpoint_def op_bind_Some_Inr)
  from load d obtain a where l: "w_slot w1 = Some d" "tl_id l = ?i" "tl_hasher l = h"
      "tl_leaves l = map (\<lambda>bs. \<lparr>dg_algo = a, dg_bytes = bs\<rparr>) (leaves_of d ?i)"
    by (metis gw_load_Inr option.inject)
  have n: "tl_size l = word_of_nat (length (leaves_of d ?i))" by (simp add: tl_size_def l)
  show ?thesis
  proof (cases "ir_previous req = Some (tl_size l)")
    case True
    with rest l n s show ?thesis
      by (auto simp: op_bind_Some_Inr tl_head_Some checkpoint_effect_def Let_def intro!: exI [of _ a])
  next
    case False
    let ?save = "\<lambda>head. l\<lparr>tl_events := events_record (CheckpointIssued head) (tl_events l)\<rparr>"
    from False rest obtain head w2 where head: "tl_head l now = Some head" "sth = checkpoint_sign j be s head"
      and anc: "anchor j ?i sth w1 = Some (Inr (), w2)" and sv: "gw_save j (?save head) w2 = Some (Inr (), w')"
      by (auto simp: op_bind_Some_Inr tl_issue_checkpoint_def bind_eq_Some_conv Let_def)
    let ?d = "insert_checkpoint_ignore (checkpoint_row_of j ?i sth) d"
    from anc l(1) have "w_slot w2 = Some ?d" by (auto simp: anchor_def tx_stmt_Inr)
    from gw_save_loaded [OF sv this] obtain r where "w_slot w' = Some (upsert_log r ?d)"
      by (auto simp: insert_checkpoint_ignore_frame l(2,4) c)
    moreover have "checkpoint_at (upsert_log r ?d) k m = checkpoint_at ?d k m" for k m
      by (simp add: checkpoint_at_def upsert_log_frame)
    moreover from head n have "cr_log (checkpoint_row_of j ?i sth) = ?i"
        "cr_size (checkpoint_row_of j ?i sth) = word_of_nat (length (leaves_of d ?i))"
      by (auto simp: checkpoint_row_of_def tl_head_Some)
    ultimately show ?thesis using False head l n s
      by (auto simp: checkpoint_effect_def Let_def tl_head_Some insert_checkpoint_ignore_at
          insert_checkpoint_ignore_frame upsert_log_frame intro!: exI [of _ a])
  qed
qed

section \<open>Properties\<close>

text \<open>C9: An append sent through the registered pipeline is all or nothing.  On success
  the returned index is the number of leaves the log had, the leaf hash of the record is
  added at the end of that log and nothing else of the database changes, the indices of every
  log stay gap-free, and the appended counter goes up.  On failure the dropped counter goes
  up and, unless the database applied a commit it reported as failed, the database is as it was.
  The transaction slot is empty again in both cases.\<close>

theorem append_record_all_or_nothing:
  assumes "send_append_record h (i, rec) w = Some (r, w')" and "w_slot w = None"
    and "\<forall>k. contiguous (w_db w) k"
  shows "w_slot w' = None \<and> (\<forall>k. no_unacked (w_faults w) \<longrightarrow> contiguous (w_db w') k) \<and>
    (case r of
       Inr k \<Rightarrow> k = word_of_nat (length (leaves_of (w_db w) i)) \<and> find_log (w_db w) i \<noteq> None \<and>
         leaves_of (w_db w') i = leaves_of (w_db w) i @ [dg_bytes (leaf h rec)] \<and>
         (\<forall>n. n \<noteq> i \<longrightarrow> leaves_of (w_db w') n = leaves_of (w_db w) n) \<and>
         db_logs (w_db w') = db_logs (w_db w) \<and> db_checkpoints (w_db w') = db_checkpoints (w_db w) \<and>
         w_appended w' = Suc (w_appended w) \<and> w_dropped w' = w_dropped w
     | Inl e \<Rightarrow> w_appended w' = w_appended w \<and> w_dropped w' = Suc (w_dropped w) \<and>
         (no_unacked (w_faults w) \<longrightarrow> w_db w' = w_db w))"
proof (cases r)
  case (Inl e)
  with send_append_record_Inl [OF assms(1) [unfolded Inl] assms(2)] assms(3) show ?thesis by auto
next
  case (Inr k)
  with send_append_record_Inr [OF assms(1) [unfolded Inr] assms(2)]
    send_append_record_leaves [OF assms(1) [unfolded Inr] assms(2,3)] show ?thesis by simp
qed

definition demo_db :: db where
  "demo_db = \<lparr>db_logs = [\<lparr>lr_id = 7, lr_created = 0, lr_updated = 0, lr_algo = 1\<rparr>], db_leaves = [], db_checkpoints = []\<rparr>"

definition demo_world :: "outcome list \<Rightarrow> world" where
  "demo_world fs = \<lparr>w_db = demo_db, w_slot = None, w_faults = fs, w_appended = 0, w_dropped = 0\<rparr>"

lemma demo_contiguous: "contiguous (w_db (demo_world fs)) k"
  by (simp add: demo_world_def demo_db_def contiguous_def rows_of_def)

lemma demo_world_simps [simp]: "w_slot (demo_world fs) = None" "w_faults (demo_world fs) = fs"
    "w_db (demo_world fs) = demo_db" "leaves_of demo_db i = []"
  by (simp_all add: demo_world_def demo_db_def leaves_of_def rows_of_def)

lemmas demo_run = send_append_record_unfold metrics_behavior_def transaction_behavior_def op_bind_def
  tx_begin_def next_fault_def handle_append_record_def gw_append_record_def tx_stmt_def
  demo_world_def demo_db_def find_log_def next_index_def rows_of_def insert_leaf_def has_leaf_def
  and_then_def ok_or_def op_ok_def op_lift_def tx_commit_def tx_rollback_def

lemma demo_append_done:
  "\<exists>w'. send_append_record demo_hasher (7, [5]) (demo_world []) = Some (Inr 0, w')"
  by (simp add: demo_run)

lemma demo_append_failed:
  "\<exists>w'. send_append_record demo_hasher (7, [5]) (demo_world [Done, Done, Done, Failed ''disk full'']) =
    Some (Inl (Storage ''disk full''), w')"
  by (simp add: demo_run)

theorem append_record_all_or_nothing_witness:
  "(\<exists>w'. send_append_record demo_hasher (7, [5]) (demo_world []) = Some (Inr 0, w') \<and>
      leaves_of (w_db w') 7 = [dg_bytes (leaf demo_hasher [5])]) \<and>
   (\<exists>e w'. send_append_record demo_hasher (7, [5]) (demo_world [Done, Done, Done, Failed ''disk full'']) =
      Some (Inl e, w') \<and> w_db w' = demo_db)"
proof (rule conjI)
  obtain w' where w': "send_append_record demo_hasher (7, [5]) (demo_world []) = Some (Inr 0, w')"
    using demo_append_done by blast
  from append_record_all_or_nothing [OF this] w' show "\<exists>w'. send_append_record demo_hasher (7, [5]) (demo_world []) =
      Some (Inr 0, w') \<and> leaves_of (w_db w') 7 = [dg_bytes (leaf demo_hasher [5])]"
    using demo_contiguous [of "[]"] by auto
  obtain v' where v': "send_append_record demo_hasher (7, [5]) (demo_world [Done, Done, Done, Failed ''disk full'']) =
      Some (Inl (Storage ''disk full''), v')"
    using demo_append_failed by blast
  from append_record_all_or_nothing [OF this] v' show "\<exists>e w'. send_append_record demo_hasher (7, [5])
      (demo_world [Done, Done, Done, Failed ''disk full'']) = Some (Inl e, w') \<and> w_db w' = demo_db"
    using demo_contiguous [of "[]"] by (auto simp: no_unacked_def)
qed

lemma pool_read_idle: "w_faults w = [] \<Longrightarrow> pool_read q w = Some (Inr (q (w_db w)), w)"
  by (simp add: pool_read_def next_fault_def)

lemma send_proof_unfold:
  "send_inclusion_proof h (i, k) = qg_inclusion_proof h i k"
  "send_consistency_proof h (i, k) = qg_consistency_proof h i k"
  by (simp_all add: send_inclusion_proof_def send_consistency_proof_def mediator_send_def tracing_behavior_def
      handle_inclusion_proof_def handle_consistency_proof_def)

lemma op_bind_idle: "m w = Some (Inr a, w') \<Longrightarrow> op_bind m f w = f a w'"
  by (simp add: op_bind_def)

lemma qg_leaves_idle: "w_faults w = [] \<Longrightarrow> qg_leaves h i w = Some (Inr (digests_of h (w_db w) i), w)"
  by (simp add: qg_leaves_def op_bind_idle [OF pool_read_idle] digests_of_def)

lemma qg_inclusion_proof_idle:
  assumes "w_faults w = []" and "find_log (w_db w) i \<noteq> None"
    and "length (leaves_of (w_db w) i) \<le> 2 ^ 63" and "k < length (leaves_of (w_db w) i)"
  shows "qg_inclusion_proof h i (word_of_nat k) w = Some (Inr
    \<lparr>iv_proof = \<lparr>ip_leaf_index = word_of_nat k, ip_tree_size = word_of_nat (length (leaves_of (w_db w) i)),
        ip_path = spec_path h k (digests_of h (w_db w) i)\<rparr>,
     iv_leaf_hash = digests_of h (w_db w) i ! k, iv_root = mth h (digests_of h (w_db w) i)\<rparr>, w)"
proof -
  let ?ds = "digests_of h (w_db w) i"
  have len: "length ?ds = length (leaves_of (w_db w) i)" by (simp add: digests_of_def)
  have ds: "length ?ds \<le> 2 ^ 63" "k < length ?ds" using assms(3,4) unfolding len by simp_all
  have "unat (word_of_nat k :: 64 word) = k"
    using ds(2) le_2_63_less [OF ds(1)] by (intro unat_word_of_nat64) linarith
  with assms(1,2) show ?thesis
    unfolding qg_inclusion_proof_def
    by (simp add: pool_read_idle qg_leaves_idle op_bind_def op_run_def
        inclusion_eq [OF ds] merkle_root_eq [OF ds(1)] ok_or_def len)
qed

text \<open>A record whose append succeeded can be proved to anybody: with the database answering,
  the inclusion-proof query for the returned index gives a view whose leaf hash is
  the record's and whose proof \<^verbatim>\<open>verify_inclusion\<close> accepts against the root of the log.\<close>

lemma appended_record_is_provable:
  assumes "send_append_record h (i, rec) w = Some (Inr k, w')" and "w_slot w = None"
    and "contiguous (w_db w) i" and "w_faults w' = []" and "length (leaves_of (w_db w) i) < 2 ^ 63"
  shows "\<exists>v. send_inclusion_proof h (i, k) w' = Some (Inr v, w') \<and> iv_leaf_hash v = leaf h rec \<and>
    merkle_root h (digests_of h (w_db w') i) = Some (iv_root v) \<and>
    verify_inclusion h (iv_proof v) (iv_leaf_hash v) (iv_root v) = Some True"
proof -
  note a = send_append_record_Inr [OF assms(1,2)]
  have ni: "next_index (w_db w) i = int (length (rows_of (w_db w) i))" by (rule next_index_contiguous [OF assms(3)])
  let ?n = "length (leaves_of (w_db w) i)"
  let ?ds = "digests_of h (w_db w') i"
  have k: "k = word_of_nat ?n" using a ni by simp
  have lv: "leaves_of (w_db w') i = leaves_of (w_db w) i @ [dg_bytes (leaf h rec)]"
    using a ni leaves_of_append_leaf [OF assms(3)] by simp
  have ln: "length (leaves_of (w_db w') i) = Suc ?n" unfolding lv by simp
  have ds: "length (leaves_of (w_db w') i) \<le> 2 ^ 63" "?n < length (leaves_of (w_db w') i)"
    using assms(5) unfolding ln by simp_all
  have dds: "length ?ds \<le> 2 ^ 63" "?n < length ?ds" using ds by (simp_all add: digests_of_def)
  have fl: "find_log (w_db w') i \<noteq> None" using a by (simp add: find_log_def)
  have lf: "?ds ! ?n = leaf h rec" by (simp add: digests_of_def lv nth_append leaf_digest del: length_leaves_of)
  have len: "length ?ds = length (leaves_of (w_db w') i)" by (simp add: digests_of_def)
  show ?thesis
    unfolding send_proof_unfold k qg_inclusion_proof_idle [OF assms(4) fl ds, of h]
    using verify_generated_inclusion [OF dds, of h] lf merkle_root_eq [OF dds(1), of h] by (simp add: len)
qed

lemma send_issue_checkpoint_unfold:
  "send_issue_checkpoint j be h st now req = transaction_behavior req (handle_issue_checkpoint j be h st now)"
  by (simp add: send_issue_checkpoint_def mediator_send_def tracing_behavior_def)

lemma send_issue_checkpoint_Inl:
  assumes "send_issue_checkpoint j be h st now req w = Some (Inl e, w')" and "w_slot w = None"
  shows "w_slot w' = None \<and> w_appended w' = w_appended w \<and> w_dropped w' = w_dropped w \<and>
    (no_unacked (w_faults w) \<longrightarrow> w_db w' = w_db w)"
  using transaction_behavior_result [OF assms(1) [unfolded send_issue_checkpoint_unfold] in_tx_handle_issue assms(2)]
  by simp

lemma send_issue_checkpoint_Inr:
  assumes "send_issue_checkpoint j be h st now req w = Some (Inr sth, w')" and "w_slot w = None"
    and "contiguous (w_db w) (ir_log req)"
  shows "\<exists>a s. w_slot w' = None \<and> w_appended w' = w_appended w \<and> w_dropped w' = w_dropped w \<and>
    checkpoint_effect j req sth (w_db w) (w_db w') \<and>
    (w_db w' = w_db w \<or>
      (\<exists>r. w_db w' = upsert_log r (insert_checkpoint_ignore (checkpoint_row_of j (ir_log req) sth) (w_db w)))) \<and>
    keys_signer st (ir_key req) = Inr s \<and> sth = checkpoint_sign j be s (sth_head sth) \<and> th_at (sth_head sth) = now \<and>
    merkle_root h (map (\<lambda>bs. \<lparr>dg_algo = a, dg_bytes = bs\<rparr>) (leaves_of (w_db w) (ir_log req))) = Some (th_root (sth_head sth))"
proof -
  note t = transaction_behavior_result [OF assms(1) [unfolded send_issue_checkpoint_unfold] in_tx_handle_issue assms(2)]
  then obtain w0 w1 where w0: "w_slot w0 = Some (w_db w)" "w_slot w1 = Some (w_db w')"
      "handle_issue_checkpoint j be h st now req w0 = Some (Inr sth, w1)" by auto
  from handle_issue_checkpoint_effect [OF w0(3,1) assms(3)] w0(2) t show ?thesis by auto
qed

lemma send_issue_checkpoint_db:
  assumes "send_issue_checkpoint j be h st now req w = Some (r, w')" and "contiguous (w_db w) (ir_log req)" and "w_db w' \<noteq> w_db w"
  shows "\<exists>sth a. checkpoint_effect j req sth (w_db w) (w_db w') \<and>
    (\<exists>r. w_db w' = upsert_log r (insert_checkpoint_ignore (checkpoint_row_of j (ir_log req) sth) (w_db w))) \<and>
    merkle_root h (map (\<lambda>bs. \<lparr>dg_algo = a, dg_bytes = bs\<rparr>) (leaves_of (w_db w) (ir_log req))) = Some (th_root (sth_head sth))"
proof -
  from transaction_behavior_db [OF assms(1) [unfolded send_issue_checkpoint_unfold] in_tx_handle_issue] assms(3) obtain w0 sth w1 where
    w0: "w_slot w0 = Some (w_db w)" "handle_issue_checkpoint j be h st now req w0 = Some (Inr sth, w1)" "w_slot w1 = Some (w_db w')" by auto
  from handle_issue_checkpoint_effect [OF w0(2,1) assms(2)] w0(3) assms(3) show ?thesis by auto
qed

text \<open>C25: Issuing a checkpoint through the pipeline either fails and leaves the database as it was, unless the
  database applied a commit it reported as failed, when it did what a successful one does; or it returns a
  head over all leaves the log has, signed by the requested key, whose root is the
  Merkle root of the stored leaves.  When the caller's last size is the current one the database is
  untouched; otherwise the head is anchored under (log, size), where an earlier anchor wins, no other
  anchor changes and no log's leaves change.\<close>

theorem issue_checkpoint_effect:
  assumes "send_issue_checkpoint j be h st now req w = Some (r, w')" and "w_slot w = None"
    and "contiguous (w_db w) (ir_log req)"
  shows "w_slot w' = None \<and>
    (case r of
       Inl e \<Rightarrow> w_db w' = w_db w \<or> \<not> no_unacked (w_faults w) \<and> (\<exists>sth. checkpoint_effect j req sth (w_db w) (w_db w'))
     | Inr sth \<Rightarrow> checkpoint_effect j req sth (w_db w) (w_db w') \<and>
         (\<exists>s. keys_signer st (ir_key req) = Inr s \<and> sth = checkpoint_sign j be s (sth_head sth)) \<and>
         th_at (sth_head sth) = now \<and>
         (\<exists>a. merkle_root h (map (\<lambda>bs. \<lparr>dg_algo = a, dg_bytes = bs\<rparr>) (leaves_of (w_db w) (ir_log req))) =
           Some (th_root (sth_head sth))))"
proof (cases r)
  case (Inl e)
  with send_issue_checkpoint_Inl [OF assms(1) [unfolded Inl] assms(2)] send_issue_checkpoint_db [OF assms(1,3)] show ?thesis by auto
next
  case (Inr sth)
  with send_issue_checkpoint_Inr [OF assms(1) [unfolded Inr] assms(2,3)] show ?thesis by auto
qed

lemmas issue_run = send_issue_checkpoint_def mediator_send_def tracing_behavior_def transaction_behavior_def
  op_bind_def tx_begin_def next_fault_def tx_stmt_def tx_commit_def handle_issue_checkpoint_def gw_load_def
  find_log_def ok_or_def op_ok_def op_lift_def op_run_def reconstitute_row_def map_err_def and_then_def
  timestamp_from_millis_def timestamps_reconstitute_def factory_reconstitute_def tl_reconstitute_def
  keys_signer_def keys_lookup_def tl_size_def tl_issue_checkpoint_def tl_head_def tl_root_def
  anchor_def gw_save_def demo_world_def demo_db_def demo_jiff_def leaves_of_def rows_of_def

lemma demo_issue:
  "\<exists>sth w'. send_issue_checkpoint demo_jiff demo_ed25519 demo_hasher (keys_from_seed demo_ed25519 ''k'' (replicate 32 7)) 5
    \<lparr>ir_log = 7, ir_key = ''k'', ir_previous = None\<rparr> (demo_world []) = Some (Inr sth, w')"
  by (simp add: issue_run keys_from_seed_def verifier_from_public_def demo_ed25519_def hash_from_code_def
      merkle_root_eq Let_def insert_checkpoint_ignore_def upsert_log_def tl_algo_def)

theorem issue_checkpoint_effect_witness:
  "\<exists>sth w'. send_issue_checkpoint demo_jiff demo_ed25519 demo_hasher
      (keys_from_seed demo_ed25519 ''k'' (replicate 32 7)) 5
      \<lparr>ir_log = 7, ir_key = ''k'', ir_previous = None\<rparr> (demo_world []) = Some (Inr sth, w') \<and>
    checkpoint_at (w_db w') 7 0 = Some (checkpoint_row_of demo_jiff 7 sth)"
proof -
  obtain sth w' where run: "send_issue_checkpoint demo_jiff demo_ed25519 demo_hasher
      (keys_from_seed demo_ed25519 ''k'' (replicate 32 7)) 5
      \<lparr>ir_log = 7, ir_key = ''k'', ir_previous = None\<rparr> (demo_world []) = Some (Inr sth, w')"
    using demo_issue by blast
  from issue_checkpoint_effect [OF run] demo_contiguous [of "[]"]
  have "checkpoint_effect demo_jiff \<lparr>ir_log = 7, ir_key = ''k'', ir_previous = None\<rparr> sth demo_db (w_db w')"
    by simp
  then have "checkpoint_at (w_db w') 7 0 = Some (checkpoint_row_of demo_jiff 7 sth)"
    by (simp add: checkpoint_effect_def Let_def) (simp add: checkpoint_at_def demo_db_def)
  with run show ?thesis by blast
qed

lemma connect_loop_outcome:
  assumes "connect_loop f m b a (map (\<lambda>n. b * 2 ^ min n 6) [0..<a]) = (r, slept)" and "a \<le> m"
  shows "slept = map (\<lambda>n. b * 2 ^ min n 6) [0..<length slept] \<and> length slept \<le> m \<and> a \<le> length slept \<and>
    (\<forall>n \<in> {a..<length slept}. \<not> is_ok (f n)) \<and>
    (case f (length slept) of Inr p \<Rightarrow> r = Inr p | Inl e \<Rightarrow> r = Inl (Storage e) \<and> length slept = m)"
  using assms
proof (induction "m - a" arbitrary: a)
  case 0
  then show ?case using connect_loop.simps [of f m b a] by (auto split: sum.splits)
next
  case (Suc n)
  show ?case
  proof (cases "f a")
    case (Inr p)
    with Suc.prems show ?thesis using connect_loop.simps [of f m b a] by auto
  next
    case (Inl e)
    with Suc.hyps(2) Suc.prems(1)
    have "connect_loop f m b (Suc a) (map (\<lambda>n. b * 2 ^ min n 6) [0..<Suc a]) = (r, slept)"
      using connect_loop.simps [of f m b a] by (simp split: if_splits)
    from Suc.hyps(1) [OF _ this] Suc.hyps(2) have
      *: "slept = map (\<lambda>n. b * 2 ^ min n 6) [0..<length slept]" "length slept \<le> m" "Suc a \<le> length slept"
        "\<forall>n \<in> {Suc a..<length slept}. \<not> is_ok (f n)"
        "case f (length slept) of Inr p \<Rightarrow> r = Inr p | Inl e \<Rightarrow> r = Inl (Storage e) \<and> length slept = m"
      by simp_all
    have "\<not> is_ok (f n)" if "n \<in> {a..<length slept}" for n
      using that *(4) Inl by (cases "n = a") auto
    with * show ?thesis by auto
  qed
qed

text \<open>Connecting at startup always ends: the pool of the first attempt that works is returned, or
  the error of attempt \<^verbatim>\<open>max_retries\<close> (counted from 0) when none up to it does.  The n-th
  pause is the configured backoff times two to the n, at most 64 times it.\<close>

lemma connect_pool_outcome:
  assumes "connect_pool f m b = (r, slept)"
  shows "slept = map (\<lambda>n. b * 2 ^ min n 6) [0..<length slept] \<and> length slept \<le> m \<and>
    (\<forall>n < length slept. \<not> is_ok (f n)) \<and> (\<forall>n < length slept. slept ! n \<le> 64 * b) \<and>
    (case f (length slept) of
       Inr p \<Rightarrow> r = Inr p
     | Inl e \<Rightarrow> r = Inl (Storage e) \<and> length slept = m)"
proof -
  have *: "slept = map (\<lambda>n. b * 2 ^ min n 6) [0..<length slept]" "length slept \<le> m"
      "\<forall>n \<in> {0..<length slept}. \<not> is_ok (f n)"
      "case f (length slept) of Inr p \<Rightarrow> r = Inr p | Inl e \<Rightarrow> r = Inl (Storage e) \<and> length slept = m"
    using connect_loop_outcome [of f m b 0 r slept] assms by (simp_all add: connect_pool_def)
  have "slept ! n \<le> 64 * b" if "n < length slept" for n
  proof -
    have "(2 :: nat) ^ min n 6 \<le> 2 ^ 6" by (rule power_increasing) simp_all
    moreover have "slept ! n = b * 2 ^ min n 6" using that by (subst *(1)) simp
    ultimately show ?thesis by simp
  qed
  with * show ?thesis by simp
qed

end
