(* ===== verification/Audit_Registry.thy ===== *)
theory Audit_Registry
  imports Audit_App
begin

text \<open>
  The routing table of the audit crate (\<^verbatim>\<open>application/common/messaging\<close>, \<^verbatim>\<open>setup/ioc\<close>): which handler and which
  behaviors a request type is registered with, how a dispatcher resolves them from the container of a request scope
  and runs the pipeline, and what closing the scope does.  The keys are the types of requests, handlers and
  behaviors, here as data.  A failed \<^verbatim>\<open>expect\<close> is an error with its message.  The container holds, for
  one request type, what its providers build.
\<close>

section \<open>Registry\<close>

datatype request_type = RT_CreateLog | RT_AppendRecord | RT_GetInclusionProof | RT_GetConsistencyProof | RT_IssueCheckpoint

datatype handler_type = HT_CreateLog | HT_AppendRecord | HT_GetInclusionProof | HT_GetConsistencyProof | HT_IssueCheckpoint

datatype behavior_type = BT_Tracing | BT_Metrics | BT_Transaction

record request_entry =
  en_handler :: "handler_type option"
  en_behaviors :: "behavior_type list"

definition request_entry_default :: request_entry where
  "request_entry_default = \<lparr>en_handler = None, en_behaviors = []\<rparr>"

type_synonym registry = "request_type \<rightharpoonup> request_entry"

definition registry_new :: registry where
  "registry_new = Map.empty"

definition registry_entry :: "registry \<Rightarrow> request_type \<Rightarrow> request_entry" where
  "registry_entry reg t = (case reg t of None \<Rightarrow> request_entry_default | Some e \<Rightarrow> e)"

definition registry_handler :: "request_type \<Rightarrow> handler_type \<Rightarrow> registry \<Rightarrow> registry" where
  "registry_handler t h reg = reg(t \<mapsto> (registry_entry reg t)\<lparr>en_handler := Some h\<rparr>)"

definition registry_behavior :: "request_type \<Rightarrow> behavior_type \<Rightarrow> registry \<Rightarrow> registry" where
  "registry_behavior t b reg =
    (let e = registry_entry reg t in reg(t \<mapsto> e\<lparr>en_behaviors := en_behaviors e @ [b]\<rparr>))"

text \<open>What the container of a request scope resolves for one request type.\<close>

record ('r, 'a) container =
  ct_handler :: "handler_type \<Rightarrow> ('r, 'a) handler option"
  ct_behavior :: "behavior_type \<Rightarrow> ('r, 'a) behavior option"

definition resolve_handler :: "registry \<Rightarrow> request_type \<Rightarrow> ('r, 'a) container \<Rightarrow> (string, ('r, 'a) handler option) result" where
  "resolve_handler reg t ct =
    (case Option.bind (reg t) en_handler of
       None \<Rightarrow> Inr None
     | Some h \<Rightarrow> and_then (ok_or ''handler not registered in the container'' (ct_handler ct h)) (\<lambda>x. Inr (Some x)))"

definition resolve_behaviors :: "registry \<Rightarrow> request_type \<Rightarrow> ('r, 'a) container \<Rightarrow> (string, ('r, 'a) behavior list) result" where
  "resolve_behaviors reg t ct =
    (case reg t of
       None \<Rightarrow> Inr []
     | Some e \<Rightarrow> collect (\<lambda>b. ok_or ''behavior not registered in the container'' (ct_behavior ct b)) (en_behaviors e))"

definition dispatcher_send :: "registry \<Rightarrow> request_type \<Rightarrow> ('r, 'a) container \<Rightarrow> (string, ('r, 'a) handler) result" where
  "dispatcher_send reg t ct =
    and_then (resolve_handler reg t ct) (\<lambda>x.
    and_then (ok_or ''no handler registered for this request type'' x) (\<lambda>h.
    and_then (resolve_behaviors reg t ct) (\<lambda>bs. Inr (mediator_send h bs))))"

section \<open>The audit routes\<close>

definition build_registry :: registry where
  "build_registry =
    (let reg = registry_new;
         reg = registry_handler RT_CreateLog HT_CreateLog reg;
         reg = registry_handler RT_AppendRecord HT_AppendRecord reg;
         reg = registry_handler RT_GetInclusionProof HT_GetInclusionProof reg;
         reg = registry_handler RT_GetConsistencyProof HT_GetConsistencyProof reg;
         reg = registry_handler RT_IssueCheckpoint HT_IssueCheckpoint reg;
         reg = registry_behavior RT_CreateLog BT_Tracing reg;
         reg = registry_behavior RT_AppendRecord BT_Tracing reg;
         reg = registry_behavior RT_GetInclusionProof BT_Tracing reg;
         reg = registry_behavior RT_GetConsistencyProof BT_Tracing reg;
         reg = registry_behavior RT_IssueCheckpoint BT_Tracing reg;
         reg = registry_behavior RT_CreateLog BT_Transaction reg;
         reg = registry_behavior RT_IssueCheckpoint BT_Transaction reg;
         reg = registry_behavior RT_AppendRecord BT_Metrics reg;
         reg = registry_behavior RT_AppendRecord BT_Transaction reg in
     reg)"

section \<open>Providers\<close>

definition provide_behavior :: "behavior_type \<Rightarrow> ('r, 'a) behavior option" where
  "provide_behavior b =
    (case b of
       BT_Tracing \<Rightarrow> Some tracing_behavior
     | BT_Metrics \<Rightarrow> Some metrics_behavior
     | BT_Transaction \<Rightarrow> Some transaction_behavior)"

definition provide_create_log :: "jiff \<Rightarrow> hasher \<Rightarrow> log_id \<Rightarrow> instant \<Rightarrow> (unit, log_id) container" where
  "provide_create_log j h new_id now =
    \<lparr>ct_handler = [HT_CreateLog \<mapsto> handle_create_log j h new_id now], ct_behavior = provide_behavior\<rparr>"

definition provide_append_record :: "hasher \<Rightarrow> (log_id \<times> bytes, u64) container" where
  "provide_append_record h = \<lparr>ct_handler = [HT_AppendRecord \<mapsto> handle_append_record h], ct_behavior = provide_behavior\<rparr>"

definition provide_issue_checkpoint ::
    "jiff \<Rightarrow> ed25519_backend \<Rightarrow> hasher \<Rightarrow> configured_key option \<Rightarrow> instant \<Rightarrow> (issue_request, signed_tree_head) container" where
  "provide_issue_checkpoint j be h st now =
    \<lparr>ct_handler = [HT_IssueCheckpoint \<mapsto> handle_issue_checkpoint j be h st now], ct_behavior = provide_behavior\<rparr>"

definition provide_inclusion_proof :: "hasher \<Rightarrow> (log_id \<times> u64, inclusion_view) container" where
  "provide_inclusion_proof h =
    \<lparr>ct_handler = [HT_GetInclusionProof \<mapsto> handle_inclusion_proof h], ct_behavior = provide_behavior\<rparr>"

definition provide_consistency_proof :: "hasher \<Rightarrow> (log_id \<times> u64, consistency_view) container" where
  "provide_consistency_proof h =
    \<lparr>ct_handler = [HT_GetConsistencyProof \<mapsto> handle_consistency_proof h], ct_behavior = provide_behavior\<rparr>"

text \<open>The finalizer of a request scope rolls back what was left open.\<close>

definition scope_close :: "world \<Rightarrow> world" where
  "scope_close w = (case tx_rollback w of None \<Rightarrow> w | Some (_, w') \<Rightarrow> w')"

section \<open>Registering\<close>

lemma scope_close_idle [simp]: "w_slot w = None \<Longrightarrow> scope_close w = w"
  by (simp add: scope_close_def tx_rollback_def)

lemma scope_close_keeps: "w_slot (scope_close w) = None" "w_db (scope_close w) = w_db w"
  by (auto simp: scope_close_def tx_rollback_def next_fault_def split: option.splits list.splits outcome.splits)

text \<open>Registering for one request type leaves the routes of the others alone, a handler replaces the
  one before it, and a behavior goes to the end of the pipeline.\<close>

lemma registry_entry_handler [simp]:
  "registry_entry (registry_handler t h reg) t' =
    (if t' = t then (registry_entry reg t)\<lparr>en_handler := Some h\<rparr> else registry_entry reg t')"
  by (simp add: registry_entry_def registry_handler_def)

lemma registry_entry_behavior [simp]:
  "registry_entry (registry_behavior t b reg) t' =
    (if t' = t then (registry_entry reg t)\<lparr>en_behaviors := en_behaviors (registry_entry reg t) @ [b]\<rparr>
     else registry_entry reg t')"
  by (simp add: registry_entry_def registry_behavior_def Let_def)

lemma registry_entry_new [simp]: "registry_entry registry_new t = request_entry_default"
  by (simp add: registry_entry_def registry_new_def)

text \<open>Sending looks at nothing but the entry of the request type.\<close>

lemma dispatcher_send_entry:
  "dispatcher_send reg t ct =
    and_then (ok_or ''no handler registered for this request type'' (en_handler (registry_entry reg t))) (\<lambda>h.
    and_then (ok_or ''handler not registered in the container'' (ct_handler ct h)) (\<lambda>x.
    and_then (collect (\<lambda>b. ok_or ''behavior not registered in the container'' (ct_behavior ct b))
      (en_behaviors (registry_entry reg t))) (\<lambda>bs. Inr (mediator_send x bs))))"
  by (cases "reg t"; cases "en_handler (registry_entry reg t)"; cases "ct_handler ct (the (en_handler (registry_entry reg t)))")
    (simp_all add: dispatcher_send_def resolve_handler_def resolve_behaviors_def registry_entry_def
      request_entry_default_def)

lemma build_registry_entry:
  "registry_entry build_registry t =
    (case t of
       RT_CreateLog \<Rightarrow> \<lparr>en_handler = Some HT_CreateLog, en_behaviors = [BT_Tracing, BT_Transaction]\<rparr>
     | RT_AppendRecord \<Rightarrow> \<lparr>en_handler = Some HT_AppendRecord, en_behaviors = [BT_Tracing, BT_Metrics, BT_Transaction]\<rparr>
     | RT_GetInclusionProof \<Rightarrow> \<lparr>en_handler = Some HT_GetInclusionProof, en_behaviors = [BT_Tracing]\<rparr>
     | RT_GetConsistencyProof \<Rightarrow> \<lparr>en_handler = Some HT_GetConsistencyProof, en_behaviors = [BT_Tracing]\<rparr>
     | RT_IssueCheckpoint \<Rightarrow> \<lparr>en_handler = Some HT_IssueCheckpoint, en_behaviors = [BT_Tracing, BT_Transaction]\<rparr>)"
  by (cases t) (simp_all add: build_registry_def Let_def request_entry_default_def)

lemma provide_behavior_simps [simp]:
  "provide_behavior BT_Tracing = Some tracing_behavior" "provide_behavior BT_Metrics = Some metrics_behavior"
  "provide_behavior BT_Transaction = Some transaction_behavior"
  by (simp_all add: provide_behavior_def)

text \<open>The routing table sends every request through the pipeline written for it: whatever the arguments of the
  handlers, looking the five request types up in the registry and resolving what was found never fails and gives
  exactly the five pipelines that the other properties of the audit service are about.\<close>

lemma registry_routes_every_request:
  "dispatcher_send build_registry RT_CreateLog (provide_create_log j h new_id now) = Inr (send_create_log j h new_id now) \<and>
   dispatcher_send build_registry RT_AppendRecord (provide_append_record h) = Inr (send_append_record h) \<and>
   dispatcher_send build_registry RT_IssueCheckpoint (provide_issue_checkpoint j be h st now) =
     Inr (send_issue_checkpoint j be h st now) \<and>
   dispatcher_send build_registry RT_GetInclusionProof (provide_inclusion_proof h) = Inr (send_inclusion_proof h) \<and>
   dispatcher_send build_registry RT_GetConsistencyProof (provide_consistency_proof h) = Inr (send_consistency_proof h)"
  unfolding dispatcher_send_entry build_registry_entry
  by (simp add: provide_create_log_def provide_append_record_def provide_issue_checkpoint_def provide_inclusion_proof_def
      provide_consistency_proof_def send_create_log_def send_append_record_def send_issue_checkpoint_def
      send_inclusion_proof_def send_consistency_proof_def)

end
