(* ===== verification/Audit_Bridge.thy ===== *)
theory Audit_Bridge
  imports Audit_Registry Stream_Proxy
begin

text \<open>
  The bridge from the proxy to the transparency log (\<^verbatim>\<open>crates/agate-server/src/infrastructure/audit\<close>
  and the scoped adapters of \<^verbatim>\<open>setup/bootstrap\<close>): the record of one inspected event, the sink that
  enqueues it, the outbox that drains the queue into the log, and the checkpoint scheduler.  The channel
  between sink and outbox is the parameter \<^verbatim>\<open>mp\<close>; \<^verbatim>\<open>mpsc_laws\<close> says what is relied on.  The
  appender and the issuer are ports, fields of the outbox and of the scheduler, and are instantiated
  with the dispatch of the audit commands in a request scope.
\<close>

section \<open>The record of an event\<close>

fun verdict_label :: "agent_event verdict \<Rightarrow> string" where
  "verdict_label V_Allow = ''allow''"
| "verdict_label (V_Deny _) = ''deny''"
| "verdict_label (V_Transform _) = ''transform''"
| "verdict_label V_Buffer = ''buffer''"
| "verdict_label (V_Terminate _) = ''terminate''"

text \<open>\<^verbatim>\<open>usize\<close> and \<^verbatim>\<open>Option<String>\<close> as JSON.\<close>

abbreviation json_usize :: "nat \<Rightarrow> json" where
  "json_usize n \<equiv> JNumber (PosInt (word_of_nat n))"

abbreviation json_option :: "string option \<Rightarrow> json" where
  "json_option x \<equiv> (case x of None \<Rightarrow> JNull | Some s \<Rightarrow> JString s)"

fun encode_state_mutation :: "state_mutation \<Rightarrow> json" where
  "encode_state_mutation (Snapshot bytes data) =
    JObject [(''kind'', JString ''state_snapshot''), (''byte_size'', json_usize bytes), (''payload'', JString data)]"
| "encode_state_mutation (Delta ops bytes depth val data) =
    JObject [(''kind'', JString ''state_delta''), (''op_count'', json_usize ops), (''byte_size'', json_usize bytes),
      (''max_path_depth'', json_usize depth), (''max_value_bytes'', json_usize val), (''payload'', JString data)]"

fun encode_phase :: "lifecycle_phase \<Rightarrow> json" where
  "encode_phase RunStarted = JString ''run_started''"
| "encode_phase RunFinished = JString ''run_finished''"
| "encode_phase RunError = JString ''run_error''"
| "encode_phase (StepStarted name) = JObject [(''step_started'', JString name)]"
| "encode_phase (StepFinished name) = JObject [(''step_finished'', JString name)]"

fun encode_opaque :: "opaque_kind \<Rightarrow> string" where
  "encode_opaque Raw = ''raw''"
| "encode_opaque Custom = ''custom''"
| "encode_opaque Encrypted = ''encrypted''"

fun encode_event :: "agent_event \<Rightarrow> json" where
  "encode_event (E_MessageChunk message s) =
    JObject [(''kind'', JString ''message_chunk''), (''message'', JString message), (''text'', JString s)]"
| "encode_event (E_ToolCall i name arguments) =
    JObject [(''kind'', JString ''tool_call''), (''id'', JString i), (''name'', JString name),
      (''arguments'', JString arguments)]"
| "encode_event (E_ToolResult i name content) =
    JObject [(''kind'', JString ''tool_result''), (''id'', JString i), (''name'', json_option name),
      (''content'', JString content)]"
| "encode_event (E_StateMutation mutation) = encode_state_mutation mutation"
| "encode_event (E_Lifecycle phase) = JObject [(''kind'', JString ''lifecycle''), (''phase'', encode_phase phase)]"
| "encode_event (E_Opaque kind) = JObject [(''kind'', JString ''opaque''), (''opaque'', JString (encode_opaque kind))]"

definition encode_record ::
    "serde \<Rightarrow> (uuid \<Rightarrow> string) \<Rightarrow> inspection_context \<Rightarrow> agent_event \<Rightarrow> agent_event verdict \<Rightarrow> bytes" where
  "encode_record sj show_uuid c e v =
    map of_char (sj_print sj (JObject
      [(''session'', JString (show_uuid (ic_session c))), (''run'', JString (show_uuid (ic_run c))),
       (''verdict'', JString (verdict_label v)), (''event'', encode_event e)]))"

section \<open>Ports\<close>

datatype scope_error = Unavailable string | Pipeline audit_error

fun show_scope_error :: "(log_id \<Rightarrow> string) \<Rightarrow> scope_error \<Rightarrow> string" where
  "show_scope_error show_uuid (Unavailable err) = ''request scope unavailable: '' @ err"
| "show_scope_error show_uuid (Pipeline err) = ''audit command failed: '' @ show_audit_error show_uuid err"

text \<open>The \<^verbatim>\<open>AuditMetrics\<close> calls of the bridge.\<close>

record 's audit_metrics =
  am_record_dropped :: "'s \<Rightarrow> 's"
  am_observe_outbox_depth :: "nat \<Rightarrow> nat \<Rightarrow> 's \<Rightarrow> 's"

text \<open>The bounded channel: \<^verbatim>\<open>mp_send\<close> and \<^verbatim>\<open>mp_recv\<close> are \<^term>\<open>None\<close> while the caller waits; a send
  is refused when the receiver is gone, a receive yields \<^term>\<open>None\<close> when all senders are and nothing is left.
  \<^verbatim>\<open>mp_close\<close> drops the last sender.\<close>

datatype try_send = TS_Sent | TS_Full | TS_Closed

record 'c mpsc =
  mp_send :: "bytes \<Rightarrow> 'c \<Rightarrow> (bool \<times> 'c) option"
  mp_try_send :: "bytes \<Rightarrow> 'c \<Rightarrow> try_send \<times> 'c"
  mp_recv :: "'c \<Rightarrow> (bytes option \<times> 'c) option"
  mp_capacity :: "'c \<Rightarrow> nat"
  mp_max_capacity :: "'c \<Rightarrow> nat"
  mp_close :: "'c \<Rightarrow> 'c"

record ('c, 's) bridge =
  br_chan :: 'c
  br_state :: 's
  br_last :: "u64 option"

section \<open>Sink\<close>

datatype full_policy = FP_Block | FP_Shed

datatype dropped = Dropped_Shed | Dropped_Closed

definition enqueue :: "'c mpsc \<Rightarrow> full_policy \<Rightarrow> bytes \<Rightarrow> 'c \<Rightarrow> ((dropped, unit) result \<times> 'c) option" where
  "enqueue mp on_full rec ch =
    (case on_full of
       FP_Block \<Rightarrow> map_option (\<lambda>(ok, ch'). (if ok then Inr () else Inl Dropped_Closed, ch')) (mp_send mp rec ch)
     | FP_Shed \<Rightarrow>
         Some (case mp_try_send mp rec ch of
             (TS_Sent, ch') \<Rightarrow> (Inr (), ch')
           | (TS_Full, ch') \<Rightarrow> (Inl Dropped_Shed, ch')
           | (TS_Closed, ch') \<Rightarrow> (Inl Dropped_Closed, ch')))"

record ('c, 's) audit_log_sink =
  sk_tx :: "'c mpsc"
  sk_metrics :: "'s audit_metrics"
  sk_on_full :: full_policy

definition sink_record ::
    "serde \<Rightarrow> (uuid \<Rightarrow> string) \<Rightarrow> ('c, 's) audit_log_sink \<Rightarrow> inspection_context \<Rightarrow> agent_event \<Rightarrow> agent_event verdict \<Rightarrow>
      ('c, 's) bridge \<Rightarrow> ('c, 's) bridge option" where
  "sink_record sj show_uuid sk c e v b =
    (let rec = encode_record sj show_uuid c e v;
         capacity = mp_max_capacity (sk_tx sk) (br_chan b);
         s = am_observe_outbox_depth (sk_metrics sk) (capacity - mp_capacity (sk_tx sk) (br_chan b)) capacity (br_state b) in
     case enqueue (sk_tx sk) (sk_on_full sk) rec (br_chan b) of
       None \<Rightarrow> None
     | Some (Inr _, ch) \<Rightarrow> Some (b\<lparr>br_chan := ch, br_state := s\<rparr>)
     | Some (Inl _, ch) \<Rightarrow> Some (b\<lparr>br_chan := ch, br_state := am_record_dropped (sk_metrics sk) s\<rparr>))"

section \<open>Outbox\<close>

record 's audit_outbox =
  ob_appender :: "log_id \<Rightarrow> bytes \<Rightarrow> 's \<Rightarrow> ((scope_error, u64) result \<times> 's) option"
  ob_log :: log_id
  ob_metrics :: "'s audit_metrics"

definition outbox_append :: "'s audit_outbox \<Rightarrow> bytes \<Rightarrow> 's \<Rightarrow> 's option" where
  "outbox_append ob rec s =
    (case ob_appender ob (ob_log ob) rec s of
       None \<Rightarrow> None
     | Some (Inr index, s') \<Rightarrow> Some s'
     | Some (Inl (Unavailable error), s') \<Rightarrow> Some (am_record_dropped (ob_metrics ob) s')
     | Some (Inl (Pipeline error), s') \<Rightarrow> Some s')"

text \<open>The loop over the records the receiver yields until the channel closes.\<close>

fun outbox_run :: "'s audit_outbox \<Rightarrow> bytes list \<Rightarrow> 's \<Rightarrow> 's option" where
  "outbox_run ob [] s = Some s"
| "outbox_run ob (rec # records) s = Option.bind (outbox_append ob rec s) (outbox_run ob records)"

section \<open>Checkpoint scheduler\<close>

record 's checkpoint_scheduler =
  cs_issuer :: "instant \<Rightarrow> log_id \<Rightarrow> u64 option \<Rightarrow> 's \<Rightarrow> ((scope_error, signed_tree_head) result \<times> 's) option"
  cs_log :: log_id

definition scheduler_tick :: "'s checkpoint_scheduler \<Rightarrow> instant \<Rightarrow> u64 option \<Rightarrow> 's \<Rightarrow> (u64 option \<times> 's) option" where
  "scheduler_tick cs now last_size s =
    (case cs_issuer cs now (cs_log cs) last_size s of
       None \<Rightarrow> None
     | Some (Inr sth, s') \<Rightarrow> Some (Some (th_size (sth_head sth)), s')
     | Some (Inl _, s') \<Rightarrow> Some (last_size, s'))"

text \<open>The loop over the ticks that come before the shutdown, each with the time the issuer reads.\<close>

fun scheduler_loop :: "'s checkpoint_scheduler \<Rightarrow> instant list \<Rightarrow> u64 option \<Rightarrow> 's \<Rightarrow> (u64 option \<times> 's) option" where
  "scheduler_loop cs [] last_size s = Some (last_size, s)"
| "scheduler_loop cs (now # ticks) last_size s =
    Option.bind (scheduler_tick cs now last_size s) (\<lambda>(last_size', s'). scheduler_loop cs ticks last_size' s')"

definition scheduler_run :: "'s checkpoint_scheduler \<Rightarrow> instant list \<Rightarrow> 's \<Rightarrow> (u64 option \<times> 's) option" where
  "scheduler_run cs ticks s = scheduler_loop cs ticks None s"

section \<open>Scoped dispatch\<close>

text \<open>The server's side of the ports: the audit world, whether each request scope opens (\<^term>\<open>None\<close>) or
  with what error it does not, and the reported queue depths.\<close>

record server =
  sv_world :: world
  sv_scopes :: "string option list"
  sv_depths :: "(nat \<times> nat) list"

definition enter_build :: "server \<Rightarrow> string option \<times> server" where
  "enter_build sv = (case sv_scopes sv of [] \<Rightarrow> (None, sv) | x # xs \<Rightarrow> (x, sv\<lparr>sv_scopes := xs\<rparr>))"

definition dispatch :: "'a op \<Rightarrow> server \<Rightarrow> ((scope_error, 'a) result \<times> server) option" where
  "dispatch request sv =
    (case enter_build sv of
       (Some error, sv') \<Rightarrow> Some (Inl (Unavailable error), sv')
     | (None, sv') \<Rightarrow>
         (case request (sv_world sv') of
            None \<Rightarrow> None
          | Some (r, w) \<Rightarrow> Some (map_err Pipeline r, sv'\<lparr>sv_world := scope_close w\<rparr>)))"

definition scoped_append :: "hasher \<Rightarrow> log_id \<Rightarrow> bytes \<Rightarrow> server \<Rightarrow> ((scope_error, u64) result \<times> server) option" where
  "scoped_append h i rec = dispatch (send_append_record h (i, rec))"

definition scoped_issue ::
    "jiff \<Rightarrow> ed25519_backend \<Rightarrow> hasher \<Rightarrow> configured_key option \<Rightarrow> string \<Rightarrow> instant \<Rightarrow> log_id \<Rightarrow> u64 option \<Rightarrow> server \<Rightarrow>
      ((scope_error, signed_tree_head) result \<times> server) option" where
  "scoped_issue j be h st key now i previous =
    dispatch (send_issue_checkpoint j be h st now \<lparr>ir_log = i, ir_key = key, ir_previous = previous\<rparr>)"

text \<open>The counters the pipeline's metrics behavior and the bridge share.\<close>

definition server_metrics :: "server audit_metrics" where
  "server_metrics =
    \<lparr>am_record_dropped = (\<lambda>sv. sv\<lparr>sv_world := (sv_world sv)\<lparr>w_dropped := Suc (w_dropped (sv_world sv))\<rparr>\<rparr>),
     am_observe_outbox_depth = (\<lambda>used capacity sv. sv\<lparr>sv_depths := sv_depths sv @ [(used, capacity)]\<rparr>)\<rparr>"

definition server_outbox :: "hasher \<Rightarrow> log_id \<Rightarrow> server audit_outbox" where
  "server_outbox h i = \<lparr>ob_appender = scoped_append h, ob_log = i, ob_metrics = server_metrics\<rparr>"

definition server_scheduler ::
    "jiff \<Rightarrow> ed25519_backend \<Rightarrow> hasher \<Rightarrow> configured_key option \<Rightarrow> string \<Rightarrow> log_id \<Rightarrow> server checkpoint_scheduler" where
  "server_scheduler j be h st key i = \<lparr>cs_issuer = scoped_issue j be h st key, cs_log = i\<rparr>"

section \<open>What a record says\<close>

text \<open>JSON values up to the order of an object's keys, and what is relied on of the printer: values that are not
  equal in this sense print differently.\<close>

inductive json_eq :: "json \<Rightarrow> json \<Rightarrow> bool" where
  null: "json_eq JNull JNull"
| bool: "json_eq (JBool x) (JBool x)"
| num: "json_eq (JNumber n) (JNumber n)"
| string: "json_eq (JString s) (JString s)"
| array: "list_all2 json_eq xs ys \<Longrightarrow> json_eq (JArray xs) (JArray ys)"
| object: "(\<And>k. rel_option json_eq (map_of kvs k) (map_of kvs' k)) \<Longrightarrow> json_eq (JObject kvs) (JObject kvs')"

inductive_simps json_eq_simps [simp]:
  "json_eq JNull v" "json_eq v JNull" "json_eq (JNumber n) (JNumber m)" "json_eq (JString s) (JString t)"
  "json_eq (JString s) (JObject kvs)" "json_eq (JObject kvs) (JString s)"

inductive_cases json_eq_objectE: "json_eq (JObject kvs) (JObject kvs')"

definition prints_apart :: "serde \<Rightarrow> bool" where
  "prints_apart sj \<longleftrightarrow> (\<forall>v v'. sj_print sj v = sj_print sj v' \<longrightarrow> json_eq v v')"

lemma json_eq_get: "json_eq (JObject kvs) (JObject kvs') \<Longrightarrow> rel_option json_eq (map_of kvs k) (map_of kvs' k)"
  by (auto elim: json_eq_objectE)

text \<open>The sizes of an event fit a \<^verbatim>\<open>usize\<close>.\<close>

fun usize_sized :: "agent_event \<Rightarrow> bool" where
  "usize_sized (E_StateMutation (Snapshot n _)) \<longleftrightarrow> n < 2 ^ 64"
| "usize_sized (E_StateMutation (Delta ops n depth val _)) \<longleftrightarrow>
    ops < 2 ^ 64 \<and> n < 2 ^ 64 \<and> depth < 2 ^ 64 \<and> val < 2 ^ 64"
| "usize_sized _ \<longleftrightarrow> True"

lemma word_of_nat_usize_inject:
  "a < 2 ^ 64 \<Longrightarrow> b < 2 ^ 64 \<Longrightarrow> (word_of_nat a :: 64 word) = word_of_nat b \<longleftrightarrow> a = b"
  by (metis unat_word_of_nat64)

lemma json_option_eq [simp]: "json_eq (json_option x) (json_option y) \<longleftrightarrow> x = y"
  by (cases x; cases y) (auto elim: json_eq.cases)

lemma encode_phase_eq [simp]: "json_eq (encode_phase x) (encode_phase y) \<longleftrightarrow> x = y"
proof
  assume eq: "json_eq (encode_phase x) (encode_phase y)"
  then show "x = y"
    by (cases x; cases y) (auto dest: json_eq_get [of _ _ "''step_started''"] json_eq_get [of _ _ "''step_finished''"])
next
  assume "x = y"
  then show "json_eq (encode_phase x) (encode_phase y)"
    by (cases y) (auto intro!: json_eq.object)
qed

lemma encode_opaque_eq [simp]: "encode_opaque x = encode_opaque y \<longleftrightarrow> x = y"
  by (cases x; cases y) simp_all

lemma json_eq_field: "json_eq v v' \<Longrightarrow> rel_option json_eq (json_get k v) (json_get k v')"
  by (erule json_eq.cases) (simp_all add: json_get_def)

text \<open>The kind of an encoded event.\<close>

fun event_kind :: "agent_event \<Rightarrow> string" where
  "event_kind (E_MessageChunk _ _) = ''message_chunk''"
| "event_kind (E_ToolCall _ _ _) = ''tool_call''"
| "event_kind (E_ToolResult _ _ _) = ''tool_result''"
| "event_kind (E_StateMutation (Snapshot _ _)) = ''state_snapshot''"
| "event_kind (E_StateMutation (Delta _ _ _ _ _)) = ''state_delta''"
| "event_kind (E_Lifecycle _) = ''lifecycle''"
| "event_kind (E_Opaque _) = ''opaque''"

lemma encode_event_kind: "json_get ''kind'' (encode_event e) = Some (JString (event_kind e))"
  by (cases e rule: event_kind.cases) (simp_all add: json_get_def)

lemma encode_event_inject:
  assumes eq: "json_eq (encode_event e) (encode_event e')" and "usize_sized e" "usize_sized e'"
  shows "e = e'"
proof -
  note f = json_eq_field [OF eq]
  have k: "event_kind e = event_kind e'" using f [of "''kind''"] by (simp add: encode_event_kind)
  show ?thesis
  proof (cases e rule: event_kind.cases)
    case (1 m s)
    with k f [of "''message''"] f [of "''text''"] show ?thesis
      by (cases e' rule: event_kind.cases) (simp_all add: json_get_def)
  next
    case (2 i n a)
    with k f [of "''id''"] f [of "''name''"] f [of "''arguments''"] show ?thesis
      by (cases e' rule: event_kind.cases) (simp_all add: json_get_def)
  next
    case (3 i n c)
    with k f [of "''id''"] f [of "''name''"] f [of "''content''"] show ?thesis
      by (cases e' rule: event_kind.cases) (simp_all add: json_get_def)
  next
    case (4 n p)
    with k assms f [of "''byte_size''"] f [of "''payload''"] show ?thesis
      by (cases e' rule: event_kind.cases) (simp_all add: json_get_def word_of_nat_usize_inject)
  next
    case (5 ops n d v p)
    with k assms f [of "''op_count''"] f [of "''byte_size''"] f [of "''max_path_depth''"]
        f [of "''max_value_bytes''"] f [of "''payload''"] show ?thesis
      by (cases e' rule: event_kind.cases) (simp_all add: json_get_def word_of_nat_usize_inject)
  next
    case (6 p)
    with k f [of "''phase''"] show ?thesis
      by (cases e' rule: event_kind.cases) (simp_all add: json_get_def)
  next
    case (7 o')
    with k f [of "''opaque''"] show ?thesis
      by (cases e' rule: event_kind.cases) (simp_all add: json_get_def)
  qed
qed

lemma encode_record_eq:
  assumes "prints_apart sj" and "inj su" and "usize_sized e" and "usize_sized e'"
  shows "encode_record sj su c e v = encode_record sj su c' e' v' \<longleftrightarrow>
    c = c' \<and> e = e' \<and> verdict_label v = verdict_label v'"
proof
  assume "encode_record sj su c e v = encode_record sj su c' e' v'"
  then have eq: "json_eq
     (JObject [(''session'', JString (su (ic_session c))), (''run'', JString (su (ic_run c))),
       (''verdict'', JString (verdict_label v)), (''event'', encode_event e)])
     (JObject [(''session'', JString (su (ic_session c'))), (''run'', JString (su (ic_run c'))),
       (''verdict'', JString (verdict_label v')), (''event'', encode_event e')])"
    unfolding encode_record_def inj_of_char using assms(1) unfolding prints_apart_def by blast
  note f = json_eq_get [OF eq]
  have "su (ic_session c) = su (ic_session c')" "su (ic_run c) = su (ic_run c')" "verdict_label v = verdict_label v'"
      "json_eq (encode_event e) (encode_event e')"
    using f [of "''session''"] f [of "''run''"] f [of "''verdict''"] f [of "''event''"] by simp_all
  with encode_event_inject [OF _ assms(3,4)] injD [OF assms(2)] show "c = c' \<and> e = e' \<and> verdict_label v = verdict_label v'"
    by (simp add: inspection_context.equality)
qed (simp add: encode_record_def)

section \<open>The bridge at work\<close>

text \<open>What is relied on of the channel, with \<^verbatim>\<open>q\<close> the records in flight: it is a bounded queue in order
  of sending, a send waits or is shed only when it is full, and a receive waits or ends only when it is
  empty.\<close>

definition mpsc_laws :: "'c mpsc \<Rightarrow> ('c \<Rightarrow> bytes list) \<Rightarrow> bool" where
  "mpsc_laws mp q \<longleftrightarrow>
    (\<forall>r c. case mp_send mp r c of
        None \<Rightarrow> mp_max_capacity mp c \<le> length (q c)
      | Some (ok, c') \<Rightarrow> q c' = (if ok then q c @ [r] else q c)) \<and>
    (\<forall>r c. case mp_try_send mp r c of (t, c') \<Rightarrow>
        q c' = (if t = TS_Sent then q c @ [r] else q c) \<and>
        (t = TS_Full \<longrightarrow> mp_max_capacity mp c \<le> length (q c))) \<and>
    (\<forall>c. case mp_recv mp c of
        None \<Rightarrow> q c = []
      | Some (None, c') \<Rightarrow> q c = [] \<and> q c' = []
      | Some (Some r, c') \<Rightarrow> q c = r # q c') \<and>
    (\<forall>c. q (mp_close mp c) = q c)"

datatype bridge_event =
    Offered inspection_context agent_event "agent_event verdict" "(dropped, unit) result"
  | Drained bytes "(scope_error, u64) result"
  | Ticked instant

text \<open>The interleavings of sink, outbox and scheduler, from the state \<^verbatim>\<open>b0\<close>; the sender may be dropped.\<close>

inductive bridge_run ::
    "serde \<Rightarrow> (uuid \<Rightarrow> string) \<Rightarrow> 'c mpsc \<Rightarrow> full_policy \<Rightarrow> 's audit_outbox \<Rightarrow> 's checkpoint_scheduler \<Rightarrow>
      ('c, 's) bridge \<Rightarrow> bridge_event list \<Rightarrow> ('c, 's) bridge \<Rightarrow> bool"
  for sj su mp pol ob cs b0 where
  start: "bridge_run sj su mp pol ob cs b0 [] b0"
| offer: "bridge_run sj su mp pol ob cs b0 tr b \<Longrightarrow>
    enqueue mp pol (encode_record sj su c e v) (br_chan b) = Some (out, ch) \<Longrightarrow>
    sink_record sj su \<lparr>sk_tx = mp, sk_metrics = ob_metrics ob, sk_on_full = pol\<rparr> c e v b = Some b' \<Longrightarrow>
    bridge_run sj su mp pol ob cs b0 (tr @ [Offered c e v out]) b'"
| drain: "bridge_run sj su mp pol ob cs b0 tr b \<Longrightarrow> mp_recv mp (br_chan b) = Some (Some r, ch) \<Longrightarrow>
    ob_appender ob (ob_log ob) r (br_state b) = Some (res, s1) \<Longrightarrow> outbox_append ob r (br_state b) = Some s' \<Longrightarrow>
    bridge_run sj su mp pol ob cs b0 (tr @ [Drained r res]) (b\<lparr>br_chan := ch, br_state := s'\<rparr>)"
| tick: "bridge_run sj su mp pol ob cs b0 tr b \<Longrightarrow>
    scheduler_tick cs now (br_last b) (br_state b) = Some (last', s') \<Longrightarrow>
    bridge_run sj su mp pol ob cs b0 (tr @ [Ticked now]) (b\<lparr>br_last := last', br_state := s'\<rparr>)"
| close: "bridge_run sj su mp pol ob cs b0 tr b \<Longrightarrow>
    bridge_run sj su mp pol ob cs b0 tr (b\<lparr>br_chan := mp_close mp (br_chan b)\<rparr>)"

text \<open>The decisions a trace enqueued, the records it drained, those that reached the log, and the number of
  those that did not.\<close>

fun enqueued_of :: "bridge_event \<Rightarrow> (inspection_context \<times> agent_event \<times> agent_event verdict) list" where
  "enqueued_of (Offered c e v (Inr _)) = [(c, e, v)]"
| "enqueued_of _ = []"

fun drained_of :: "bridge_event \<Rightarrow> bytes list" where
  "drained_of (Drained r _) = [r]"
| "drained_of _ = []"

fun logged_of :: "bridge_event \<Rightarrow> bytes list" where
  "logged_of (Drained r (Inr _)) = [r]"
| "logged_of _ = []"

fun is_loss :: "bridge_event \<Rightarrow> bool" where
  "is_loss (Offered _ _ _ (Inl _)) = True"
| "is_loss (Drained _ (Inl _)) = True"
| "is_loss _ = False"

abbreviation over :: "('x \<Rightarrow> 'y list) \<Rightarrow> 'x list \<Rightarrow> 'y list" where
  "over f tr \<equiv> concat (map f tr)"

abbreviation record_of ::
    "serde \<Rightarrow> (uuid \<Rightarrow> string) \<Rightarrow> inspection_context \<times> agent_event \<times> agent_event verdict \<Rightarrow> bytes" where
  "record_of sj su x \<equiv> (case x of (c, e, v) \<Rightarrow> encode_record sj su c e v)"

lemma sink_record_cases:
  assumes "sink_record sj su \<lparr>sk_tx = mp, sk_metrics = me, sk_on_full = pol\<rparr> c e v b = Some b'"
    and "enqueue mp pol (encode_record sj su c e v) (br_chan b) = Some (out, ch)"
  obtains used cap where "b' = b\<lparr>br_chan := ch, br_state :=
    (if is_ok out then id else am_record_dropped me) (am_observe_outbox_depth me used cap (br_state b))\<rparr>"
  using assms by (auto simp: sink_record_def Let_def split: sum.splits)

lemma enqueue_queue:
  assumes "mpsc_laws mp q" and "enqueue mp pol r ch = Some (out, ch')"
  shows "q ch' = (if is_ok out then q ch @ [r] else q ch)"
proof (cases pol)
  case FP_Block
  with assms(2) obtain ok where ok: "mp_send mp r ch = Some (ok, ch')" "is_ok out = ok"
    by (auto simp: enqueue_def split: if_splits)
  have "case mp_send mp r ch of None \<Rightarrow> mp_max_capacity mp ch \<le> length (q ch)
      | Some (ok, c') \<Rightarrow> q c' = (if ok then q ch @ [r] else q ch)"
    using assms(1) unfolding mpsc_laws_def by blast
  with ok show ?thesis by simp
next
  case FP_Shed
  with assms(2) obtain t where t: "mp_try_send mp r ch = (t, ch')" "is_ok out \<longleftrightarrow> t = TS_Sent"
    by (auto simp: enqueue_def split: prod.splits try_send.splits)
  note l = assms(1) [unfolded mpsc_laws_def, THEN conjunct2, THEN conjunct1, THEN spec [where x = r], THEN spec [where x = ch]]
  from l t show ?thesis by simp
qed

lemma recv_queue:
  assumes "mpsc_laws mp q"
  shows "mp_recv mp ch = Some (Some r, ch') \<Longrightarrow> q ch = r # q ch'"
    and "q ch \<noteq> [] \<Longrightarrow> \<exists>r ch'. mp_recv mp ch = Some (Some r, ch')"
proof -
  have l: "case mp_recv mp ch of None \<Rightarrow> q ch = [] | Some (None, c') \<Rightarrow> q ch = [] \<and> q c' = []
      | Some (Some r, c') \<Rightarrow> q ch = r # q c'"
    using assms unfolding mpsc_laws_def by blast
  show "mp_recv mp ch = Some (Some r, ch') \<Longrightarrow> q ch = r # q ch'" using l by simp
  show "q ch \<noteq> [] \<Longrightarrow> \<exists>r ch'. mp_recv mp ch = Some (Some r, ch')"
    using l by (auto split: option.splits prod.splits)
qed

section \<open>The contract of the ports\<close>

text \<open>What the outbox relies on of its appender and its metrics: an append that succeeds writes one entry at
  the end; one that fails has been counted as dropped unless the command never reached the pipeline, and writes
  nothing, except that where an acknowledgement can be lost (\<^verbatim>\<open>lossy\<close>) the entry may have been written after all.\<close>

locale record_appender =
  fixes ob :: "'s audit_outbox"
    and valid :: "'s \<Rightarrow> bool"
    and lossy :: "'s \<Rightarrow> bool"
    and written :: "'s \<Rightarrow> bytes list"
    and drops :: "'s \<Rightarrow> nat"
    and entry :: "bytes \<Rightarrow> bytes"
  assumes append_returns: "valid s \<Longrightarrow> ob_appender ob (ob_log ob) r s \<noteq> None"
    and append_mono: "valid s \<Longrightarrow> ob_appender ob (ob_log ob) r s = Some (res, s') \<Longrightarrow> lossy s' \<Longrightarrow> lossy s"
    and append_ok: "valid s \<Longrightarrow> ob_appender ob (ob_log ob) r s = Some (Inr k, s') \<Longrightarrow>
      valid s' \<and> written s' = written s @ [entry r] \<and> drops s' = drops s"
    and append_unavailable: "valid s \<Longrightarrow> ob_appender ob (ob_log ob) r s = Some (Inl (Unavailable m), s') \<Longrightarrow>
      valid s' \<and> written s' = written s \<and> drops s' = drops s"
    and append_failed: "valid s \<Longrightarrow> ob_appender ob (ob_log ob) r s = Some (Inl (Pipeline err), s') \<Longrightarrow>
      valid s' \<and> (written s' = written s \<or> lossy s \<and> written s' = written s @ [entry r]) \<and> drops s' = Suc (drops s)"
    and count_drop: "valid s \<Longrightarrow> valid (am_record_dropped (ob_metrics ob) s) \<and>
      lossy (am_record_dropped (ob_metrics ob) s) = lossy s \<and>
      written (am_record_dropped (ob_metrics ob) s) = written s \<and>
      drops (am_record_dropped (ob_metrics ob) s) = Suc (drops s)"
    and report_depth: "valid s \<Longrightarrow> valid (am_observe_outbox_depth (ob_metrics ob) used cap s) \<and>
      lossy (am_observe_outbox_depth (ob_metrics ob) used cap s) = lossy s \<and>
      written (am_observe_outbox_depth (ob_metrics ob) used cap s) = written s \<and>
      drops (am_observe_outbox_depth (ob_metrics ob) used cap s) = drops s"
begin

text \<open>What an append with the given result may have written.\<close>

definition stored :: "'s \<Rightarrow> bytes \<Rightarrow> (scope_error, u64) result \<Rightarrow> bytes list \<Rightarrow> bool" where
  "stored s r res kept \<longleftrightarrow> (if is_ok res then kept = [r] else kept = [] \<or> lossy s \<and> kept = [r])"

lemma outbox_append_step:
  assumes "valid s"
  shows "\<exists>res s1 s' kept. ob_appender ob (ob_log ob) r s = Some (res, s1) \<and> outbox_append ob r s = Some s' \<and> valid s' \<and>
    (lossy s' \<longrightarrow> lossy s) \<and> stored s r res kept \<and>
    written s' = written s @ map entry kept \<and> drops s' = drops s + (if is_ok res then 0 else 1)"
proof -
  obtain res s1 where r: "ob_appender ob (ob_log ob) r s = Some (res, s1)"
    using append_returns [OF assms, of r] by (cases "ob_appender ob (ob_log ob) r s") auto
  note mono = append_mono [OF assms r]
  show ?thesis
  proof (cases res)
    case (Inr k)
    with r append_ok [OF assms, of r k s1] mono show ?thesis by (simp add: outbox_append_def stored_def)
  next
    case (Inl e)
    show ?thesis
    proof (cases e)
      case (Unavailable m)
      with r Inl append_unavailable [OF assms, of r m s1] count_drop [of s1] mono show ?thesis
        by (simp add: outbox_append_def stored_def)
    next
      case (Pipeline err)
      with Inl append_failed [OF assms, of r err s1] r obtain kept where
        "kept = [] \<or> lossy s \<and> kept = [r]" "written s1 = written s @ map entry kept" "valid s1" "drops s1 = Suc (drops s)"
        by (metis append_Nil2 list.simps(8,9))
      with r Inl Pipeline mono show ?thesis by (intro exI [of _ res] exI [of _ s1] exI [of _ kept]) (simp add: outbox_append_def stored_def)
    qed
  qed
qed

text \<open>The outbox never stalls: every record that arrives is written or counted.\<close>

lemma outbox_run_accounts:
  "valid s \<Longrightarrow> \<exists>s' kept. outbox_run ob rs s = Some s' \<and> valid s' \<and> subseq kept rs \<and>
    written s' = written s @ map entry kept \<and> drops s + length rs \<le> drops s' + length kept"
proof (induction rs arbitrary: s)
  case (Cons r rs)
  from outbox_append_step [OF Cons.prems, of r] obtain res s1 s' k where
      "ob_appender ob (ob_log ob) r s = Some (res, s1)" and s': "outbox_append ob r s = Some s'" "valid s'" "stored s r res k"
      "written s' = written s @ map entry k" "drops s' = drops s + (if is_ok res then 0 else 1)"
    by blast
  from Cons.IH [OF s'(2)] obtain t kept where t: "outbox_run ob rs s' = Some t" "valid t" "subseq kept rs"
      "written t = written s' @ map entry kept" "drops s' + length rs \<le> drops t + length kept" by blast
  from s'(3) have "subseq k [r]" "1 \<le> length k + (if is_ok res then 0 else 1)" by (auto simp: stored_def split: if_splits)
  with s' t list_emb_append_mono [of "(=)" k "[r]" kept rs] show ?case
    by (intro exI [of _ t] exI [of _ "k @ kept"]) (auto simp: Let_def split: if_splits)
qed simp

end

locale audit_bridge = record_appender ob valid lossy written drops entry
  for ob :: "'s audit_outbox" and valid lossy written drops entry +
  fixes cs :: "'s checkpoint_scheduler"
  assumes issue_keeps: "valid s \<Longrightarrow> cs_issuer cs now (cs_log cs) prev s = Some (r, s') \<Longrightarrow>
    valid s' \<and> (lossy s' \<longrightarrow> lossy s) \<and> written s' = written s \<and> drops s' = drops s"
begin

lemma tick_keeps:
  "valid s \<Longrightarrow> scheduler_tick cs now prev s = Some (prev', s') \<Longrightarrow>
    valid s' \<and> (lossy s' \<longrightarrow> lossy s) \<and> written s' = written s \<and> drops s' = drops s"
  using issue_keeps [of s now prev] by (auto simp: scheduler_tick_def split: option.splits prod.splits sum.splits)

text \<open>What a run wrote: all records whose append was acknowledged and nothing but drained records, in order; exactly the acknowledged
  ones where no acknowledgement can be lost.\<close>

lemma run_accounts:
  assumes "bridge_run sj su mp pol ob cs b0 tr b" and laws: "mpsc_laws mp q"
    and "q (br_chan b0) = []" and "valid (br_state b0)"
  shows "valid (br_state b) \<and> (lossy (br_state b) \<longrightarrow> lossy (br_state b0)) \<and>
    map (record_of sj su) (over enqueued_of tr) = over drained_of tr @ q (br_chan b) \<and>
    (\<exists>rs. written (br_state b) = written (br_state b0) @ map entry rs \<and> subseq (over logged_of tr) rs \<and> subseq rs (over drained_of tr) \<and>
      (lossy (br_state b0) \<or> rs = over logged_of tr)) \<and>
    drops (br_state b) = drops (br_state b0) + length (filter is_loss tr)"
  using assms(1)
proof (induction rule: bridge_run.induct)
  case start
  with assms(3,4) show ?case by simp
next
  case (offer tr b c e v out ch b')
  from offer.hyps(3,2) obtain used cap where b': "b' = b\<lparr>br_chan := ch, br_state :=
      (if is_ok out then id else am_record_dropped (ob_metrics ob))
        (am_observe_outbox_depth (ob_metrics ob) used cap (br_state b))\<rparr>"
    by (rule sink_record_cases)
  let ?s = "am_observe_outbox_depth (ob_metrics ob) used cap (br_state b)"
  note q = enqueue_queue [OF laws offer.hyps(2)]
  have v: "valid ?s \<and> lossy ?s = lossy (br_state b) \<and> written ?s = written (br_state b) \<and> drops ?s = drops (br_state b)"
    using report_depth offer.IH by blast
  show ?case
    using offer.IH v q count_drop [of ?s] by (cases out) (simp_all add: b')
next
  case (drain tr b r ch res s1 s')
  have v: "valid (br_state b)" using drain.IH by blast
  from outbox_append_step [OF v, of r] drain.hyps(3,4) obtain kept where s: "valid s'" "lossy s' \<longrightarrow> lossy (br_state b)"
      "stored (br_state b) r res kept" "written s' = written (br_state b) @ map entry kept"
      "drops s' = drops (br_state b) + (if is_ok res then 0 else 1)"
    by auto
  from drain.IH obtain rs where rs: "written (br_state b) = written (br_state b0) @ map entry rs"
      "subseq (over logged_of tr) rs" "subseq rs (over drained_of tr)" "lossy (br_state b0) \<or> rs = over logged_of tr" by blast
  let ?e = "Drained r res"
  have k: "subseq (logged_of ?e) kept" "subseq kept (drained_of ?e)" "lossy (br_state b) \<or> kept = logged_of ?e"
    using s(3) by (cases res; auto simp: stored_def)+
  have rs': "subseq (over logged_of (tr @ [?e])) (rs @ kept)" "subseq (rs @ kept) (over drained_of (tr @ [?e]))"
    using list_emb_append_mono [OF rs(2) k(1)] list_emb_append_mono [OF rs(3) k(2)] by simp_all
  moreover have "lossy (br_state b0) \<or> rs @ kept = over logged_of (tr @ [?e])" using rs(4) k(3) drain.IH by auto
  moreover have "written s' = written (br_state b0) @ map entry (rs @ kept)" using rs(1) s(4) by simp
  ultimately have "\<exists>rs. written s' = written (br_state b0) @ map entry rs \<and> subseq (over logged_of (tr @ [?e])) rs \<and>
      subseq rs (over drained_of (tr @ [?e])) \<and> (lossy (br_state b0) \<or> rs = over logged_of (tr @ [?e]))" by blast
  moreover have "length (filter is_loss (tr @ [?e])) = length (filter is_loss tr) + (if is_ok res then 0 else 1)"
    by (cases res) simp_all
  ultimately show ?case using drain.IH s(1,2,5) recv_queue(1) [OF laws drain.hyps(2)] by simp
next
  case (tick tr b now last' s')
  with tick_keeps [of "br_state b" now "br_last b" last' s'] show ?case by simp
next
  case (close tr b)
  moreover have "q (mp_close mp (br_chan b)) = q (br_chan b)" using laws unfolding mpsc_laws_def by blast
  ultimately show ?case by simp
qed

lemma queue_drains:
  assumes laws: "mpsc_laws mp q" and "q (br_chan b0) = []" and "valid (br_state b0)"
  shows "bridge_run sj su mp pol ob cs b0 tr b \<Longrightarrow>
    \<exists>more b'. bridge_run sj su mp pol ob cs b0 (tr @ more) b' \<and> q (br_chan b') = [] \<and> over enqueued_of more = []"
proof (induction "length (q (br_chan b))" arbitrary: tr b)
  case 0
  then show ?case by (intro exI [of _ "[]"] exI [of _ b]) simp
next
  case (Suc n)
  then have "q (br_chan b) \<noteq> []" by auto
  with recv_queue(2) [OF laws] obtain r ch where r: "mp_recv mp (br_chan b) = Some (Some r, ch)" by blast
  have "valid (br_state b)" using run_accounts [OF Suc.prems assms] by blast
  from outbox_append_step [OF this, of r] obtain res s1 s' where
      s: "ob_appender ob (ob_log ob) r (br_state b) = Some (res, s1)" "outbox_append ob r (br_state b) = Some s'" by blast
  note run = bridge_run.drain [OF Suc.prems r s]
  have "n = length (q ch)" using Suc.hyps(2) recv_queue(1) [OF laws r] by simp
  with Suc.hyps(1) [OF _ run] obtain more b' where "bridge_run sj su mp pol ob cs b0 (tr @ Drained r res # more) b'"
      "q (br_chan b') = []" "over enqueued_of more = []" by auto
  then show ?case by (intro exI [of _ "Drained r res # more"] exI [of _ b']) simp
qed

end

section \<open>The server's ports keep the contract\<close>

text \<open>Every anchored checkpoint of the log is the root of a prefix of the log as it is now.\<close>

definition anchors_true :: "hasher \<Rightarrow> log_id \<Rightarrow> db \<Rightarrow> bool" where
  "anchors_true h i d \<longleftrightarrow>
    list_all (\<lambda>a. cr_log a = i \<longrightarrow> unat (cr_size a) \<le> length (leaves_of d i) \<and>
      cr_root a = dg_bytes (mth h (take (unat (cr_size a)) (digests_of h d i)))) (db_checkpoints d)"

text \<open>Between two commands: no transaction is open, every log's indices are gap-free, the log is within the bound of its
  index type, and its anchors are true.  Nothing is said about the faults to come.\<close>

definition server_valid :: "hasher \<Rightarrow> log_id \<Rightarrow> server \<Rightarrow> bool" where
  "server_valid h i sv \<longleftrightarrow>
    w_slot (sv_world sv) = None \<and> (\<forall>k. contiguous (w_db (sv_world sv)) k) \<and>
    length (leaves_of (w_db (sv_world sv)) i) \<le> 2 ^ 63 \<and> anchors_true h i (w_db (sv_world sv))"

text \<open>Whether the acknowledgement of a commit that was applied can be lost.\<close>

abbreviation acks_lost :: "server \<Rightarrow> bool" where
  "acks_lost sv \<equiv> \<not> no_unacked (w_faults (sv_world sv))"

abbreviation log_leaves :: "log_id \<Rightarrow> server \<Rightarrow> bytes list" where
  "log_leaves i sv \<equiv> leaves_of (w_db (sv_world sv)) i"

abbreviation log_drops :: "server \<Rightarrow> nat" where
  "log_drops sv \<equiv> w_dropped (sv_world sv)"

lemma mth_bytes:
  "map dg_bytes ds = map dg_bytes es \<Longrightarrow> dg_bytes (mth h ds) = dg_bytes (mth h es)"
proof (induction ds arbitrary: es rule: measure_induct_rule [of length])
  case (less ds)
  have len: "length ds = length es" using less.prems by (rule map_eq_imp_length_eq)
  consider "ds = []" | d where "ds = [d]" | "2 \<le> length ds"
    by (cases ds; cases "tl ds") auto
  then show ?case
  proof cases
    case 3
    let ?k = "pow2_below (length ds)"
    from pow2_below_bounds [OF 3] have k: "0 < ?k" "?k < length ds" by simp_all
    then have "length ds - ?k < length ds" by linarith
    then have "dg_bytes (mth h (take ?k ds)) = dg_bytes (mth h (take ?k es))"
      "dg_bytes (mth h (drop ?k ds)) = dg_bytes (mth h (drop ?k es))"
      using less.IH [of "take ?k ds" "take ?k es"] less.IH [of "drop ?k ds" "drop ?k es"] k less.prems
      by (simp_all add: take_map [symmetric] drop_map [symmetric])
    with 3 len show ?thesis by (simp add: mth_split [of ds] mth_split [of es] node_def hash_data_def)
  qed (use less.prems len in \<open>auto simp: length_Suc_conv\<close>)
qed

lemma anchors_true_append:
  assumes "anchors_true h i d" and "leaves_of d' i = leaves_of d i @ xs" and "db_checkpoints d' = db_checkpoints d"
  shows "anchors_true h i d'"
  using assms by (auto simp: anchors_true_def digests_of_def list_all_iff)

text \<open>A command that leaves no transaction open leaves nothing to the finalizer of its scope.\<close>

definition leaves_idle :: "'a op \<Rightarrow> bool" where
  "leaves_idle m \<longleftrightarrow> (\<forall>w q w'. w_slot w = None \<longrightarrow> m w = Some (q, w') \<longrightarrow> w_slot w' = None)"

lemma leaves_idle_transaction: "in_tx (nxt req) \<Longrightarrow> leaves_idle (transaction_behavior req nxt)"
  using transaction_behavior_result [of req nxt] unfolding leaves_idle_def by blast

lemma leaves_idle_append: "leaves_idle (send_append_record h (i, rec))"
  unfolding leaves_idle_def
proof (intro allI impI)
  fix w q w'
  assume "w_slot w = None" "send_append_record h (i, rec) w = Some (q, w')"
  then show "w_slot w' = None" using send_append_record_Inr [of h i rec w] send_append_record_Inl [of h i rec w] by (cases q) blast+
qed

lemma leaves_idle_issue: "leaves_idle (send_issue_checkpoint j be h st now req)"
  unfolding send_issue_checkpoint_unfold by (rule leaves_idle_transaction [OF in_tx_handle_issue])

lemma dispatch_cases:
  assumes "dispatch request sv = Some (r, sv')" and "leaves_idle request" and "w_slot (sv_world sv) = None"
  obtains (unavailable) m xs where "r = Inl (Unavailable m)" "sv' = sv\<lparr>sv_scopes := xs\<rparr>"
    | (ran) q w xs where "request (sv_world sv) = Some (q, w)" "r = map_err Pipeline q"
        "sv' = sv\<lparr>sv_scopes := xs, sv_world := w\<rparr>"
proof -
  obtain x xs where x: "enter_build sv = (x, sv\<lparr>sv_scopes := xs\<rparr>)"
    by (cases "sv_scopes sv"; cases sv) (auto simp: enter_build_def)
  show thesis
  proof (cases x)
    case None
    with assms(1) x obtain q w where run: "request (sv_world sv) = Some (q, w)" "r = map_err Pipeline q"
        "sv' = sv\<lparr>sv_scopes := xs, sv_world := scope_close w\<rparr>"
      by (auto simp: dispatch_def split: option.splits)
    with assms(2,3) have "w_slot w = None" unfolding leaves_idle_def by blast
    with run show thesis by (intro ran [of q w xs]) simp_all
  next
    case (Some m)
    with assms(1) x show thesis by (intro unavailable [of m xs]) (simp_all add: dispatch_def)
  qed
qed

lemma append_keeps_valid:
  assumes "server_valid h i sv" and "send_append_record h (i, r) (sv_world sv) = Some (Inr k, w)"
  shows "server_valid h i (sv\<lparr>sv_scopes := xs, sv_world := w\<rparr>) \<and>
    leaves_of (w_db w) i = log_leaves i sv @ [dg_bytes (leaf h r)] \<and> w_dropped w = log_drops sv"
proof -
  have slot: "w_slot (sv_world sv) = None" and cont: "\<forall>n. contiguous (w_db (sv_world sv)) n"
    using assms(1) by (simp_all add: server_valid_def)
  note a = send_append_record_Inr [OF assms(2) slot]
  note l = send_append_record_leaves [OF assms(2) slot cont]
  have cp: "db_checkpoints (w_db w) = db_checkpoints (w_db (sv_world sv))" using a by simp
  have "anchors_true h i (w_db w)"
    using anchors_true_append [of h i "w_db (sv_world sv)" "w_db w", OF _ _ cp] assms(1) l
    by (simp add: server_valid_def)
  moreover have "length (leaves_of (w_db w) i) \<le> 2 ^ 63" using l by simp
  ultimately show ?thesis using a l by (simp add: server_valid_def)
qed

lemma append_failure_keeps_valid:
  assumes "server_valid h i sv" and "send_append_record h (i, r) (sv_world sv) = Some (Inl e, w)"
  shows "server_valid h i (sv\<lparr>sv_scopes := xs, sv_world := w\<rparr>) \<and>
    (leaves_of (w_db w) i = log_leaves i sv \<or> acks_lost sv \<and> leaves_of (w_db w) i = log_leaves i sv @ [dg_bytes (leaf h r)]) \<and>
    w_dropped w = Suc (log_drops sv)"
proof -
  have slot: "w_slot (sv_world sv) = None" and cont: "\<forall>n. contiguous (w_db (sv_world sv)) n"
    using assms(1) by (simp_all add: server_valid_def)
  note a = send_append_record_Inl [OF assms(2) slot]
  show ?thesis
  proof (cases "w_db w = w_db (sv_world sv)")
    case True
    with a assms(1) show ?thesis by (simp add: server_valid_def)
  next
    case False
    note u = send_append_record_unacked [OF assms(2) slot False cont]
    have "anchors_true h i (w_db w)"
      using anchors_true_append [of h i "w_db (sv_world sv)" "w_db w"] assms(1) u by (simp add: server_valid_def)
    moreover have "length (leaves_of (w_db w) i) \<le> 2 ^ 63" using u by simp
    ultimately show ?thesis using a u by (simp add: server_valid_def)
  qed
qed

lemma anchors_true_insert:
  assumes true: "anchors_true h i d" and bound: "length (leaves_of d i) \<le> 2 ^ 63"
    and size: "th_size (sth_head sth) = word_of_nat (length (leaves_of d i))"
    and tree: "merkle_root h (map (\<lambda>bs. \<lparr>dg_algo = a, dg_bytes = bs\<rparr>) (leaves_of d i)) = Some (th_root (sth_head sth))"
  shows "anchors_true h i (upsert_log r (insert_checkpoint_ignore (checkpoint_row_of j i sth) d))"
proof -
  let ?c = "checkpoint_row_of j i sth"
  have n: "unat (cr_size ?c) = length (leaves_of d i)"
    using size bound le_2_63_less [OF bound] by (simp add: checkpoint_row_of_def unat_word_of_nat64 del: length_leaves_of)
  have "dg_bytes (th_root (sth_head sth)) = dg_bytes (mth h (digests_of h d i))"
    using tree merkle_root_eq [of "map (\<lambda>bs. \<lparr>dg_algo = a, dg_bytes = bs\<rparr>) (leaves_of d i)" h] bound
      mth_bytes [of "map (\<lambda>bs. \<lparr>dg_algo = a, dg_bytes = bs\<rparr>) (leaves_of d i)" "digests_of h d i" h]
    by (simp add: digests_of_def comp_def del: length_leaves_of)
  then have "cr_root ?c = dg_bytes (mth h (digests_of h d i))" by (simp add: checkpoint_row_of_def)
  with n have "cr_root ?c = dg_bytes (mth h (take (unat (cr_size ?c)) (digests_of h d i)))" by (simp add: digests_of_def)
  with n true show ?thesis
    by (auto simp: anchors_true_def list_all_iff insert_checkpoint_ignore_def upsert_log_frame digests_of_def
        simp del: length_leaves_of)
       (simp_all add: leaves_of_def rows_of_def)
qed

lemma send_issue_checkpoint_faults:
  "send_issue_checkpoint j be h st now req w = Some (r, w') \<Longrightarrow> set (w_faults w') \<subseteq> set (w_faults w)"
  unfolding send_issue_checkpoint_unfold by (erule transaction_behavior_faults [OF _ in_tx_handle_issue])

lemma issue_keeps_valid:
  assumes valid: "server_valid h i sv"
    and run: "send_issue_checkpoint j be h st now \<lparr>ir_log = i, ir_key = key, ir_previous = prev\<rparr> (sv_world sv) = Some (r, w)"
  shows "server_valid h i (sv\<lparr>sv_scopes := xs, sv_world := w\<rparr>) \<and>
    leaves_of (w_db w) i = log_leaves i sv \<and> w_dropped w = log_drops sv"
proof -
  let ?d = "w_db (sv_world sv)"
  have slot: "w_slot (sv_world sv) = None" and cont: "\<forall>k. contiguous ?d k"
    and bound: "length (leaves_of ?d i) \<le> 2 ^ 63" and true: "anchors_true h i ?d"
    using valid by (simp_all add: server_valid_def)
  have frame: "w_slot w = None" "w_dropped w = log_drops sv"
    using transaction_behavior_result [OF run [unfolded send_issue_checkpoint_unfold] in_tx_handle_issue slot] by simp_all
  show ?thesis
  proof (cases "w_db w = ?d")
    case True
    with frame valid show ?thesis by (simp add: server_valid_def)
  next
    case False
    from send_issue_checkpoint_db [OF run _ False] cont obtain sth a r' where
      db: "w_db w = upsert_log r' (insert_checkpoint_ignore (checkpoint_row_of j i sth) ?d)"
      and effect: "checkpoint_effect j \<lparr>ir_log = i, ir_key = key, ir_previous = prev\<rparr> sth ?d (w_db w)"
      and tree: "merkle_root h (map (\<lambda>bs. \<lparr>dg_algo = a, dg_bytes = bs\<rparr>) (leaves_of ?d i)) = Some (th_root (sth_head sth))"
      by auto
    have size: "th_size (sth_head sth) = word_of_nat (length (leaves_of ?d i))"
      using effect by (simp add: checkpoint_effect_def Let_def)
    have "rows_of (w_db w) k = rows_of ?d k" for k
      by (simp add: db upsert_log_frame rows_of_def insert_checkpoint_ignore_frame)
    with cont have "contiguous (w_db w) k" for k by (simp add: contiguous_def)
    moreover have "leaves_of (w_db w) i = leaves_of ?d i"
      by (simp add: db upsert_log_frame insert_checkpoint_ignore_frame)
    moreover have "anchors_true h i (w_db w)" unfolding db by (rule anchors_true_insert [OF true bound size tree])
    ultimately show ?thesis using frame bound by (simp add: server_valid_def)
  qed
qed

lemma server_metrics_valid:
  "server_valid h i (am_record_dropped server_metrics sv) = server_valid h i sv"
  "server_valid h i (am_observe_outbox_depth server_metrics used cap sv) = server_valid h i sv"
  by (simp_all add: server_valid_def server_metrics_def)

lemma dispatch_faults:
  assumes "dispatch request sv = Some (r, sv')" and "leaves_idle request" and "w_slot (sv_world sv) = None"
    and "\<And>q w. request (sv_world sv) = Some (q, w) \<Longrightarrow> set (w_faults w) \<subseteq> set (w_faults (sv_world sv))"
  shows "acks_lost sv' \<Longrightarrow> acks_lost sv"
  using assms(1-3)
proof (rule dispatch_cases)
  fix q w xs
  assume "acks_lost sv'" "request (sv_world sv) = Some (q, w)" "sv' = sv\<lparr>sv_scopes := xs, sv_world := w\<rparr>"
  with no_unacked_mono [OF _ assms(4), of q w] show "acks_lost sv" by auto
qed auto

interpretation server_bridge: audit_bridge "server_outbox h i" "server_valid h i" acks_lost "log_leaves i" log_drops
  "\<lambda>r. dg_bytes (leaf h r)" "server_scheduler j be h st key i"
  for h i j be st key
proof unfold_locales
  fix sv sv' r k m err used cap res
  let ?ap = "ob_appender (server_outbox h i) (ob_log (server_outbox h i)) r sv"
  have ap: "?ap = dispatch (send_append_record h (i, r)) sv" by (simp add: server_outbox_def scoped_append_def)
  assume valid: "server_valid h i sv"
  have rescope: "server_valid h i (sv\<lparr>sv_scopes := xs\<rparr>)" for xs using valid by (simp add: server_valid_def)
  have slot: "w_slot (sv_world sv) = None" using valid by (simp add: server_valid_def)
  note scope_cases = dispatch_cases [OF _ leaves_idle_append slot]
  show "?ap \<noteq> None"
    unfolding ap dispatch_def using send_append_record_returns [of h i r "sv_world sv"]
    by (auto simp: enter_build_def split: list.split option.split)
  show "server_valid h i sv' \<and> log_leaves i sv' = log_leaves i sv @ [dg_bytes (leaf h r)] \<and> log_drops sv' = log_drops sv"
    if "?ap = Some (Inr k, sv')"
    using that unfolding ap
    by (rule scope_cases) (auto simp: map_err_def split: sum.splits dest!: append_keeps_valid [OF valid])
  show "server_valid h i sv' \<and> log_leaves i sv' = log_leaves i sv \<and> log_drops sv' = log_drops sv"
    if "?ap = Some (Inl (Unavailable m), sv')"
    using that unfolding ap by (rule scope_cases) (auto simp: map_err_def rescope split: sum.splits)
  show "acks_lost sv" if "?ap = Some (res, sv')" "acks_lost sv'"
    using dispatch_faults [OF that(1) [unfolded ap] leaves_idle_append slot send_append_record_faults that(2)] .
  show "server_valid h i sv' \<and>
      (log_leaves i sv' = log_leaves i sv \<or> acks_lost sv \<and> log_leaves i sv' = log_leaves i sv @ [dg_bytes (leaf h r)]) \<and>
      log_drops sv' = Suc (log_drops sv)"
    if "?ap = Some (Inl (Pipeline err), sv')"
    using that unfolding ap
    by (rule scope_cases) (auto simp: map_err_def split: sum.splits dest!: append_failure_keeps_valid [OF valid])
  show "server_valid h i (am_record_dropped (ob_metrics (server_outbox h i)) sv) \<and>
      acks_lost (am_record_dropped (ob_metrics (server_outbox h i)) sv) = acks_lost sv \<and>
      log_leaves i (am_record_dropped (ob_metrics (server_outbox h i)) sv) = log_leaves i sv \<and>
      log_drops (am_record_dropped (ob_metrics (server_outbox h i)) sv) = Suc (log_drops sv)"
    using valid by (simp add: server_outbox_def server_metrics_valid) (simp add: server_metrics_def)
  show "server_valid h i (am_observe_outbox_depth (ob_metrics (server_outbox h i)) used cap sv) \<and>
      acks_lost (am_observe_outbox_depth (ob_metrics (server_outbox h i)) used cap sv) = acks_lost sv \<and>
      log_leaves i (am_observe_outbox_depth (ob_metrics (server_outbox h i)) used cap sv) = log_leaves i sv \<and>
      log_drops (am_observe_outbox_depth (ob_metrics (server_outbox h i)) used cap sv) = log_drops sv"
    using valid by (simp add: server_outbox_def server_metrics_valid) (simp add: server_metrics_def)
next
  fix sv sv' now prev res
  assume valid: "server_valid h i sv" and run: "cs_issuer (server_scheduler j be h st key i) now
    (cs_log (server_scheduler j be h st key i)) prev sv = Some (res, sv')"
  have rescope: "server_valid h i (sv\<lparr>sv_scopes := xs\<rparr>)" for xs using valid by (simp add: server_valid_def)
  let ?issue = "send_issue_checkpoint j be h st now \<lparr>ir_log = i, ir_key = key, ir_previous = prev\<rparr>"
  from run have issue: "dispatch ?issue sv = Some (res, sv')" by (simp add: server_scheduler_def scoped_issue_def)
  have slot: "w_slot (sv_world sv) = None" using valid by (simp add: server_valid_def)
  have "acks_lost sv' \<longrightarrow> acks_lost sv"
    by (intro impI) (rule dispatch_faults [OF issue leaves_idle_issue slot], rule send_issue_checkpoint_faults)
  moreover from issue have "server_valid h i sv' \<and> log_leaves i sv' = log_leaves i sv \<and> log_drops sv' = log_drops sv"
  proof (rule dispatch_cases [OF _ leaves_idle_issue slot])
    fix q w xs
    assume ran: "?issue (sv_world sv) = Some (q, w)" "sv' = sv\<lparr>sv_scopes := xs, sv_world := w\<rparr>"
    with issue_keeps_valid [OF valid ran(1)] show ?thesis by simp
  qed (simp add: rescope)
  ultimately show "server_valid h i sv' \<and> (acks_lost sv' \<longrightarrow> acks_lost sv) \<and> log_leaves i sv' = log_leaves i sv \<and>
      log_drops sv' = log_drops sv" by blast
qed

section \<open>A printer that meets the law\<close>

text \<open>Values printed with a tag for every node, so that no output is a prefix of another.\<close>

fun tagged_chars :: "string \<Rightarrow> string" where
  "tagged_chars [] = ''e''"
| "tagged_chars (c # s) = CHR ''c'' # c # tagged_chars s"

fun tagged_list :: "string list \<Rightarrow> string" where
  "tagged_list [] = ''e''"
| "tagged_list (s # ss) = CHR ''v'' # s @ tagged_list ss"

fun tagged_number :: "json_number \<Rightarrow> string" where
  "tagged_number (PosInt w) = CHR ''p'' # tagged_chars (replicate (unat w) (CHR ''x''))"
| "tagged_number (NegInt w) = CHR ''m'' # tagged_chars (replicate (unat w) (CHR ''x''))"
| "tagged_number (Float w) = CHR ''d'' # tagged_chars (replicate (unat w) (CHR ''x''))"

primrec tagged :: "json \<Rightarrow> string" where
  "tagged JNull = ''n''"
| "tagged (JBool b) = (if b then ''t'' else ''f'')"
| "tagged (JNumber n) = tagged_number n"
| "tagged (JString s) = CHR ''s'' # tagged_chars s"
| "tagged (JArray items) = CHR ''a'' # tagged_list (map tagged items)"
| "tagged (JObject obj) = CHR ''o'' # tagged_list (map (\<lambda>(k, s). tagged_chars k @ s) (map (map_prod id tagged) obj))"

lemma tagged_chars_prefix: "tagged_chars s @ r = tagged_chars t @ r' \<longleftrightarrow> s = t \<and> r = r'"
  by (induction s arbitrary: t; case_tac t) auto

lemma tagged_list_prefix:
  "(\<And>x y r r'. x \<in> set xs \<Longrightarrow> f x @ r = f y @ r' \<Longrightarrow> x = y \<and> r = r') \<Longrightarrow>
    tagged_list (map f xs) @ r = tagged_list (map f ys) @ r' \<Longrightarrow> xs = ys \<and> r = r'"
proof (induction xs arbitrary: ys)
  case Nil
  then show ?case by (cases ys) simp_all
next
  case (Cons x xs)
  from Cons.prems(2) obtain y zs where ys: "ys = y # zs" by (cases ys) simp_all
  with Cons.prems(2) have "f x @ tagged_list (map f xs) @ r = f y @ tagged_list (map f zs) @ r'" by simp
  with Cons.prems(1) [of x] have x: "x = y" and rest: "tagged_list (map f xs) @ r = tagged_list (map f zs) @ r'" by simp_all
  have "xs = zs \<and> r = r'" by (rule Cons.IH [OF Cons.prems(1) rest]) simp_all
  with x ys show ?case by simp
qed

lemma tagged_number_head:
  "c \<notin> {CHR ''p'', CHR ''m'', CHR ''d''} \<Longrightarrow> tagged_number n @ r \<noteq> c # s"
  "c \<notin> {CHR ''p'', CHR ''m'', CHR ''d''} \<Longrightarrow> c # s \<noteq> tagged_number n @ r"
  by (cases n; auto)+

lemma tagged_number_prefix: "tagged_number n @ r = tagged_number m @ r' \<longleftrightarrow> n = m \<and> r = r'"
  by (cases n; cases m) (auto simp: tagged_chars_prefix word_unat_eq_iff)

lemma tagged_prefix: "tagged v @ r = tagged v' @ r' \<Longrightarrow> v = v' \<and> r = r'"
proof (induction v arbitrary: v' r r')
  case (JNumber n)
  then show ?case by (cases v') (auto simp: tagged_number_prefix tagged_number_head split: if_splits)
next
  case (JArray items)
  then obtain items' where "v' = JArray items'" "tagged_list (map tagged items) @ r = tagged_list (map tagged items') @ r'"
    by (cases v') (auto simp: tagged_number_head split: if_splits)
  moreover from tagged_list_prefix [OF JArray.IH this(2)] have "items = items' \<and> r = r'" by blast
  ultimately show ?case by simp
next
  case (JObject obj)
  let ?f = "\<lambda>x. tagged_chars (fst x) @ tagged (snd x)"
  have obj: "tagged (JObject kvs) = CHR ''o'' # tagged_list (map ?f kvs)" for kvs
    by (simp add: comp_def case_prod_beta)
  from JObject.prems obtain obj' where v': "v' = JObject obj'"
    by (cases v') (auto simp: tagged_number_head split: if_splits)
  with JObject.prems have eq: "tagged_list (map ?f obj) @ r = tagged_list (map ?f obj') @ r'" by (simp only: obj) simp
  have "obj = obj' \<and> r = r'"
  proof (rule tagged_list_prefix [OF _ eq])
    fix x y :: "string \<times> json" and u u'
    assume x: "x \<in> set obj" and "?f x @ u = ?f y @ u'"
    then have k: "fst x = fst y" and t: "tagged (snd x) @ u = tagged (snd y) @ u'" by (simp_all add: tagged_chars_prefix)
    have "snd x = snd y \<and> u = u'" by (rule JObject.IH [OF x _ t]) (cases x; simp)
    with k show "x = y \<and> u = u'" by (simp add: prod_eq_iff)
  qed
  with v' show ?case by simp
next
  case (JString s)
  then show ?case by (cases v') (auto simp: tagged_chars_prefix tagged_number_head split: if_splits)
next
  case JNull
  then show ?case by (cases v') (auto simp: tagged_number_head split: if_splits)
next
  case (JBool b)
  then show ?case by (cases v') (auto simp: tagged_number_head split: if_splits)
qed

lemma json_eq_refl: "json_eq v v"
proof (induction v)
  case (JArray items)
  then show ?case by (intro json_eq.array list.rel_refl_strong)
next
  case (JObject obj)
  have "json_eq x x" if "map_of obj k = Some x" for k x
    by (rule JObject [OF map_of_SomeD [OF that]]) simp
  then show ?case by (intro json_eq.object option.rel_refl_strong) auto
qed (auto intro: json_eq.intros)

definition tagged_serde :: serde where
  "tagged_serde = \<lparr>sj_parse = (\<lambda>_. Inl ''unread''), sj_print = tagged\<rparr>"

lemma tagged_serde_prints_apart: "prints_apart tagged_serde"
  unfolding prints_apart_def tagged_serde_def
  using tagged_prefix [of _ "[]" _ "[]"] json_eq_refl by auto

definition unary_uuid :: "uuid \<Rightarrow> string" where
  "unary_uuid u = replicate (unat u) (CHR ''0'')"

lemma inj_unary_uuid: "inj unary_uuid"
  by (rule injI) (metis unary_uuid_def length_replicate word_unat_eq_iff)

section \<open>Properties\<close>

lemma block_never_sheds:
  "bridge_run sj su mp pol ob cs b0 tr b \<Longrightarrow> pol = FP_Block \<Longrightarrow> Offered c e v (Inl Dropped_Shed) \<notin> set tr"
  by (induction rule: bridge_run.induct) (auto simp: enqueue_def split: if_splits)

text \<open>C6: The audit trail accounts for every decision.  From a store between two commands, however the sink, the outbox and the checkpoint
  scheduler interleave and whatever statements and commits of the database fail, the records taken from the queue followed
  by those still in it are the records of the enqueued decisions in order; the log has grown by the leaf hashes of
  all records whose append was acknowledged, in that order, and of nothing but drained records, hence by exactly the acknowledged
  ones if no acknowledgement of a commit is lost; and the dropped counter has grown by the number of records that were not
  enqueued or whose append was not acknowledged.  Under the blocking policy nothing is shed.\<close>

theorem audit_trail_accounts:
  assumes "bridge_run sj su mp pol (server_outbox h i) (server_scheduler j be h st key i) b0 tr b"
    and "mpsc_laws mp q" and "q (br_chan b0) = []" and "server_valid h i (br_state b0)"
  shows "map (record_of sj su) (over enqueued_of tr) = over drained_of tr @ q (br_chan b) \<and>
    (\<exists>rs. log_leaves i (br_state b) = log_leaves i (br_state b0) @ map (\<lambda>r. dg_bytes (leaf h r)) rs \<and>
      subseq (over logged_of tr) rs \<and> subseq rs (over drained_of tr) \<and>
      (no_unacked (w_faults (sv_world (br_state b0))) \<longrightarrow> rs = over logged_of tr)) \<and>
    log_drops (br_state b) = log_drops (br_state b0) + length (filter is_loss tr) \<and>
    (pol = FP_Block \<longrightarrow> (\<forall>c e v. Offered c e v (Inl Dropped_Shed) \<notin> set tr))"
  using server_bridge.run_accounts [OF assms] block_never_sheds [OF assms(1)] by blast

text \<open>A channel that meets the laws: a list of at most two records.\<close>

definition demo_mpsc :: "bytes list mpsc" where
  "demo_mpsc =
    \<lparr>mp_send = (\<lambda>r ch. if 2 \<le> length ch then None else Some (True, ch @ [r])),
     mp_try_send = (\<lambda>r ch. if 2 \<le> length ch then (TS_Full, ch) else (TS_Sent, ch @ [r])),
     mp_recv = (\<lambda>ch. case ch of [] \<Rightarrow> None | r # rs \<Rightarrow> Some (Some r, rs)),
     mp_capacity = (\<lambda>ch. 2 - length ch), mp_max_capacity = (\<lambda>_. 2), mp_close = (\<lambda>ch. ch)\<rparr>"

lemma demo_mpsc_laws: "mpsc_laws demo_mpsc (\<lambda>ch. ch)"
  by (simp add: mpsc_laws_def demo_mpsc_def split: list.split)

abbreviation demo_record :: bytes where
  "demo_record \<equiv> encode_record tagged_serde unary_uuid demo_context (E_Opaque Raw) V_Allow"

definition demo_bridge :: "world \<Rightarrow> string option list \<Rightarrow> (bytes list, server) bridge" where
  "demo_bridge w scopes = \<lparr>br_chan = [], br_state = \<lparr>sv_world = w, sv_scopes = scopes, sv_depths = []\<rparr>, br_last = None\<rparr>"

lemma demo_bridge_chan [simp]: "br_chan (demo_bridge w xs) = []"
  by (simp add: demo_bridge_def)

lemma demo_bridge_valid: "server_valid h i (br_state (demo_bridge (demo_world []) xs))"
  using demo_contiguous [of "[]"]
  by (simp add: demo_bridge_def server_valid_def anchors_true_def) (simp add: demo_db_def)

abbreviation demo_run_of ::
    "world \<Rightarrow> string option list \<Rightarrow> bridge_event list \<Rightarrow> (bytes list, server) bridge \<Rightarrow> bool" where
  "demo_run_of w scopes \<equiv> bridge_run tagged_serde unary_uuid demo_mpsc FP_Block (server_outbox demo_hasher 7)
    (server_scheduler demo_jiff demo_ed25519 demo_hasher None ''k'' 7) (demo_bridge w scopes)"

abbreviation demo_offered :: bridge_event where
  "demo_offered \<equiv> Offered demo_context (E_Opaque Raw) V_Allow (Inr ())"

lemma demo_offer:
  obtains b where "demo_run_of w scopes [demo_offered] b" "br_chan b = [demo_record]"
    "sv_world (br_state b) = w" "sv_scopes (br_state b) = scopes"
proof -
  let ?b = "(demo_bridge w scopes)\<lparr>br_chan := [demo_record],
    br_state := (br_state (demo_bridge w scopes))\<lparr>sv_depths := [(0, 2)]\<rparr>\<rparr>"
  have "demo_run_of w scopes ([] @ [demo_offered]) ?b"
    by (rule bridge_run.offer [OF bridge_run.start, where ch = "[demo_record]"])
      (simp_all add: enqueue_def sink_record_def Let_def demo_mpsc_def demo_bridge_def
        server_outbox_def server_metrics_def)
  then show thesis by (intro that [of ?b]) (simp_all add: demo_bridge_def)
qed

lemma demo_append_any: "\<exists>w'. send_append_record demo_hasher (7, r) (demo_world []) = Some (Inr 0, w')"
  by (simp add: demo_run)

lemma demo_drain: "\<exists>b. demo_run_of (demo_world []) [] [demo_offered, Drained demo_record (Inr 0)] b"
proof -
  obtain b where b: "demo_run_of (demo_world []) [] [demo_offered] b" "br_chan b = [demo_record]"
      "sv_world (br_state b) = demo_world []" "sv_scopes (br_state b) = []" by (rule demo_offer)
  obtain w where w: "send_append_record demo_hasher (7, demo_record) (demo_world []) = Some (Inr 0, w)"
    using demo_append_any by blast
  have "w_slot w = None" using send_append_record_Inr [OF w] by (simp add: demo_world_def)
  let ?s = "(br_state b)\<lparr>sv_world := w\<rparr>"
  have ap: "ob_appender (server_outbox demo_hasher 7) (ob_log (server_outbox demo_hasher 7)) demo_record (br_state b) =
      Some (Inr 0, ?s)"
    by (simp add: server_outbox_def scoped_append_def dispatch_def enter_build_def b w \<open>w_slot w = None\<close>)
  then have "outbox_append (server_outbox demo_hasher 7) demo_record (br_state b) = Some ?s"
    by (simp add: outbox_append_def)
  from bridge_run.drain [OF b(1) _ ap this, of "[]"] b(2) show ?thesis by (auto simp: demo_mpsc_def)
qed

theorem audit_trail_accounts_witness:
  "\<exists>b. demo_run_of (demo_world []) [] [demo_offered, Drained demo_record (Inr 0)] b \<and> br_chan b = [] \<and>
    log_leaves 7 (br_state b) = [dg_bytes (leaf demo_hasher demo_record)] \<and> log_drops (br_state b) = 0"
proof -
  obtain b where b: "demo_run_of (demo_world []) [] [demo_offered, Drained demo_record (Inr 0)] b" using demo_drain by blast
  from audit_trail_accounts [OF b demo_mpsc_laws demo_bridge_chan demo_bridge_valid] b show ?thesis
    by (intro exI [of _ b]) (auto simp: demo_bridge_def demo_world_def no_unacked_def)
qed

text \<open>The outbox never stalls: from every reachable state the drain can go on, whatever appends fail, until
  the queue is empty, and then every enqueued decision has been drained in order.\<close>

lemma outbox_drains_queue:
  assumes "bridge_run sj su mp pol (server_outbox h i) (server_scheduler j be h st key i) b0 tr b"
    and "mpsc_laws mp q" and "q (br_chan b0) = []" and "server_valid h i (br_state b0)"
  shows "\<exists>more b'. bridge_run sj su mp pol (server_outbox h i) (server_scheduler j be h st key i) b0 (tr @ more) b' \<and>
    q (br_chan b') = [] \<and> over drained_of (tr @ more) = map (record_of sj su) (over enqueued_of tr)"
proof -
  from server_bridge.queue_drains [OF assms(2-4,1)] obtain more b' where
    m: "bridge_run sj su mp pol (server_outbox h i) (server_scheduler j be h st key i) b0 (tr @ more) b'"
      "q (br_chan b') = []" "over enqueued_of more = []" by blast
  from server_bridge.run_accounts [OF m(1) assms(2-4)] m(2,3)
  have "over drained_of (tr @ more) = map (record_of sj su) (over enqueued_of tr)" by simp
  with m show ?thesis by blast
qed

lemma qg_consistency_proof_idle:
  assumes "w_faults w = []" and "find_log (w_db w) i \<noteq> None"
    and "length (leaves_of (w_db w) i) \<le> 2 ^ 63" and "0 < m" and "m \<le> length (leaves_of (w_db w) i)"
  shows "qg_consistency_proof h i (word_of_nat m) w = Some (Inr
    \<lparr>cv_proof = \<lparr>cp_first_size = word_of_nat m, cp_second_size = word_of_nat (length (leaves_of (w_db w) i)),
        cp_path = spec_subproof h m (digests_of h (w_db w) i) True\<rparr>,
     cv_old_root = mth h (take m (digests_of h (w_db w) i)), cv_new_root = mth h (digests_of h (w_db w) i)\<rparr>, w)"
proof -
  let ?ds = "digests_of h (w_db w) i"
  have len: "length ?ds = length (leaves_of (w_db w) i)" by (simp add: digests_of_def)
  have ds: "length ?ds \<le> 2 ^ 63" "m \<le> length ?ds" using assms(3,5) unfolding len by simp_all
  then have tk: "length (take m ?ds) \<le> 2 ^ 63" by simp
  have "unat (word_of_nat m :: 64 word) = m"
    using ds(2) le_2_63_less [OF ds(1)] by (intro unat_word_of_nat64) linarith
  with assms(1,2) show ?thesis
    unfolding qg_consistency_proof_def
    by (simp add: pool_read_idle qg_leaves_idle op_bind_def op_run_def
        consistency_eq [OF ds(1) assms(4) ds(2)] merkle_root_eq [OF ds(1)] merkle_root_eq [OF tk] ok_or_def len)
qed

text \<open>C13: An anchored checkpoint stays provable.  From a store between two commands, whatever was offered, drained and
  anchored since and whatever failed, lost acknowledgements included, for every anchored checkpoint of the log that covers at
  least one leaf the consistency-proof query at its size, when the store answers, gives a view whose old root is the anchored root and whose proof \<^verbatim>\<open>verify_consistency\<close> accepts against the
  root of the log as it is now.\<close>

theorem anchored_checkpoints_stay_provable:
  assumes "bridge_run sj su mp pol (server_outbox h i) (server_scheduler j be h st key i) b0 tr b"
    and "mpsc_laws mp q" and "q (br_chan b0) = []" and "server_valid h i (br_state b0)"
    and "w = sv_world (br_state b)" and "w_faults w = []" and "find_log (w_db w) i \<noteq> None"
    and "a \<in> set (db_checkpoints (w_db w))" and "cr_log a = i" and "0 < cr_size a"
  shows "\<exists>v. send_consistency_proof h (i, cr_size a) w = Some (Inr v, w) \<and>
    dg_bytes (cv_old_root v) = cr_root a \<and> merkle_root h (digests_of h (w_db w) i) = Some (cv_new_root v) \<and>
    verify_consistency h (cv_proof v) (cv_old_root v) (cv_new_root v) = Some True"
proof -
  have "server_valid h i (br_state b)" using server_bridge.run_accounts [OF assms(1-4)] by blast
  then have bound: "length (leaves_of (w_db w) i) \<le> 2 ^ 63"
    and at: "unat (cr_size a) \<le> length (leaves_of (w_db w) i)"
      "cr_root a = dg_bytes (mth h (take (unat (cr_size a)) (digests_of h (w_db w) i)))"
    using assms(5,8,9) unfolding server_valid_def anchors_true_def list_all_iff by blast+
  have pos: "0 < unat (cr_size a)" using assms(10) by (simp add: unat_gt_0)
  have len: "length (digests_of h (w_db w) i) = length (leaves_of (w_db w) i)" by (simp add: digests_of_def)
  have ds: "length (digests_of h (w_db w) i) \<le> 2 ^ 63" "unat (cr_size a) \<le> length (digests_of h (w_db w) i)"
    using bound at(1) unfolding len by simp_all
  from qg_consistency_proof_idle [OF assms(6,7) bound pos at(1), of h] verify_generated_consistency [OF ds(1) pos ds(2), of h]
    merkle_root_eq [OF ds(1), of h] at(2)
  show ?thesis unfolding send_proof_unfold by (simp add: len del: length_leaves_of)
qed

definition demo_anchor :: checkpoint_row where
  "demo_anchor = \<lparr>cr_log = 7, cr_size = 1, cr_root = [9], cr_root_algo = 1, cr_issued = 0, cr_sig_algo = 1,
     cr_key_id = ''k'', cr_signature = []\<rparr>"

definition demo_anchored :: world where
  "demo_anchored =
    (demo_world [])\<lparr>w_db := demo_db\<lparr>db_leaves := [\<lparr>lf_log = 7, lf_index = 0, lf_hash = [9]\<rparr>], db_checkpoints := [demo_anchor]\<rparr>\<rparr>"

lemma demo_anchored_simps:
  "w_slot demo_anchored = None" "w_faults demo_anchored = []" "leaves_of (w_db demo_anchored) 7 = [[9]]"
  "db_checkpoints (w_db demo_anchored) = [demo_anchor]" "find_log (w_db demo_anchored) 7 \<noteq> None"
  by (simp_all add: demo_anchored_def demo_db_def leaves_of_def rows_of_def find_log_def)

lemma demo_anchored_valid: "server_valid demo_hasher 7 (br_state (demo_bridge demo_anchored xs))"
proof -
  have "contiguous (w_db demo_anchored) k" for k
    by (simp add: contiguous_def demo_anchored_def rows_of_def) auto
  then show ?thesis
    by (simp add: server_valid_def demo_bridge_def demo_anchored_simps anchors_true_def digests_of_def demo_anchor_def)
qed

theorem anchored_checkpoints_stay_provable_witness:
  "\<exists>b v. demo_run_of demo_anchored [] [demo_offered] b \<and>
    send_consistency_proof demo_hasher (7, 1) (sv_world (br_state b)) = Some (Inr v, sv_world (br_state b)) \<and>
    dg_bytes (cv_old_root v) = [9] \<and>
    verify_consistency demo_hasher (cv_proof v) (cv_old_root v) (cv_new_root v) = Some True"
proof -
  obtain b where b: "demo_run_of demo_anchored [] [demo_offered] b" "sv_world (br_state b) = demo_anchored"
    by (rule demo_offer)
  have a: "demo_anchor \<in> set (db_checkpoints (w_db demo_anchored))" "cr_log demo_anchor = 7" "0 < cr_size demo_anchor"
    by (simp_all add: demo_anchored_simps demo_anchor_def)
  from anchored_checkpoints_stay_provable [OF b(1) demo_mpsc_laws demo_bridge_chan demo_anchored_valid b(2) [symmetric]
      demo_anchored_simps(2,5) a] b
  show ?thesis by (auto simp: demo_anchor_def)
qed

text \<open>C37: A record says exactly who was judged and how: two records are equal if and only if they are of the same
  session and run, the same event, and verdicts of the same kind.  The reason of a denial and the replacement
  of a transformed event are not part of it.\<close>

theorem record_determines_decision:
  assumes "prints_apart sj" and "inj su" and "usize_sized e" and "usize_sized e'"
  shows "encode_record sj su c e v = encode_record sj su c' e' v' \<longleftrightarrow>
    c = c' \<and> e = e' \<and> verdict_label v = verdict_label v'"
  by (rule encode_record_eq [OF assms])

theorem record_determines_decision_witness:
  "encode_record tagged_serde unary_uuid demo_context (E_ToolCall ''1'' ''ls'' ''{}'') (V_Deny ''a'') =
     encode_record tagged_serde unary_uuid demo_context (E_ToolCall ''1'' ''ls'' ''{}'') (V_Deny ''b'') \<and>
   encode_record tagged_serde unary_uuid demo_context (E_ToolCall ''1'' ''ls'' ''{}'') (V_Deny ''a'') \<noteq>
     encode_record tagged_serde unary_uuid demo_context (E_ToolCall ''1'' ''ls'' ''{}'') V_Allow"
  using record_determines_decision [OF tagged_serde_prints_apart inj_unary_uuid, of "E_ToolCall ''1'' ''ls'' ''{}''"
      "E_ToolCall ''1'' ''ls'' ''{}''" demo_context "V_Deny ''a''" demo_context]
  by simp

end
