(* ===== verification/Server_Config.thy ===== *)
theory Server_Config
  imports Policy_Adapters Ingress Audit_Bridge
begin

text \<open>
  The server's configuration (\<^verbatim>\<open>crates/agate-server/src/setup/configs\<close>): the sections of the file, the checks each
  makes at startup, and how the application configuration is mapped onto the proxy, the policy ruleset, the store
  and the audit bridge.  Reading and layering the file is the loader's; the parsed sections are the
  input here.  Which policy engines were compiled in is the argument \<^verbatim>\<open>ft\<close>.
\<close>

section \<open>Errors\<close>

datatype config_error =
    Required string string
  | MustBePositive string
  | Requires string string
  | FeatureMissing string string

fun show_config_error :: "config_error \<Rightarrow> string" where
  \<open>show_config_error (Required key hint) =
    (if hint = [] then key @ '' is required'' else key @ '' is required '' @ hint)\<close>
| \<open>show_config_error (MustBePositive key) = key @ '' must be greater than 0''\<close>
| \<open>show_config_error (Requires key requires) = key @ '' requires '' @ requires\<close>
| \<open>show_config_error (FeatureMissing backend feature) =
    ''policy.backend = "'' @ backend @ ''" requires building agate-server with the `'' @ feature @ ''` feature''\<close>

record features =
  ft_policy_cel :: bool
  ft_policy_rego :: bool

text \<open>\<^verbatim>\<open>Option::is_none_or(|s| s.trim().is_empty())\<close>.\<close>

definition blank :: "string option \<Rightarrow> bool" where
  "blank x = (case x of None \<Rightarrow> True | Some s \<Rightarrow> trim s = [])"

section \<open>The proxy section\<close>

record proxy_section =
  ps_agent_endpoint :: string
  ps_bind :: string
  ps_connect_timeout_secs :: nat
  ps_read_timeout_secs :: nat
  ps_max_body_bytes :: nat
  ps_api_key :: "string option"
  ps_api_keys :: "string list"
  ps_max_concurrent_requests :: nat
  ps_max_response_events :: nat
  ps_max_response_bytes :: nat
  ps_max_frame_bytes :: nat
  ps_rate_limit_per_second :: nat
  ps_rate_limit_burst :: nat

definition validate_proxy :: "proxy_section \<Rightarrow> (config_error, unit) result" where
  "validate_proxy s =
    (if trim (ps_agent_endpoint s) = [] then
       Inl (Required ''proxy.agent_endpoint'' ''(set [proxy].agent_endpoint or AGATE__PROXY__AGENT_ENDPOINT)'')
     else if ps_max_body_bytes s = 0 then Inl (MustBePositive ''proxy.max_body_bytes'')
     else if ps_connect_timeout_secs s = 0 then Inl (MustBePositive ''proxy.connect_timeout_secs'')
     else if ps_read_timeout_secs s = 0 then Inl (MustBePositive ''proxy.read_timeout_secs'')
     else if ps_max_concurrent_requests s = 0 then Inl (MustBePositive ''proxy.max_concurrent_requests'')
     else if ps_max_frame_bytes s = 0 then Inl (MustBePositive ''proxy.max_frame_bytes'')
     else if ps_rate_limit_per_second s = 0 \<and> ps_rate_limit_burst s \<noteq> 0 then
       Inl (Requires ''proxy.rate_limit_burst'' ''proxy.rate_limit_per_second > 0'')
     else Inr ())"

definition proxy_section_default :: proxy_section where
  "proxy_section_default =
    \<lparr>ps_agent_endpoint = [], ps_bind = ''0.0.0.0:8080'', ps_connect_timeout_secs = 5, ps_read_timeout_secs = 60,
     ps_max_body_bytes = 2 ^ 20, ps_api_key = None, ps_api_keys = [], ps_max_concurrent_requests = 256,
     ps_max_response_events = 100000, ps_max_response_bytes = 64 * 2 ^ 20, ps_max_frame_bytes = 2 ^ 20,
     ps_rate_limit_per_second = 0, ps_rate_limit_burst = 0\<rparr>"

section \<open>The audit section\<close>

datatype on_full = OF_Block | OF_Shed

datatype audit_backend = AB_Postgres

record audit_section =
  as_backend :: audit_backend
  as_database_url :: string
  as_max_connections :: nat
  as_acquire_timeout_secs :: nat
  as_connect_max_retries :: nat
  as_connect_backoff_secs :: nat
  as_checkpoint_interval_secs :: nat
  as_checkpoint_key_id :: string
  as_outbox_capacity :: nat
  as_outbox_on_full :: on_full

definition validate_postgres :: "audit_section \<Rightarrow> (config_error, unit) result" where
  "validate_postgres s =
    (if trim (as_database_url s) = [] then
       Inl (Required ''audit.database_url'' ''(set [audit].database_url or AGATE__AUDIT__DATABASE_URL)'')
     else if as_max_connections s = 0 then Inl (MustBePositive ''audit.max_connections'')
     else if as_acquire_timeout_secs s = 0 then Inl (MustBePositive ''audit.acquire_timeout_secs'')
     else if as_connect_backoff_secs s = 0 then Inl (MustBePositive ''audit.connect_backoff_secs'')
     else Inr ())"

definition validate_audit :: "audit_section \<Rightarrow> (config_error, unit) result" where
  "validate_audit s =
    (if as_outbox_capacity s = 0 then Inl (MustBePositive ''audit.outbox_capacity'')
     else case as_backend s of AB_Postgres \<Rightarrow> validate_postgres s)"

definition audit_section_default :: audit_section where
  "audit_section_default =
    \<lparr>as_backend = AB_Postgres, as_database_url = [], as_max_connections = 10, as_acquire_timeout_secs = 30,
     as_connect_max_retries = 10, as_connect_backoff_secs = 1, as_checkpoint_interval_secs = 0,
     as_checkpoint_key_id = ''checkpoint-ed25519'', as_outbox_capacity = 1024, as_outbox_on_full = OF_Block\<rparr>"

section \<open>The policy section\<close>

datatype policy_backend_kind = BK_Ruleset | BK_Cel | BK_Rego

record cel_section =
  ce_policy_path :: "string option"
  ce_watch :: bool
  ce_max_rules :: nat

definition cel_section_default :: cel_section where
  "cel_section_default = \<lparr>ce_policy_path = None, ce_watch = False, ce_max_rules = 1000\<rparr>"

record rego_section =
  rg_policy_path :: "string option"
  rg_watch :: bool

datatype session_memory_backend_kind = MK_Memory | MK_Redis

record session_memory_section =
  se_enabled :: bool
  se_ttl_secs :: nat
  se_backend :: session_memory_backend_kind
  se_redis_url :: "string option"

definition session_memory_section_default :: session_memory_section where
  "session_memory_section_default =
    \<lparr>se_enabled = False, se_ttl_secs = 3600, se_backend = MK_Memory, se_redis_url = None\<rparr>"

datatype malformed_mode = ME_Forward | ME_Drop | ME_Terminate

datatype policy_fail_mode = PF_Open | PF_Closed

datatype tool_mode = TM_AllowAll | TM_Allowlist | TM_Denylist

text \<open>One entry of \<^verbatim>\<open>deny_arguments\<close> or \<^verbatim>\<open>deny_results\<close>: the two structures have the same fields.\<close>

record deny_rule_config =
  dr_tool :: "string option"
  dr_path :: "string option"
  dr_contains :: "string option"
  dr_matches :: "string option"

record tools_section =
  to_mode :: tool_mode
  to_names :: "string list"
  to_deny_arguments :: "deny_rule_config list"
  to_deny_results :: "deny_rule_config list"

record policy_section =
  po_tools :: tools_section
  po_redact :: "string list"
  po_redact_regex :: "string list"
  po_fail_mode :: policy_fail_mode
  po_decision_timeout_ms :: nat
  po_on_malformed_event :: malformed_mode
  po_session_memory :: session_memory_section
  po_backend :: policy_backend_kind
  po_cel :: cel_section
  po_rego :: rego_section

definition validate_policy :: "features \<Rightarrow> policy_section \<Rightarrow> (config_error, unit) result" where
  \<open>validate_policy ft s =
    (if po_decision_timeout_ms s = 0 then Inl (MustBePositive ''policy.decision_timeout_ms'')
     else if po_backend s = BK_Cel \<and> \<not> ft_policy_cel ft then Inl (FeatureMissing ''cel'' ''policy-cel'')
     else if po_backend s = BK_Cel \<and> blank (ce_policy_path (po_cel s)) then
       Inl (Required ''policy.cel.policy_path'' ''when backend = "cel"'')
     else if po_backend s = BK_Cel \<and> ce_max_rules (po_cel s) = 0 then Inl (MustBePositive ''policy.cel.max_rules'')
     else if po_backend s = BK_Rego \<and> \<not> ft_policy_rego ft then Inl (FeatureMissing ''rego'' ''policy-rego'')
     else if po_backend s = BK_Rego \<and> blank (rg_policy_path (po_rego s)) then
       Inl (Required ''policy.rego.policy_path'' ''when backend = "rego"'')
     else if se_enabled (po_session_memory s) \<and> se_ttl_secs (po_session_memory s) = 0 then
       Inl (MustBePositive ''policy.session_memory.ttl_secs'')
     else if se_enabled (po_session_memory s) \<and> se_backend (po_session_memory s) = MK_Redis \<and>
         blank (se_redis_url (po_session_memory s)) then
       Inl (Required ''policy.session_memory.redis_url'' ''when backend = "redis"'')
     else Inr ())\<close>

definition policy_section_default :: policy_section where
  "policy_section_default =
    \<lparr>po_tools = \<lparr>to_mode = TM_AllowAll, to_names = [], to_deny_arguments = [], to_deny_results = []\<rparr>,
     po_redact = [], po_redact_regex = [], po_fail_mode = PF_Closed, po_decision_timeout_ms = 5000,
     po_on_malformed_event = ME_Terminate, po_session_memory = session_memory_section_default,
     po_backend = BK_Ruleset, po_cel = cel_section_default, po_rego = \<lparr>rg_policy_path = None, rg_watch = False\<rparr>\<rparr>"

section \<open>Deny rules\<close>

definition scoped :: "(string \<Rightarrow> (policy_error, 'a) result) \<Rightarrow> string option \<Rightarrow> (string, 'a option) result" where
  "scoped build x =
    (case map_option trim x of
       None \<Rightarrow> Inr None
     | Some s \<Rightarrow> if s = [] then Inr None else and_then (map_err show_policy_error (build s)) (\<lambda>v. Inr (Some v)))"

definition rule_parts ::
    "regex_engine \<Rightarrow> deny_rule_config \<Rightarrow> string \<Rightarrow> (string, string option \<times> json_path option \<times> pattern) result" where
  "rule_parts rx cfg kind =
    and_then (scoped tool_name_new (dr_tool cfg)) (\<lambda>tool.
    and_then (scoped jp_parse (dr_path cfg)) (\<lambda>path.
    and_then
      (case (dr_contains cfg, dr_matches cfg) of
         (Some literal, None) \<Rightarrow> map_err show_policy_error (pattern_literal literal)
       | (None, Some regex) \<Rightarrow> map_err show_policy_error (pattern_regex rx regex)
       | (Some _, Some _) \<Rightarrow> Inl (''a '' @ kind @ '' rule sets exactly one of `contains` or `matches`, not both'')
       | (None, None) \<Rightarrow> Inl (''a '' @ kind @ '' rule needs `contains` or `matches`''))
      (\<lambda>marker. Inr (tool, path, marker))))"

definition deny_match :: "string option \<times> json_path option \<times> pattern \<Rightarrow> content_match" where
  "deny_match x =
    (case x of (tool, path, marker) \<Rightarrow>
       case path of Some p \<Rightarrow> cm_with_path (cm_new tool marker) p | None \<Rightarrow> cm_new tool marker)"

definition argument_to_rule :: "regex_engine \<Rightarrow> deny_rule_config \<Rightarrow> (string, argument_rule) result" where
  "argument_to_rule rx cfg = and_then (rule_parts rx cfg ''deny_arguments'') (\<lambda>x. Inr (ArgumentRule (deny_match x)))"

definition result_to_rule :: "regex_engine \<Rightarrow> deny_rule_config \<Rightarrow> (string, result_rule) result" where
  "result_to_rule rx cfg = and_then (rule_parts rx cfg ''deny_results'') (\<lambda>x. Inr (ResultRule (deny_match x)))"

section \<open>The observability section\<close>

record tracing_config =
  tr_enabled :: bool
  tr_endpoint :: string
  tr_service_name :: string

definition tracing_config_default :: tracing_config where
  "tracing_config_default =
    \<lparr>tr_enabled = False, tr_endpoint = ''http://localhost:4317'', tr_service_name = ''agate-server''\<rparr>"

datatype log_format = LF_Pretty | LF_Json

record logging_config =
  lo_enabled :: bool
  lo_format :: log_format
  lo_level :: string

definition logging_config_default :: logging_config where
  "logging_config_default = \<lparr>lo_enabled = True, lo_format = LF_Pretty, lo_level = ''info''\<rparr>"

datatype metrics_exporter = MX_Prometheus | MX_None

record metrics_config =
  mc_enabled :: bool
  mc_exporter :: metrics_exporter
  mc_bind :: string

definition metrics_config_default :: metrics_config where
  "metrics_config_default = \<lparr>mc_enabled = False, mc_exporter = MX_Prometheus, mc_bind = ''0.0.0.0:9090''\<rparr>"

record observability_config =
  ob_logging :: logging_config
  ob_metrics_section :: metrics_config
  ob_tracing :: tracing_config

definition observability_config_default :: observability_config where
  "observability_config_default =
    \<lparr>ob_logging = logging_config_default, ob_metrics_section = metrics_config_default, ob_tracing = tracing_config_default\<rparr>"

section \<open>The application configuration\<close>

record tls_config =
  tls_enabled :: bool
  tls_cert :: string
  tls_key :: string

definition validate_tls :: "tls_config \<Rightarrow> (config_error, unit) result" where
  "validate_tls t =
    (if tls_enabled t \<and> (trim (tls_cert t) = [] \<or> trim (tls_key t) = []) then
       Inl (Required ''tls.cert and tls.key'' ''when tls.enabled (paths to the PEM certificate chain and private key)'')
     else Inr ())"

record app_config =
  ac_proxy :: proxy_section
  ac_audit :: audit_section
  ac_policy :: policy_section
  ac_observability :: observability_config
  ac_tls :: tls_config

definition app_config_default :: app_config where
  "app_config_default =
    \<lparr>ac_proxy = proxy_section_default, ac_audit = audit_section_default, ac_policy = policy_section_default,
     ac_observability = observability_config_default, ac_tls = \<lparr>tls_enabled = False, tls_cert = [], tls_key = []\<rparr>\<rparr>"

text \<open>The loader, over the layering library: the defaults, then the file, then the prefixed environment
  variables, later layers taking precedence.\<close>

record 'f figment =
  fg_from :: "app_config \<Rightarrow> 'f"
  fg_toml_file :: "string \<Rightarrow> 'f"
  fg_env :: "string \<Rightarrow> string \<Rightarrow> 'f"
  fg_merge :: "'f \<Rightarrow> 'f \<Rightarrow> 'f"
  fg_extract :: "'f \<Rightarrow> (string, app_config) result"

definition DEFAULT_PATH :: string where
  "DEFAULT_PATH = ''/etc/agate/agate.toml''"

definition layered_figment :: "'f figment \<Rightarrow> 'f \<Rightarrow> 'f" where
  "layered_figment fg doc = fg_merge fg (fg_merge fg (fg_from fg app_config_default) doc) (fg_env fg ''AGATE__'' ''__'')"

definition load :: "'f figment \<Rightarrow> (string \<rightharpoonup> string) \<Rightarrow> (string, app_config) result" where
  "load fg vars =
    (let path = (case vars ''AGATE_CONFIG'' of Some p \<Rightarrow> p | None \<Rightarrow> DEFAULT_PATH) in
     fg_extract fg (layered_figment fg (fg_toml_file fg path)))"

definition validate_app :: "features \<Rightarrow> app_config \<Rightarrow> (config_error, unit) result" where
  "validate_app ft a =
    and_then (validate_proxy (ac_proxy a)) (\<lambda>_.
    and_then (validate_audit (ac_audit a)) (\<lambda>_.
    and_then (validate_policy ft (ac_policy a)) (\<lambda>_. validate_tls (ac_tls a))))"

definition app_tls_config :: "app_config \<Rightarrow> tls_config option" where
  "app_tls_config a = (if tls_enabled (ac_tls a) then Some (ac_tls a) else None)"

definition app_malformed_event_mode :: "app_config \<Rightarrow> malformed_event_mode" where
  "app_malformed_event_mode a =
    (case po_on_malformed_event (ac_policy a) of
       ME_Forward \<Rightarrow> MM_Forward | ME_Drop \<Rightarrow> MM_Drop | ME_Terminate \<Rightarrow> MM_Terminate)"

definition app_session_memory :: "app_config \<Rightarrow> session_memory_config option" where
  "app_session_memory a =
    (let s = po_session_memory (ac_policy a) in
     if \<not> se_enabled s then None
     else Some \<lparr>sm_backend =
        (case se_backend s of
           MK_Memory \<Rightarrow> SM_InMemory
         | MK_Redis \<Rightarrow> SM_Redis (case se_redis_url s of None \<Rightarrow> [] | Some url \<Rightarrow> url)),
        sm_ttl = se_ttl_secs s\<rparr>)"

definition app_api_keys :: "app_config \<Rightarrow> string list" where
  "app_api_keys a =
    filter (\<lambda>key. key \<noteq> [])
      (map trim ((case ps_api_key (ac_proxy a) of None \<Rightarrow> [] | Some k \<Rightarrow> [k]) @ ps_api_keys (ac_proxy a)))"

definition app_proxy_config :: "app_config \<Rightarrow> proxy_config" where
  "app_proxy_config a =
    (let s = ac_proxy a;
         cfg = with_ingress (proxy_config_new (ps_agent_endpoint s) (ps_bind s)) (ps_connect_timeout_secs s)
           (ps_read_timeout_secs s) (ps_max_body_bytes s) (app_api_keys a);
         cfg = with_concurrency_limit cfg (ps_max_concurrent_requests s);
         cfg = with_malformed_event_mode cfg (app_malformed_event_mode a);
         cfg = with_response_budget cfg
           \<lparr>rb_max_events = ps_max_response_events s, rb_max_bytes = ps_max_response_bytes s\<rparr>;
         cfg = with_max_frame_bytes cfg (ps_max_frame_bytes s);
         cfg = with_rate_limit cfg (ps_rate_limit_per_second s) (ps_rate_limit_burst s) in
     with_session_memory cfg (app_session_memory a))"

record pool_config =
  pl_max_connections :: nat
  pl_acquire_timeout :: nat
  pl_connect_max_retries :: nat
  pl_connect_backoff :: nat

record postgres_config =
  pg_database_url :: string
  pg_pool :: pool_config

datatype storage_config = SC_Postgres postgres_config

definition app_postgres_config :: "app_config \<Rightarrow> postgres_config" where
  "app_postgres_config a =
    \<lparr>pg_database_url = as_database_url (ac_audit a),
     pg_pool = \<lparr>pl_max_connections = as_max_connections (ac_audit a),
       pl_acquire_timeout = as_acquire_timeout_secs (ac_audit a),
       pl_connect_max_retries = as_connect_max_retries (ac_audit a),
       pl_connect_backoff = as_connect_backoff_secs (ac_audit a)\<rparr>\<rparr>"

definition app_storage_config :: "app_config \<Rightarrow> storage_config" where
  "app_storage_config a = (case as_backend (ac_audit a) of AB_Postgres \<Rightarrow> SC_Postgres (app_postgres_config a))"

record outbox_settings =
  os_capacity :: nat
  os_on_full :: full_policy

definition app_outbox_settings :: "app_config \<Rightarrow> outbox_settings" where
  "app_outbox_settings a =
    \<lparr>os_capacity = as_outbox_capacity (ac_audit a),
     os_on_full = (case as_outbox_on_full (ac_audit a) of OF_Block \<Rightarrow> FP_Block | OF_Shed \<Rightarrow> FP_Shed)\<rparr>"

record checkpoint_settings =
  ck_period :: nat
  ck_key :: string

definition app_checkpoint_settings :: "app_config \<Rightarrow> checkpoint_settings option" where
  "app_checkpoint_settings a =
    (if as_checkpoint_interval_secs (ac_audit a) > 0 then
       Some \<lparr>ck_period = as_checkpoint_interval_secs (ac_audit a), ck_key = as_checkpoint_key_id (ac_audit a)\<rparr>
     else None)"

definition app_fail_mode :: "app_config \<Rightarrow> fail_mode" where
  "app_fail_mode a = (case po_fail_mode (ac_policy a) of PF_Open \<Rightarrow> Open | PF_Closed \<Rightarrow> Closed)"

definition app_decision_timeout :: "app_config \<Rightarrow> nat" where
  "app_decision_timeout a = po_decision_timeout_ms (ac_policy a)"

section \<open>The ruleset\<close>

definition strip_prefix :: "string \<Rightarrow> string \<Rightarrow> string option" where
  "strip_prefix pre s = (if take (length pre) s = pre then Some (drop (length pre) s) else None)"

definition parse_tool_matcher :: "regex_engine \<Rightarrow> string \<Rightarrow> (policy_error, tool_matcher) result" where
  "parse_tool_matcher rx e =
    (let e = trim e in
     case strip_prefix ''glob:'' e of
       Some glob \<Rightarrow> tm_glob rx glob
     | None \<Rightarrow>
         (case strip_prefix ''regex:'' e of
            Some regex \<Rightarrow> tm_regex rx regex
          | None \<Rightarrow> tm_exact e))"

definition tool_matchers :: "regex_engine \<Rightarrow> string list \<Rightarrow> (policy_error, tool_matcher list) result" where
  "tool_matchers rx names = collect (parse_tool_matcher rx) names"

definition app_policy_ruleset :: "regex_engine \<Rightarrow> app_config \<Rightarrow> (string, policy_ruleset) result" where
  "app_policy_ruleset rx a =
    (let po = ac_policy a; matchers = map_err show_policy_error (tool_matchers rx (to_names (po_tools po))) in
     and_then
       (case to_mode (po_tools po) of
          TM_AllowAll \<Rightarrow> Inr AllowAll
        | TM_Allowlist \<Rightarrow> and_then matchers (\<lambda>ms. Inr (Allowlist ms))
        | TM_Denylist \<Rightarrow> and_then matchers (\<lambda>ms. Inr (Denylist ms))) (\<lambda>tools.
     and_then (collect (argument_to_rule rx) (to_deny_arguments (po_tools po))) (\<lambda>argument_rules.
     and_then (collect (result_to_rule rx) (to_deny_results (po_tools po))) (\<lambda>result_rules.
     and_then (map_err show_policy_error (collect pattern_literal (po_redact po))) (\<lambda>literals.
     and_then (collect (\<lambda>source. map_err show_policy_error (pattern_regex rx source)) (po_redact_regex po)) (\<lambda>regexes.
       Inr (with_result_rules (ruleset_new tools argument_rules (literals @ regexes)) result_rules)))))))"

section \<open>What a configuration gives\<close>

lemma collect_pattern_literal:
  "collect pattern_literal ms = Inr ps \<longleftrightarrow> ps = map Literal ms \<and> list_all (\<lambda>m. trim m \<noteq> []) ms"
  unfolding collect_Inr
  by (induction ms arbitrary: ps) (auto simp: list_all2_Cons1 pattern_literal_def split: if_splits)

lemma pattern_regex_wf: "pattern_regex rx src = Inr p \<Longrightarrow> wf_pattern p"
  by (auto simp: pattern_regex_def and_then_eq_Inr wf_pattern_def split: if_splits)

lemma map_err_Inr [simp]: "map_err g r = Inr v \<longleftrightarrow> r = Inr v"
  by (cases r) simp_all

lemma app_ruleset_secrets:
  assumes "app_policy_ruleset rx a = Inr rs"
  shows "set (map Literal (po_redact (ac_policy a))) \<subseteq> set (rs_secrets rs)"
    and "list_all wf_pattern (rs_secrets rs)"
proof -
  from assms obtain literals regexes where ls: "collect pattern_literal (po_redact (ac_policy a)) = Inr literals"
    and rg: "collect (\<lambda>source. map_err show_policy_error (pattern_regex rx source)) (po_redact_regex (ac_policy a)) = Inr regexes"
    and s: "rs_secrets rs = literals @ regexes"
    by (auto simp: app_policy_ruleset_def Let_def and_then_eq_Inr with_result_rules_def ruleset_new_def)
  from ls have l: "literals = map Literal (po_redact (ac_policy a))" by (simp add: collect_pattern_literal)
  show "set (map Literal (po_redact (ac_policy a))) \<subseteq> set (rs_secrets rs)" by (simp add: s l)
  have "list_all wf_pattern literals"
    using ls unfolding collect_Inr by (induction rule: list_all2_induct) (auto dest: pattern_literal_wf)
  moreover have "list_all wf_pattern regexes"
    using rg unfolding collect_Inr by (induction rule: list_all2_induct) (auto dest: pattern_regex_wf)
  ultimately show "list_all wf_pattern (rs_secrets rs)" by (simp add: s)
qed

lemma app_proxy_config_fields:
  "pc_max_body_bytes (app_proxy_config a) = ps_max_body_bytes (ac_proxy a)"
  "pc_max_concurrent_requests (app_proxy_config a) = ps_max_concurrent_requests (ac_proxy a)"
  "pc_max_frame_bytes (app_proxy_config a) = ps_max_frame_bytes (ac_proxy a)"
  "pc_connect_timeout (app_proxy_config a) = ps_connect_timeout_secs (ac_proxy a)"
  "pc_read_timeout (app_proxy_config a) = ps_read_timeout_secs (ac_proxy a)"
  "pc_rate_limit_per_second (app_proxy_config a) = ps_rate_limit_per_second (ac_proxy a)"
  "pc_rate_limit_burst (app_proxy_config a) = ps_rate_limit_burst (ac_proxy a)"
  "pc_session_memory (app_proxy_config a) = app_session_memory a"
  "pc_api_keys (app_proxy_config a) = app_api_keys a"
  "pc_malformed_event_mode (app_proxy_config a) = app_malformed_event_mode a"
  by (simp_all add: app_proxy_config_def Let_def with_ingress_def with_concurrency_limit_def with_malformed_event_mode_def
      with_response_budget_def with_max_frame_bytes_def with_rate_limit_def with_session_memory_def)

text \<open>A configuration that passes validation bounds what the running server may use: no limit of the proxy, the outbox
  or the connection loop is zero, replay memory that is on keeps its entries for some time, and a burst
  is configured only with a rate.\<close>

lemma validated_config_bounds:
  assumes "validate_app ft a = Inr ()"
  shows "0 < pc_max_body_bytes (app_proxy_config a)" "0 < pc_max_concurrent_requests (app_proxy_config a)"
    "0 < is_max_frame_bytes (proxy_inspection_settings (app_proxy_config a))"
    "0 < pc_connect_timeout (app_proxy_config a)" "0 < pc_read_timeout (app_proxy_config a)"
    "pc_rate_limit_per_second (app_proxy_config a) = 0 \<Longrightarrow> pc_rate_limit_burst (app_proxy_config a) = 0"
    "0 < os_capacity (app_outbox_settings a)" "0 < pl_connect_backoff (pg_pool (app_postgres_config a))"
    "0 < app_decision_timeout a"
    "pc_session_memory (app_proxy_config a) = Some m \<Longrightarrow> 0 < sm_ttl m"
proof -
  have p: "validate_proxy (ac_proxy a) = Inr ()" and u: "validate_audit (ac_audit a) = Inr ()"
    and o: "validate_policy ft (ac_policy a) = Inr ()"
    using assms by (auto simp: validate_app_def and_then_eq_Inr)
  note v = p [unfolded validate_proxy_def]
  show "0 < pc_max_body_bytes (app_proxy_config a)" "0 < pc_max_concurrent_requests (app_proxy_config a)"
      "0 < is_max_frame_bytes (proxy_inspection_settings (app_proxy_config a))"
      "0 < pc_connect_timeout (app_proxy_config a)" "0 < pc_read_timeout (app_proxy_config a)"
      "pc_rate_limit_per_second (app_proxy_config a) = 0 \<Longrightarrow> pc_rate_limit_burst (app_proxy_config a) = 0"
    using v by (auto simp: app_proxy_config_fields proxy_inspection_settings_def split: if_splits)
  show "0 < os_capacity (app_outbox_settings a)" "0 < pl_connect_backoff (pg_pool (app_postgres_config a))"
    using u by (auto simp: validate_audit_def validate_postgres_def app_outbox_settings_def app_postgres_config_def
        split: if_splits audit_backend.splits)
  show "0 < app_decision_timeout a"
    using o by (auto simp: validate_policy_def app_decision_timeout_def split: if_splits)
  show "0 < sm_ttl m" if "pc_session_memory (app_proxy_config a) = Some m"
    using o that by (auto simp: validate_policy_def app_proxy_config_fields app_session_memory_def Let_def split: if_splits)
qed

end
