(* ===== verification/Policy_Reload.thy ===== *)
theory Policy_Reload
  imports Server_Config
begin

text \<open>
  Choosing and reloading the policy engine (\<^verbatim>\<open>crates/agate-server/src/main.rs\<close> and
  \<^verbatim>\<open>infrastructure/policy/policy_watch.rs\<close>): the engine the configuration asks for, the watch on the policy file,
  and the tasks that reload the engine on a signal or when the file changes.  The file watcher and the
  channel it signals through are parameters; \<^verbatim>\<open>signal_laws\<close> says what is relied on.  A panic at startup is an
  error with its message.
\<close>

section \<open>Engines\<close>

datatype ('p, 'e) policy_engine = PE_Ruleset policy_ruleset | PE_Cel "'p cel_adapter" | PE_Rego "'e rego_adapter"

text \<open>The third-party parts of the engines.\<close>

record ('p, 'v, 'e, 'u) engine_api =
  ea_regex :: regex_engine
  ea_cel :: "('p, 'v) cel_api"
  ea_rego :: "('e, 'u) rego_api"

definition build_cel_policy ::
    "features \<Rightarrow> ('p, 'v, 'e, 'u) engine_api \<Rightarrow> file_system \<Rightarrow> app_config \<Rightarrow> (string, 'p cel_adapter) result" where
  \<open>build_cel_policy ft ea fs a =
    (if \<not> ft_policy_cel ft then
       Inl ''policy.backend = "cel" requires building agate-server with the `policy-cel` feature''
     else
       and_then (ok_or ''validate() requires policy.cel.policy_path when backend = cel'' (ce_policy_path (po_cel (ac_policy a)))) (\<lambda>path.
       map_err (\<lambda>err. ''invalid CEL policy: '' @ err) (cel_load (ea_cel ea) fs path (ce_max_rules (po_cel (ac_policy a))))))\<close>

definition build_rego_policy ::
    "features \<Rightarrow> ('p, 'v, 'e, 'u) engine_api \<Rightarrow> file_system \<Rightarrow> app_config \<Rightarrow> (string, 'e rego_adapter) result" where
  \<open>build_rego_policy ft ea fs a =
    (if \<not> ft_policy_rego ft then
       Inl ''policy.backend = "rego" requires building agate-server with the `policy-rego` feature''
     else
       and_then (ok_or ''validate() requires policy.rego.policy_path when backend = rego'' (rg_policy_path (po_rego (ac_policy a)))) (\<lambda>path.
       map_err (\<lambda>err. ''invalid Rego policy: '' @ err) (rego_load (ea_rego ea) fs path)))\<close>

definition build_policy ::
    "features \<Rightarrow> ('p, 'v, 'e, 'u) engine_api \<Rightarrow> file_system \<Rightarrow> app_config \<Rightarrow> (string, ('p, 'e) policy_engine) result" where
  "build_policy ft ea fs a =
    (case po_backend (ac_policy a) of
       BK_Ruleset \<Rightarrow> and_then (map_err (\<lambda>_. ''invalid policy configuration'') (app_policy_ruleset (ea_regex ea) a)) (\<lambda>rs. Inr (PE_Ruleset rs))
     | BK_Cel \<Rightarrow> and_then (build_cel_policy ft ea fs a) (\<lambda>x. Inr (PE_Cel x))
     | BK_Rego \<Rightarrow> and_then (build_rego_policy ft ea fs a) (\<lambda>x. Inr (PE_Rego x)))"

text \<open>The verdict of the engine; \<^term>\<open>None\<close> is a decision that does not return.\<close>

definition engine_decide ::
    "('p, 'v, 'e, 'u) engine_api \<Rightarrow> serde \<Rightarrow> (uuid \<Rightarrow> string) \<Rightarrow> ('p, 'e) policy_engine \<Rightarrow> inspection_context \<Rightarrow> agent_event \<Rightarrow>
      agent_event verdict option" where
  "engine_decide ea sj sh engine c e =
    (case engine of
       PE_Ruleset rs \<Rightarrow> adapter_decide sj (ea_regex ea) rs c e
     | PE_Cel x \<Rightarrow> Some (cel_decide (ea_cel ea) sj sh x c e)
     | PE_Rego x \<Rightarrow> Some (rego_decide (ea_rego ea) sj sh x c e))"

section \<open>Reloading\<close>

text \<open>\<^verbatim>\<open>ReloadablePolicy::reload_policy\<close> of the two engines that have a file.\<close>

definition reload_policy ::
    "('p, 'v, 'e, 'u) engine_api \<Rightarrow> file_system \<Rightarrow> ('p, 'e) policy_engine \<Rightarrow> (string, unit) result \<times> ('p, 'e) policy_engine" where
  "reload_policy ea fs engine =
    (case engine of
       PE_Ruleset rs \<Rightarrow> (Inr (), PE_Ruleset rs)
     | PE_Cel x \<Rightarrow> (case cel_reload (ea_cel ea) fs x of (r, x') \<Rightarrow> (and_then r (\<lambda>_. Inr ()), PE_Cel x'))
     | PE_Rego x \<Rightarrow> (case rego_reload (ea_rego ea) fs x of (r, x') \<Rightarrow> (r, PE_Rego x')))"

fun engine_path :: "('p, 'e) policy_engine \<Rightarrow> string option" where
  "engine_path (PE_Ruleset rs) = None"
| "engine_path (PE_Cel x) = ca_path x"
| "engine_path (PE_Rego x) = ra_path x"

text \<open>\<^verbatim>\<open>panics\<close> are the sources on which a compiler panics; the panic is confined to the blocking thread and
  nothing was swapped.\<close>

definition source_panics :: "(string \<Rightarrow> bool) \<Rightarrow> file_system \<Rightarrow> string \<Rightarrow> bool" where
  "source_panics panics fs path = (case fs path of Inr source \<Rightarrow> panics source | Inl _ \<Rightarrow> False)"

definition reload_in_place ::
    "('p, 'v, 'e, 'u) engine_api \<Rightarrow> (string \<Rightarrow> bool) \<Rightarrow> file_system \<Rightarrow> ('p, 'e) policy_engine \<Rightarrow> ('p, 'e) policy_engine" where
  "reload_in_place ea panics fs engine =
    (if (case engine_path engine of Some path \<Rightarrow> source_panics panics fs path | None \<Rightarrow> False) then engine
     else snd (reload_policy ea fs engine))"

section \<open>Paths\<close>

text \<open>\<^verbatim>\<open>Path::components\<close> on Unix: empty components and all but a leading \<^verbatim>\<open>.\<close> are skipped.\<close>

datatype path_component = RootDir | CurDir | ParentDir | Normal string

fun split_slash :: "string \<Rightarrow> string \<Rightarrow> string list" where
  "split_slash acc [] = [rev acc]"
| "split_slash acc (c # cs) = (if c = CHR ''/'' then rev acc # split_slash [] cs else split_slash (c # acc) cs)"

definition path_part :: "string \<Rightarrow> path_component option" where
  "path_part s = (if s = [] \<or> s = ''.'' then None else if s = ''..'' then Some ParentDir else Some (Normal s))"

definition path_components :: "string \<Rightarrow> path_component list" where
  "path_components path =
    (let parts = split_slash [] path; body = List.map_filter path_part parts in
     if path \<noteq> [] \<and> hd path = CHR ''/'' then RootDir # body
     else if hd parts = ''.'' then CurDir # body else body)"

definition path_file_name :: "string \<Rightarrow> string option" where
  "path_file_name path = (case rev (path_components path) of Normal name # _ \<Rightarrow> Some name | _ \<Rightarrow> None)"

fun join_slash :: "string list \<Rightarrow> string" where
  "join_slash [] = []"
| "join_slash [s] = s"
| "join_slash (s # ss) = s @ ''/'' @ join_slash ss"

text \<open>The text before the last component, without the separators and dots that end it.\<close>

definition path_parent :: "string \<Rightarrow> string option" where
  "path_parent path =
    (let cs = path_components path; skipped = (\<lambda>s. path_part s = None);
         kept = rev (dropWhile skipped (tl (dropWhile skipped (rev (split_slash [] path))))) in
     if cs = [] \<or> last cs = RootDir then None
     else Some (if kept \<noteq> [] then join_slash kept
       else (case cs of RootDir # _ \<Rightarrow> ''/'' | CurDir # _ # _ \<Rightarrow> ''.'' | _ \<Rightarrow> [])))"

section \<open>The watch\<close>

text \<open>The watcher: creating it, and watching a directory.\<close>

record watcher_api =
  nt_create :: "(string, unit) result"
  nt_watch :: "string \<Rightarrow> (string, unit) result"

text \<open>What is watched: the directory, and the name of the file.\<close>

definition watch :: "watcher_api \<Rightarrow> string \<Rightarrow> (string, string \<times> string) result" where
  "watch nt path =
    (let directory = (case path_parent path of Some parent \<Rightarrow> if parent \<noteq> [] then parent else ''.'' | None \<Rightarrow> ''.'') in
     and_then (ok_or (''policy path '' @ [CHR 0x27] @ path @ [CHR 0x27] @ '' has no file name to watch'') (path_file_name path)) (\<lambda>name.
     and_then (map_err (\<lambda>err. ''cannot create the policy watcher: '' @ err) (nt_create nt)) (\<lambda>_.
     and_then (map_err (\<lambda>err. ''cannot watch '' @ [CHR 0x27] @ directory @ [CHR 0x27] @ '': '' @ err) (nt_watch nt directory)) (\<lambda>_.
       Inr (directory, name)))))"

text \<open>The channel of change signals: sending never waits, \<^verbatim>\<open>sg_recv\<close> is \<^term>\<open>None\<close> while the task waits and
  says whether it got a signal or the channel was closed, and \<^verbatim>\<open>sg_try_recv\<close> is \<^term>\<open>None\<close> when nothing is queued.\<close>

record 'c signal_channel =
  sg_try_send :: "'c \<Rightarrow> 'c"
  sg_recv :: "'c \<Rightarrow> (bool \<times> 'c) option"
  sg_try_recv :: "'c \<Rightarrow> 'c option"

text \<open>The callback: an event is an error or the paths that changed.\<close>

type_synonym watch_event = "(string, string list) result"

definition concerns :: "string \<Rightarrow> watch_event \<Rightarrow> bool" where
  "concerns name ev = (case ev of Inl _ \<Rightarrow> False | Inr paths \<Rightarrow> list_ex (\<lambda>p. path_file_name p = Some name) paths)"

definition on_watch_event :: "'c signal_channel \<Rightarrow> string \<Rightarrow> watch_event \<Rightarrow> 'c \<Rightarrow> 'c" where
  "on_watch_event sg name ev ch = (if concerns name ev then sg_try_send sg ch else ch)"

partial_function (option) drain_signals :: "'c signal_channel \<Rightarrow> 'c \<Rightarrow> 'c option" where
  "drain_signals sg ch = (case sg_try_recv sg ch of None \<Rightarrow> Some ch | Some ch' \<Rightarrow> drain_signals sg ch')"

section \<open>The reload tasks\<close>

record reload_tasks =
  rt_sighup :: bool
  rt_watch :: bool

text \<open>Which reload tasks run: the signal handler if it could be installed, the watch if it is configured and could be
  installed.\<close>

definition wire_policy_reload :: "bool \<Rightarrow> watcher_api \<Rightarrow> string \<Rightarrow> bool \<Rightarrow> reload_tasks" where
  "wire_policy_reload sighup_installed nt path watch_file =
    \<lparr>rt_sighup = sighup_installed, rt_watch = watch_file \<and> is_ok (watch nt path)\<rparr>"

text \<open>A reload reads the file, compiles what it read, and stores the result; other tasks run in between.  What was read is
  the content of the file, or the error.\<close>

type_synonym file_read = "(string, string) result"

text \<open>Where the watch task is: waiting for a signal, sleeping off the burst, about to reload, or with a reload that has
  read the file and not yet stored the policy.\<close>

datatype watch_phase = Waiting | Debouncing | Reloading | Storing file_read | Stopped

text \<open>The signal task has at most one reload under way, since it waits for each: what that has read.\<close>

record ('c, 'p, 'e) watching =
  wt_files :: file_system
  wt_events :: "watch_event list"
  wt_signals :: 'c
  wt_phase :: watch_phase
  wt_sighup :: "file_read option"
  wt_engine :: "('p, 'e) policy_engine"

text \<open>One step of the world around the policy file.  Writing a file makes the watcher queue an event that
  names it, or none on a file system that does not report changes; events are delivered one by one; the watch task wakes,
  sleeps, drains, reads and stores; a signal makes the other task read and store, at any time; the shutdown is seen while
  waiting.\<close>

inductive watch_step ::
    "('p, 'v, 'e, 'u) engine_api \<Rightarrow> (string \<Rightarrow> bool) \<Rightarrow> 'c signal_channel \<Rightarrow> string \<Rightarrow> string \<Rightarrow>
      ('c, 'p, 'e) watching \<Rightarrow> ('c, 'p, 'e) watching \<Rightarrow> bool"
  for ea panics sg path name where
  edit: "\<forall>q. q \<noteq> path \<longrightarrow> fs q = wt_files w q \<Longrightarrow> concerns name ev \<Longrightarrow>
    watch_step ea panics sg path name w (w\<lparr>wt_files := fs, wt_events := wt_events w @ [ev]\<rparr>)"
| unreported: "watch_step ea panics sg path name w (w\<lparr>wt_files := fs\<rparr>)"
| elsewhere: "fs path = wt_files w path \<Longrightarrow>
    watch_step ea panics sg path name w (w\<lparr>wt_files := fs, wt_events := wt_events w @ [ev]\<rparr>)"
| deliver: "wt_events w = ev # evs \<Longrightarrow>
    watch_step ea panics sg path name w (w\<lparr>wt_events := evs, wt_signals := on_watch_event sg name ev (wt_signals w)\<rparr>)"
| wake: "wt_phase w = Waiting \<Longrightarrow> sg_recv sg (wt_signals w) = Some (True, ch) \<Longrightarrow>
    watch_step ea panics sg path name w (w\<lparr>wt_signals := ch, wt_phase := Debouncing\<rparr>)"
| closed: "wt_phase w = Waiting \<Longrightarrow> sg_recv sg (wt_signals w) = Some (False, ch) \<Longrightarrow>
    watch_step ea panics sg path name w (w\<lparr>wt_signals := ch, wt_phase := Stopped\<rparr>)"
| drain: "wt_phase w = Debouncing \<Longrightarrow> drain_signals sg (wt_signals w) = Some ch \<Longrightarrow>
    watch_step ea panics sg path name w (w\<lparr>wt_signals := ch, wt_phase := Reloading\<rparr>)"
| watch_read: "wt_phase w = Reloading \<Longrightarrow>
    watch_step ea panics sg path name w (w\<lparr>wt_phase := Storing (wt_files w path)\<rparr>)"
| watch_store: "wt_phase w = Storing got \<Longrightarrow>
    watch_step ea panics sg path name w
      (w\<lparr>wt_engine := reload_in_place ea panics (\<lambda>_. got) (wt_engine w), wt_phase := Waiting\<rparr>)"
| sighup_read: "wt_sighup w = None \<Longrightarrow>
    watch_step ea panics sg path name w (w\<lparr>wt_sighup := Some (wt_files w path)\<rparr>)"
| sighup_store: "wt_sighup w = Some got \<Longrightarrow>
    watch_step ea panics sg path name w
      (w\<lparr>wt_engine := reload_in_place ea panics (\<lambda>_. got) (wt_engine w), wt_sighup := None\<rparr>)"
| stop: "wt_phase w = Waiting \<Longrightarrow> watch_step ea panics sg path name w (w\<lparr>wt_phase := Stopped\<rparr>)"

inductive_cases watch_stepE: "watch_step ea panics sg path name w w'"

section \<open>What is relied on of the channel\<close>

definition signal_laws :: "'c signal_channel \<Rightarrow> ('c \<Rightarrow> nat) \<Rightarrow> bool" where
  "signal_laws sg pending \<longleftrightarrow>
    (\<forall>c. 0 < pending (sg_try_send sg c)) \<and>
    (\<forall>c. 0 < pending c \<longrightarrow> (\<exists>c'. sg_recv sg c = Some (True, c'))) \<and>
    (\<forall>c. case sg_try_recv sg c of None \<Rightarrow> pending c = 0 | Some c' \<Rightarrow> pending c' < pending c)"

lemma drain_signals_returns:
  assumes "signal_laws sg pending"
  shows "\<exists>ch'. drain_signals sg ch = Some ch' \<and> pending ch' = 0"
proof (induction "pending ch" arbitrary: ch rule: less_induct)
  case less
  have law: "case sg_try_recv sg ch of None \<Rightarrow> pending ch = 0 | Some c' \<Rightarrow> pending c' < pending ch"
    using assms unfolding signal_laws_def by blast
  show ?case
  proof (cases "sg_try_recv sg ch")
    case None
    with law show ?thesis by (simp add: drain_signals.simps)
  next
    case (Some c')
    with law have "pending c' < pending ch" by simp
    from less [OF this] Some show ?thesis by (simp add: drain_signals.simps [of sg ch])
  qed
qed

section \<open>Catching up\<close>

text \<open>The file as it is now is in force: if it is usable, the engine runs what it says.\<close>

definition in_force :: "('p, 'v, 'e, 'u) engine_api \<Rightarrow> (string \<Rightarrow> bool) \<Rightarrow> string \<Rightarrow> file_system \<Rightarrow> ('p, 'e) policy_engine \<Rightarrow> bool" where
  "in_force ea panics path fs engine \<longleftrightarrow> source_panics panics fs path \<or>
    (case engine of
       PE_Ruleset _ \<Rightarrow> True
     | PE_Cel x \<Rightarrow> (case usable (ea_cel ea) path (ca_max_rules x) fs of None \<Rightarrow> True | Some rules \<Rightarrow> ca_rules x = rules)
     | PE_Rego x \<Rightarrow> (case build_engine (ea_rego ea) fs path of Inl _ \<Rightarrow> True | Inr g \<Rightarrow> ra_engine x = g))"

lemma in_force_cong: "fs path = fs' path \<Longrightarrow> in_force ea panics path fs engine = in_force ea panics path fs' engine"
  by (cases engine) (simp_all add: in_force_def source_panics_def usable_def compile_file_def build_engine_def)

lemma reload_path: "engine_path (reload_in_place ea panics fs engine) = engine_path engine"
  by (cases engine)
    (auto simp: reload_in_place_def reload_policy_def cel_reload_def rego_reload_def split: option.splits sum.splits)

lemma reload_in_force:
  assumes "engine_path engine = Some path"
  shows "in_force ea panics path fs (reload_in_place ea panics fs engine)"
proof (cases "source_panics panics fs path")
  case False
  with assms show ?thesis
    by (cases engine)
      (auto simp: reload_in_place_def reload_policy_def in_force_def cel_reload_usable rego_reload_def
          case_prod_beta split: option.splits sum.splits)
qed (simp add: in_force_def)

lemma build_policy_in_force:
  assumes "build_policy ft ea fs a = Inr engine" and "engine_path engine = Some path"
  shows "in_force ea panics path fs engine"
  using assms
  by (auto simp: build_policy_def build_cel_policy_def build_rego_policy_def cel_load_def rego_load_def in_force_def usable_def
      and_then_eq_Inr split: policy_backend_kind.splits if_splits option.splits sum.splits)

text \<open>A reload that read the file as it is now puts it in force.\<close>

lemma store_in_force:
  assumes "engine_path engine = Some path" and "got = fs path"
  shows "in_force ea panics path fs (reload_in_place ea panics (\<lambda>_. got) engine)"
  using reload_in_force [OF assms(1), of ea panics "\<lambda>_. got"] unfolding assms(2)
  by (simp only: in_force_cong [of "\<lambda>_. fs path" path fs, OF refl])

text \<open>Steps in which a change of the policy file is reported by the watcher, and those in which moreover no
  reload by signal is between reading and storing when the file changes.\<close>

definition reported :: "string \<Rightarrow> string \<Rightarrow> ('c, 'p, 'e) watching \<Rightarrow> ('c, 'p, 'e) watching \<Rightarrow> bool" where
  "reported path name w w' \<longleftrightarrow> wt_files w' path = wt_files w path \<or>
    (\<exists>ev. concerns name ev \<and> wt_events w' = wt_events w @ [ev])"

definition apart :: "string \<Rightarrow> ('c, 'p, 'e) watching \<Rightarrow> ('c, 'p, 'e) watching \<Rightarrow> bool" where
  "apart path w w' \<longleftrightarrow> wt_files w' path = wt_files w path \<or> wt_sighup w = None"

text \<open>A change that is not yet in force is under way: as an event, as a signal, or in the hands of the task.\<close>

definition announced :: "('c \<Rightarrow> nat) \<Rightarrow> string \<Rightarrow> ('c, 'p, 'e) watching \<Rightarrow> bool" where
  "announced pending name w \<longleftrightarrow> list_ex (concerns name) (wt_events w) \<or> 0 < pending (wt_signals w)"

definition watch_inv ::
    "('p, 'v, 'e, 'u) engine_api \<Rightarrow> (string \<Rightarrow> bool) \<Rightarrow> ('c \<Rightarrow> nat) \<Rightarrow> string \<Rightarrow> string \<Rightarrow> ('c, 'p, 'e) watching \<Rightarrow> bool" where
  "watch_inv ea panics pending path name w \<longleftrightarrow>
    engine_path (wt_engine w) = Some path \<and>
    (\<forall>got. wt_sighup w = Some got \<longrightarrow> got = wt_files w path) \<and>
    (\<forall>got. wt_phase w = Storing got \<longrightarrow> got = wt_files w path \<or> announced pending name w) \<and>
    (announced pending name w \<or> wt_phase w \<noteq> Waiting \<or> in_force ea panics path (wt_files w) (wt_engine w))"

lemma watch_step_inv:
  assumes "watch_step ea panics sg path name w w'" and "reported path name w w'" and "apart path w w'"
    and "signal_laws sg pending" and "watch_inv ea panics pending path name w"
  shows "watch_inv ea panics pending path name w'"
proof -
  have path: "engine_path (wt_engine w) = Some path" using assms(5) by (simp add: watch_inv_def)
  note now = store_in_force [OF path, of _ "wt_files w" ea panics]
  show ?thesis
    using assms(1)
  proof cases
    case (edit fs ev)
    with assms(3,5) show ?thesis by (auto simp: watch_inv_def announced_def apart_def)
  next
    case (unreported fs)
    with assms(2) have same: "fs path = wt_files w path" by (simp add: reported_def)
    from unreported assms(5) show ?thesis
      by (simp add: watch_inv_def announced_def same in_force_cong [of fs path "wt_files w", OF same])
  next
    case (elsewhere fs ev)
    with assms(5) in_force_cong [of fs path "wt_files w"] show ?thesis by (auto simp: watch_inv_def announced_def)
  next
    case (deliver ev evs)
    have "0 < pending (sg_try_send sg (wt_signals w))" using assms(4) unfolding signal_laws_def by blast
    with deliver assms(5) show ?thesis by (auto simp: watch_inv_def announced_def on_watch_event_def)
  next
    case (watch_store got)
    with now [of got] assms(5) show ?thesis by (auto simp: watch_inv_def announced_def reload_path)
  next
    case (sighup_store got)
    with now [of got] assms(5) show ?thesis by (auto simp: watch_inv_def announced_def reload_path)
  qed (use assms(5) in \<open>simp_all add: watch_inv_def announced_def\<close>)
qed

lemma watch_steps_inv:
  assumes "(\<lambda>v v'. watch_step ea panics sg path name v v' \<and> reported path name v v' \<and> apart path v v')\<^sup>*\<^sup>* w w'"
    and "signal_laws sg pending" and "watch_inv ea panics pending path name w"
  shows "watch_inv ea panics pending path name w'"
  using assms by (induction rule: rtranclp_induct) (auto intro: watch_step_inv)

text \<open>Nothing is left to do: no event, no signal, no reload, and the task waits.\<close>

definition settled :: "('c \<Rightarrow> nat) \<Rightarrow> ('c, 'p, 'e) watching \<Rightarrow> bool" where
  "settled pending w \<longleftrightarrow>
    wt_events w = [] \<and> pending (wt_signals w) = 0 \<and> wt_phase w = Waiting \<and> wt_sighup w = None"

text \<open>The steps of the program alone: the files are left as they are.\<close>

definition own_step ::
    "('p, 'v, 'e, 'u) engine_api \<Rightarrow> (string \<Rightarrow> bool) \<Rightarrow> 'c signal_channel \<Rightarrow> string \<Rightarrow> string \<Rightarrow>
      ('c, 'p, 'e) watching \<Rightarrow> ('c, 'p, 'e) watching \<Rightarrow> bool" where
  "own_step ea panics sg path name w w' \<longleftrightarrow> watch_step ea panics sg path name w w' \<and> wt_files w' = wt_files w"

lemma own_steps_files: "(own_step ea panics sg path name)\<^sup>*\<^sup>* w w' \<Longrightarrow> wt_files w' = wt_files w"
  by (induction rule: rtranclp_induct) (simp_all add: own_step_def)

lemma own_step_quiet:
  "own_step ea panics sg path name w w' \<Longrightarrow>
    watch_step ea panics sg path name w w' \<and> reported path name w w' \<and> apart path w w'"
  by (simp add: own_step_def reported_def apart_def)

lemma own_steps_inv:
  assumes "(own_step ea panics sg path name)\<^sup>*\<^sup>* w w'" and "signal_laws sg pending" and "watch_inv ea panics pending path name w"
  shows "watch_inv ea panics pending path name w'"
  using watch_steps_inv [OF mono_rtranclp [rule_format, OF own_step_quiet assms(1)] assms(2,3)] .

lemma deliver_all:
  "\<exists>ch. (own_step ea panics sg path name)\<^sup>*\<^sup>* w (w\<lparr>wt_events := [], wt_signals := ch\<rparr>)"
proof (induction "wt_events w" arbitrary: w)
  case Nil
  then have "w\<lparr>wt_events := [], wt_signals := wt_signals w\<rparr> = w" by simp
  then show ?case by (metis rtranclp.rtrancl_refl)
next
  case (Cons ev evs)
  let ?w = "w\<lparr>wt_events := evs, wt_signals := on_watch_event sg name ev (wt_signals w)\<rparr>"
  have "watch_step ea panics sg path name w ?w" using Cons(2) by (intro watch_step.deliver) simp
  then have "own_step ea panics sg path name w ?w" by (simp add: own_step_def)
  moreover obtain ch where "(own_step ea panics sg path name)\<^sup>*\<^sup>* ?w (?w\<lparr>wt_events := [], wt_signals := ch\<rparr>)"
    using Cons(1) [of ?w] by auto
  ultimately have "(own_step ea panics sg path name)\<^sup>*\<^sup>* w (w\<lparr>wt_events := [], wt_signals := ch\<rparr>)"
    by (intro converse_rtranclp_into_rtranclp [of _ w ?w]) simp_all
  then show ?case by blast
qed

text \<open>From wherever it stands, a running task with nothing more to be delivered drains the signals, reloads, and waits.\<close>

lemma settle_waiting:
  assumes laws: "signal_laws sg pending" and run: "wt_phase w \<noteq> Stopped"
  shows "\<exists>ch g. (own_step ea panics sg path name)\<^sup>*\<^sup>* w (w\<lparr>wt_signals := ch, wt_engine := g, wt_phase := Waiting\<rparr>) \<and> pending ch = 0"
proof -
  let ?own = "own_step ea panics sg path name"
  have store: "?own v (v\<lparr>wt_engine := reload_in_place ea panics (\<lambda>_. got) (wt_engine v), wt_phase := Waiting\<rparr>)"
    if "wt_phase v = Storing got" for v got
    using watch_step.watch_store [OF that] by (simp add: own_step_def)
  have reading: "\<exists>g. ?own\<^sup>*\<^sup>* v (v\<lparr>wt_engine := g, wt_phase := Waiting\<rparr>)" if "wt_phase v = Reloading" for v
  proof -
    have "?own v (v\<lparr>wt_phase := Storing (wt_files v path)\<rparr>)"
      using watch_step.watch_read [OF that] by (simp add: own_step_def)
    moreover have "?own\<^sup>*\<^sup>* (v\<lparr>wt_phase := Storing (wt_files v path)\<rparr>)
        (v\<lparr>wt_engine := reload_in_place ea panics (\<lambda>_. wt_files v path) (wt_engine v), wt_phase := Waiting\<rparr>)"
      using store [of "v\<lparr>wt_phase := Storing (wt_files v path)\<rparr>" "wt_files v path"] by (intro r_into_rtranclp) simp
    ultimately show ?thesis by (blast intro: converse_rtranclp_into_rtranclp)
  qed
  have woken: "\<exists>ch g. ?own\<^sup>*\<^sup>* v (v\<lparr>wt_signals := ch, wt_engine := g, wt_phase := Waiting\<rparr>) \<and> pending ch = 0"
    if "wt_phase v = Debouncing" for v
  proof -
    obtain ch where ch: "drain_signals sg (wt_signals v) = Some ch" "pending ch = 0"
      using drain_signals_returns [OF laws] by blast
    have "?own v (v\<lparr>wt_signals := ch, wt_phase := Reloading\<rparr>)"
      using watch_step.drain [OF that ch(1)] by (simp add: own_step_def)
    with reading [of "v\<lparr>wt_signals := ch, wt_phase := Reloading\<rparr>"] ch(2) show ?thesis
      by (auto intro: converse_rtranclp_into_rtranclp)
  qed
  have waiting: "\<exists>ch g. ?own\<^sup>*\<^sup>* v (v\<lparr>wt_signals := ch, wt_engine := g, wt_phase := Waiting\<rparr>) \<and> pending ch = 0"
    if "wt_phase v = Waiting" for v
  proof (cases "pending (wt_signals v) = 0")
    case True
    have "v\<lparr>wt_signals := wt_signals v, wt_engine := wt_engine v, wt_phase := Waiting\<rparr> = v" using that by simp
    with True show ?thesis by (metis rtranclp.rtrancl_refl)
  next
    case False
    with laws obtain ch where "sg_recv sg (wt_signals v) = Some (True, ch)" unfolding signal_laws_def by blast
    then have "?own v (v\<lparr>wt_signals := ch, wt_phase := Debouncing\<rparr>)"
      using watch_step.wake [OF that] by (simp add: own_step_def)
    with woken [of "v\<lparr>wt_signals := ch, wt_phase := Debouncing\<rparr>"] show ?thesis
      by (auto intro: converse_rtranclp_into_rtranclp)
  qed
  have after: "\<exists>ch g. ?own\<^sup>*\<^sup>* w (w\<lparr>wt_signals := ch, wt_engine := g, wt_phase := Waiting\<rparr>) \<and> pending ch = 0"
    if "?own\<^sup>*\<^sup>* w (w\<lparr>wt_engine := g, wt_phase := Waiting\<rparr>)" for g
    using that waiting [of "w\<lparr>wt_engine := g, wt_phase := Waiting\<rparr>"] by (auto intro: rtranclp_trans)
  show ?thesis
    using run waiting [of w] woken [of w] reading [of w] store [of w] after by (cases "wt_phase w") blast+
qed

lemma settle_signal:
  "\<exists>g. (own_step ea panics sg path name)\<^sup>*\<^sup>* w (w\<lparr>wt_engine := g, wt_sighup := None\<rparr>)"
proof (cases "wt_sighup w")
  case None
  then have "w\<lparr>wt_engine := wt_engine w, wt_sighup := None\<rparr> = w" by simp
  then show ?thesis by (metis rtranclp.rtrancl_refl)
next
  case (Some got)
  then have "watch_step ea panics sg path name w
      (w\<lparr>wt_engine := reload_in_place ea panics (\<lambda>_. got) (wt_engine w), wt_sighup := None\<rparr>)"
    by (rule watch_step.sighup_store)
  then have "own_step ea panics sg path name w
      (w\<lparr>wt_engine := reload_in_place ea panics (\<lambda>_. got) (wt_engine w), wt_sighup := None\<rparr>)" by (simp add: own_step_def)
  then show ?thesis by (intro exI r_into_rtranclp)
qed

lemma watch_settles:
  assumes "signal_laws sg pending" and "wt_phase w \<noteq> Stopped"
  shows "\<exists>w'. (own_step ea panics sg path name)\<^sup>*\<^sup>* w w' \<and> settled pending w'"
proof -
  let ?steps = "(own_step ea panics sg path name)\<^sup>*\<^sup>*"
  obtain ch where d: "?steps w (w\<lparr>wt_events := [], wt_signals := ch\<rparr>)"
    using deliver_all [of ea panics sg path name w] by (elim exE)
  let ?w1 = "w\<lparr>wt_events := [], wt_signals := ch\<rparr>"
  obtain ch' g where t: "?steps ?w1 (?w1\<lparr>wt_signals := ch', wt_engine := g, wt_phase := Waiting\<rparr>)" and z: "pending ch' = 0"
    using settle_waiting [OF assms(1), of ?w1 ea panics path name] assms(2) by auto
  let ?w2 = "?w1\<lparr>wt_signals := ch', wt_engine := g, wt_phase := Waiting\<rparr>"
  obtain g' where "?steps ?w2 (?w2\<lparr>wt_engine := g', wt_sighup := None\<rparr>)"
    using settle_signal [of ea panics sg path name ?w2] by (elim exE)
  with d t have "?steps w (?w2\<lparr>wt_engine := g', wt_sighup := None\<rparr>)" by (meson rtranclp_trans)
  then show ?thesis using z by (intro exI conjI) (assumption, simp add: settled_def)
qed

text \<open>C19: An edit of a watched policy file that the watcher reports is not lost.  Signals are coalesced and dropped
  when the channel is full, reloads fail or panic, and edits happen between the reading and the storing of the watch task's
  own reload; still, if every change of the file is reported and none falls between the reading and the storing of a reload by
  SIGHUP, then once no event, no signal and no reload is outstanding the engine runs the policy file as it is now if that is usable,
  and from every state in which the watch task has not been stopped it gets there without a further edit.\<close>

theorem watched_policy_catches_up:
  assumes "build_policy ft ea fs a = Inr engine" and "engine_path engine = Some path" and "signal_laws sg pending"
    and "(\<lambda>v v'. watch_step ea panics sg path name v v' \<and> reported path name v v' \<and> apart path v v')\<^sup>*\<^sup>*
      \<lparr>wt_files = fs, wt_events = [], wt_signals = ch, wt_phase = Waiting, wt_sighup = None, wt_engine = engine\<rparr> w"
  shows "(settled pending w \<longrightarrow> in_force ea panics path (wt_files w) (wt_engine w)) \<and>
    (wt_phase w \<noteq> Stopped \<longrightarrow>
      (\<exists>w'. (own_step ea panics sg path name)\<^sup>*\<^sup>* w w' \<and> wt_files w' = wt_files w \<and> settled pending w' \<and>
        in_force ea panics path (wt_files w') (wt_engine w')))"
proof -
  have inv: "watch_inv ea panics pending path name w"
    using assms(2) build_policy_in_force [OF assms(1,2)] by (intro watch_steps_inv [OF assms(4,3)]) (simp add: watch_inv_def)
  have caught: "in_force ea panics path (wt_files v) (wt_engine v)"
    if "watch_inv ea panics pending path name v" "settled pending v" for v
    using that by (simp add: watch_inv_def announced_def settled_def)
  have "\<exists>w'. (own_step ea panics sg path name)\<^sup>*\<^sup>* w w' \<and> wt_files w' = wt_files w \<and> settled pending w' \<and>
      in_force ea panics path (wt_files w') (wt_engine w')" if "wt_phase w \<noteq> Stopped"
    using watch_settles [OF assms(3) that] own_steps_inv [OF _ assms(3) inv] own_steps_files caught by meson
  with caught [OF inv] show ?thesis by blast
qed

definition demo_engine_api :: "(string, unit, unit, unit) engine_api" where
  "demo_engine_api =
    \<lparr>ea_regex = demo_regex, ea_cel = demo_cel,
     ea_rego = \<lparr>rego_add_policy = (\<lambda>_ _. Inl ''none''), rego_from_json = (\<lambda>_. Inl ''none''), rego_eval = (\<lambda>_ _ _. None)\<rparr>\<rparr>"

definition demo_signals :: "nat signal_channel" where
  "demo_signals =
    \<lparr>sg_try_send = (\<lambda>n. min 8 (Suc n)), sg_recv = (\<lambda>n. case n of 0 \<Rightarrow> None | Suc m \<Rightarrow> Some (True, m)),
     sg_try_recv = (\<lambda>n. case n of 0 \<Rightarrow> None | Suc m \<Rightarrow> Some m)\<rparr>"

definition demo_cel_app :: app_config where
  "demo_cel_app = app_config_default\<lparr>ac_policy := policy_section_default\<lparr>po_backend := BK_Cel,
    po_cel := \<lparr>ce_policy_path = Some ''/etc/p'', ce_watch = True, ce_max_rules = 5\<rparr>\<rparr>\<rparr>"

abbreviation demo_cel_engine :: "string \<Rightarrow> (string, unit) policy_engine" where
  "demo_cel_engine s \<equiv> PE_Cel \<lparr>ca_rules = map (\<lambda>x. \<lparr>cr_when = [x], cr_effect = Eff_Deny, cr_reason = DEFAULT_DENY_REASON,
    cr_replacement = None\<rparr>) s, ca_path = Some ''/etc/p'', ca_max_rules = 5\<rparr>"

abbreviation demo_files :: "string \<Rightarrow> file_system" where
  "demo_files s \<equiv> (\<lambda>_. Inl ''not found'')(''/etc/p'' := Inr s)"

lemma demo_signal_laws: "signal_laws demo_signals (\<lambda>n. n)"
  by (auto simp: signal_laws_def demo_signals_def split: nat.splits)

lemma demo_build: "build_policy \<lparr>ft_policy_cel = True, ft_policy_rego = False\<rparr> demo_engine_api (demo_files ''x'') demo_cel_app =
    Inr (demo_cel_engine ''x'')"
  by (simp add: build_policy_def build_cel_policy_def demo_cel_app_def demo_engine_api_def demo_cel_def cel_load_def compile_file_def
      compile_source_def compile_rule_def and_then_def map_err_def ok_or_def)

text \<open>The file is written and its event is still queued.\<close>

abbreviation demo_watching :: "string \<Rightarrow> watch_event list \<Rightarrow> (nat, string, unit) watching" where
  "demo_watching s evs \<equiv>
    \<lparr>wt_files = demo_files s, wt_events = evs, wt_signals = 0, wt_phase = Waiting, wt_sighup = None, wt_engine = demo_cel_engine ''x''\<rparr>"

theorem watched_policy_catches_up_witness:
  "\<exists>w. (own_step demo_engine_api (\<lambda>_. False) demo_signals ''/etc/p'' ''p'')\<^sup>*\<^sup>*
      (demo_watching ''y'' [Inr [''/etc/p'']]) w \<and> wt_files w = demo_files ''y'' \<and> settled (\<lambda>n. n) w \<and>
    in_force demo_engine_api (\<lambda>_. False) ''/etc/p'' (wt_files w) (wt_engine w) \<and>
    \<not> in_force demo_engine_api (\<lambda>_. False) ''/etc/p'' (demo_files ''y'') (demo_cel_engine ''x'')"
proof -
  have concerned: "concerns ''p'' (Inr [''/etc/p''])" by code_simp
  have "watch_step demo_engine_api (\<lambda>_. False) demo_signals ''/etc/p'' ''p''
      (demo_watching ''x'' []) ((demo_watching ''x'' [])\<lparr>wt_files := demo_files ''y'', wt_events := wt_events (demo_watching ''x'' []) @ [Inr [''/etc/p'']]\<rparr>)"
    by (rule watch_step.edit) (simp, rule concerned)
  then have edit: "(\<lambda>v v'. watch_step demo_engine_api (\<lambda>_. False) demo_signals ''/etc/p'' ''p'' v v' \<and>
        reported ''/etc/p'' ''p'' v v' \<and> apart ''/etc/p'' v v')\<^sup>*\<^sup>*
      (demo_watching ''x'' []) (demo_watching ''y'' [Inr [''/etc/p'']])"
    using concerned by (intro r_into_rtranclp) (simp add: reported_def apart_def)
  have stale: "\<not> in_force demo_engine_api (\<lambda>_. False) ''/etc/p'' (demo_files ''y'') (demo_cel_engine ''x'')"
    by (simp add: in_force_def source_panics_def usable_def compile_file_def compile_source_def compile_rule_def demo_engine_api_def
        demo_cel_def and_then_def map_err_def)
  from watched_policy_catches_up [OF demo_build _ demo_signal_laws edit] stale show ?thesis by auto
qed

text \<open>A whole round of the watch task: the event is delivered, the task wakes, drains, reads and stores.\<close>

lemma watch_round:
  assumes laws: "signal_laws sg pending" and ev: "wt_events w = [ev]" "concerns name ev" and ph: "wt_phase w = Waiting"
  shows "\<exists>c. (own_step ea panics sg path name)\<^sup>*\<^sup>* w
    (w\<lparr>wt_events := [], wt_signals := c, wt_engine := reload_in_place ea panics (\<lambda>_. wt_files w path) (wt_engine w)\<rparr>) \<and> pending c = 0"
proof -
  let ?own = "own_step ea panics sg path name" and ?got = "wt_files w path"
  obtain c1 where c1: "sg_recv sg (sg_try_send sg (wt_signals w)) = Some (True, c1)" using laws unfolding signal_laws_def by blast
  obtain c2 where c2: "drain_signals sg c1 = Some c2" "pending c2 = 0" using drain_signals_returns [OF laws] by blast
  let ?a = "w\<lparr>wt_events := [], wt_signals := sg_try_send sg (wt_signals w)\<rparr>"
  let ?b = "w\<lparr>wt_events := [], wt_signals := c1, wt_phase := Debouncing\<rparr>"
  let ?c = "w\<lparr>wt_events := [], wt_signals := c2, wt_phase := Reloading\<rparr>"
  let ?d = "w\<lparr>wt_events := [], wt_signals := c2, wt_phase := Storing ?got\<rparr>"
  have "?own w ?a" using watch_step.deliver [OF ev(1), of ea panics sg path name] ev(2) by (simp add: own_step_def on_watch_event_def)
  moreover have "?own ?a ?b" using watch_step.wake [of ?a sg c1 ea panics path name] ph c1 by (simp add: own_step_def)
  moreover have "?own ?b ?c" using watch_step.drain [of ?b sg c2 ea panics path name] c2(1) by (simp add: own_step_def)
  moreover have "?own ?c ?d" using watch_step.watch_read [of ?c ea panics sg path name] by (simp add: own_step_def)
  moreover have "?own ?d (w\<lparr>wt_events := [], wt_signals := c2, wt_engine := reload_in_place ea panics (\<lambda>_. ?got) (wt_engine w)\<rparr>)"
    using watch_step.watch_store [of ?d ?got ea panics sg path name] ph
    by (cases w) (simp add: own_step_def)
  ultimately show ?thesis using c2(2) by (meson converse_rtranclp_into_rtranclp rtranclp.rtrancl_refl)
qed

text \<open>C40: A reload by SIGHUP can put an old policy back.  If the policy file changes after a reload by SIGHUP has
  read it and before that reload stores, and the watch task reloads the new content in the meantime, the late store overwrites it:
  every change was reported, nothing is outstanding, and the engine runs the rules of the old file although the file now says something
  else and is usable.\<close>

theorem late_reload_restores_old_policy:
  assumes "signal_laws sg pending" and "concerns name ev" and "pending ch = 0"
    and "ca_path x = Some path" and "ca_max_rules x = n"
    and "fs path = Inr source" and "\<not> panics source" and "usable (ea_cel ea) path n fs = Some rules"
    and "fs' = fs(path := Inr source')" and "\<not> panics source'" and "usable (ea_cel ea) path n fs' = Some rules'"
  shows "\<exists>w. (\<lambda>v v'. watch_step ea panics sg path name v v' \<and> reported path name v v')\<^sup>*\<^sup>*
      \<lparr>wt_files = fs, wt_events = [], wt_signals = ch, wt_phase = Waiting, wt_sighup = None, wt_engine = PE_Cel x\<rparr> w \<and>
    settled pending w \<and> wt_files w = fs' \<and> wt_engine w = PE_Cel (x\<lparr>ca_rules := rules\<rparr>) \<and>
    (rules \<noteq> rules' \<longrightarrow> \<not> in_force ea panics path (wt_files w) (wt_engine w))"
proof -
  let ?step = "\<lambda>v v'. watch_step ea panics sg path name v v' \<and> reported path name v v'"
  let ?e = "PE_Cel x" and ?e' = "PE_Cel (x\<lparr>ca_rules := rules'\<rparr>)" and ?e'' = "PE_Cel (x\<lparr>ca_rules := rules\<rparr>)"
  let ?at = "\<lambda>f evs c sig g. \<lparr>wt_files = f, wt_events = evs, wt_signals = c, wt_phase = Waiting, wt_sighup = sig, wt_engine = g\<rparr>"
  have stored: "reload_in_place ea panics (\<lambda>_. Inr source') ?e = ?e'" "reload_in_place ea panics (\<lambda>_. Inr source) ?e' = ?e''"
    using assms(4-11) by (simp_all add: reload_in_place_def reload_policy_def source_panics_def cel_reload_usable usable_def compile_file_def
        case_prod_beta)
  have "?step (?at fs [] ch None ?e) (?at fs [] ch (Some (Inr source)) ?e)"
    using watch_step.sighup_read [of "?at fs [] ch None ?e" ea panics sg path name] assms(6) by (simp add: reported_def)
  then have "?step\<^sup>*\<^sup>* (?at fs [] ch None ?e) (?at fs [] ch (Some (Inr source)) ?e)" by (rule r_into_rtranclp)
  moreover have "?step (?at fs [] ch (Some (Inr source)) ?e) (?at fs' [ev] ch (Some (Inr source)) ?e)"
    using watch_step.edit [of path fs' "?at fs [] ch (Some (Inr source)) ?e" name ev ea panics sg] assms(2,9)
    by (auto simp: reported_def)
  ultimately have before: "?step\<^sup>*\<^sup>* (?at fs [] ch None ?e) (?at fs' [ev] ch (Some (Inr source)) ?e)" by (rule rtranclp.rtrancl_into_rtrancl)
  obtain c where "(own_step ea panics sg path name)\<^sup>*\<^sup>* (?at fs' [ev] ch (Some (Inr source)) ?e) (?at fs' [] c (Some (Inr source)) ?e')"
      and c: "pending c = 0"
    using watch_round [OF assms(1) _ assms(2), of "?at fs' [ev] ch (Some (Inr source)) ?e" ea panics path] assms(9) stored(1) by auto
  from this(1) have "?step\<^sup>*\<^sup>* (?at fs' [ev] ch (Some (Inr source)) ?e) (?at fs' [] c (Some (Inr source)) ?e')"
    by (rule mono_rtranclp [rule_format, rotated]) (simp add: own_step_quiet)
  moreover have "?step (?at fs' [] c (Some (Inr source)) ?e') (?at fs' [] c None ?e'')"
    using watch_step.sighup_store [of "?at fs' [] c (Some (Inr source)) ?e'" "Inr source" ea panics sg path name] stored(2)
    by (simp add: reported_def)
  ultimately have "?step\<^sup>*\<^sup>* (?at fs' [ev] ch (Some (Inr source)) ?e) (?at fs' [] c None ?e'')" by (rule rtranclp.rtrancl_into_rtrancl)
  with before have "?step\<^sup>*\<^sup>* (?at fs [] ch None ?e) (?at fs' [] c None ?e'')" by (rule rtranclp_trans)
  moreover have "rules \<noteq> rules' \<longrightarrow> \<not> in_force ea panics path fs' ?e''"
    using assms(5,9-11) by (simp add: in_force_def source_panics_def)
  ultimately show ?thesis using c by (intro exI [of _ "?at fs' [] c None ?e''"] conjI) (simp_all add: settled_def)
qed

theorem late_reload_restores_old_policy_witness:
  "\<exists>w. (\<lambda>v v'. watch_step demo_engine_api (\<lambda>_. False) demo_signals ''/etc/p'' ''p'' v v' \<and> reported ''/etc/p'' ''p'' v v')\<^sup>*\<^sup>*
      (demo_watching ''x'' []) w \<and> settled (\<lambda>n. n) w \<and> wt_files w = demo_files ''y'' \<and>
    \<not> in_force demo_engine_api (\<lambda>_. False) ''/etc/p'' (wt_files w) (wt_engine w)"
proof -
  let ?rules = "map (\<lambda>x. \<lparr>cr_when = [x], cr_effect = Eff_Deny, cr_reason = DEFAULT_DENY_REASON, cr_replacement = None\<rparr>)"
  let ?x = "\<lparr>ca_rules = ?rules ''x'', ca_path = Some ''/etc/p'', ca_max_rules = 5\<rparr>"
  note defs = usable_def compile_file_def compile_source_def compile_rule_def demo_engine_api_def demo_cel_def and_then_def map_err_def
  have use: "usable (ea_cel demo_engine_api) ''/etc/p'' n (demo_files [c]) = (if n = 0 then None else Some (?rules [c]))" for n c
    by (simp add: defs)
  have concerned: "concerns ''p'' (Inr [''/etc/p''])" by code_simp
  show ?thesis
    using late_reload_restores_old_policy [OF demo_signal_laws concerned, of 0 ?x "''/etc/p''" 5 "demo_files ''x''" "''x''" "\<lambda>_. False"
        demo_engine_api "?rules ''x''" "demo_files ''y''" "''y''" "?rules ''y''"] use by auto
qed

end
