(* ===== verification/Server_Life.thy ===== *)
theory Server_Life
  imports Audit_Bridge
begin

text \<open>
  The server at work and its shutdown (\<^verbatim>\<open>crates/agate-server/src/main.rs\<close> from the listener on, and
  \<^verbatim>\<open>setup/bootstrap/supervision.rs\<close>): the supervisor's token and tracked tasks, the listener with the runs in
  flight, and their steps in any order, from serving to the exit of the process.
\<close>

section \<open>Supervisor\<close>

datatype task = T_Outbox | T_Scheduler | T_Sighup | T_Watch

record supervisor =
  sp_cancelled :: bool
  sp_tasks :: "task list"
  sp_closed :: bool

definition supervisor_new :: supervisor where
  "supervisor_new = \<lparr>sp_cancelled = False, sp_tasks = [], sp_closed = False\<rparr>"

text \<open>What the token says to a task that looks at it.\<close>

definition supervisor_token :: "supervisor \<Rightarrow> bool" where
  "supervisor_token sp = sp_cancelled sp"

definition supervisor_spawn :: "task \<Rightarrow> supervisor \<Rightarrow> supervisor" where
  "supervisor_spawn t sp = sp\<lparr>sp_tasks := sp_tasks sp @ [t]\<rparr>"

definition supervisor_trigger :: "supervisor \<Rightarrow> supervisor" where
  "supervisor_trigger sp = sp\<lparr>sp_cancelled := True\<rparr>"

text \<open>\<^term>\<open>None\<close> while it waits.\<close>

definition supervisor_wait :: "supervisor \<Rightarrow> supervisor option" where
  "supervisor_wait sp = (let sp' = sp\<lparr>sp_closed := True\<rparr> in if sp_tasks sp' = [] then Some sp' else None)"

text \<open>A tracked task that returns.\<close>

abbreviation task_ends :: "task \<Rightarrow> supervisor \<Rightarrow> supervisor" where
  "task_ends t sp \<equiv> sp\<lparr>sp_tasks := remove1 t (sp_tasks sp)\<rparr>"

section \<open>Serving and stopping\<close>

datatype listener = Serving | Draining | Returned

record ('c, 's) life =
  lf_supervisor :: supervisor
  lf_listener :: listener
  lf_runs :: nat
  lf_trace :: "bridge_event list"
  lf_bridge :: "('c, 's) bridge"
  lf_exited :: bool

definition life_start :: "supervisor \<Rightarrow> ('c, 's) bridge \<Rightarrow> ('c, 's) life" where
  "life_start sp b = \<lparr>lf_supervisor = sp, lf_listener = Serving, lf_runs = 0, lf_trace = [], lf_bridge = b, lf_exited = False\<rparr>"

text \<open>One step.  Runs arrive while the listener serves, record decisions, and end; a signal trips the token and then
  stops the listener, which returns when no run is in flight and takes the app and the sender in it along; the
  outbox drains and returns at the end of the channel, which only comes then; the scheduler ticks until it sees
  the token, and the reload tasks return at the token or on their own; main exits when no tracked task is left.\<close>

inductive server_step ::
    "serde \<Rightarrow> (uuid \<Rightarrow> string) \<Rightarrow> 'c mpsc \<Rightarrow> full_policy \<Rightarrow> 's audit_outbox \<Rightarrow> 's checkpoint_scheduler \<Rightarrow>
      ('c, 's) life \<Rightarrow> ('c, 's) life \<Rightarrow> bool"
  for sj su mp pol ob cs where
  arrive: "lf_listener l = Serving \<Longrightarrow> server_step sj su mp pol ob cs l (l\<lparr>lf_runs := Suc (lf_runs l)\<rparr>)"
| decide: "0 < lf_runs l \<Longrightarrow> enqueue mp pol (encode_record sj su c e v) (br_chan (lf_bridge l)) = Some (out, ch) \<Longrightarrow>
    sink_record sj su \<lparr>sk_tx = mp, sk_metrics = ob_metrics ob, sk_on_full = pol\<rparr> c e v (lf_bridge l) = Some b \<Longrightarrow>
    server_step sj su mp pol ob cs l (l\<lparr>lf_trace := lf_trace l @ [Offered c e v out], lf_bridge := b\<rparr>)"
| finish: "lf_runs l = Suc n \<Longrightarrow> server_step sj su mp pol ob cs l (l\<lparr>lf_runs := n\<rparr>)"
| signal: "server_step sj su mp pol ob cs l (l\<lparr>lf_supervisor := supervisor_trigger (lf_supervisor l)\<rparr>)"
| graceful: "supervisor_token (lf_supervisor l) \<Longrightarrow> lf_listener l = Serving \<Longrightarrow>
    server_step sj su mp pol ob cs l (l\<lparr>lf_listener := Draining\<rparr>)"
| returned: "lf_listener l = Draining \<Longrightarrow> lf_runs l = 0 \<Longrightarrow>
    server_step sj su mp pol ob cs l
      (l\<lparr>lf_listener := Returned, lf_bridge := (lf_bridge l)\<lparr>br_chan := mp_close mp (br_chan (lf_bridge l))\<rparr>\<rparr>)"
| drain: "T_Outbox \<in> set (sp_tasks (lf_supervisor l)) \<Longrightarrow> mp_recv mp (br_chan (lf_bridge l)) = Some (Some r, ch) \<Longrightarrow>
    ob_appender ob (ob_log ob) r (br_state (lf_bridge l)) = Some (res, s1) \<Longrightarrow>
    outbox_append ob r (br_state (lf_bridge l)) = Some s' \<Longrightarrow>
    server_step sj su mp pol ob cs l
      (l\<lparr>lf_trace := lf_trace l @ [Drained r res], lf_bridge := (lf_bridge l)\<lparr>br_chan := ch, br_state := s'\<rparr>\<rparr>)"
| outbox_end: "T_Outbox \<in> set (sp_tasks (lf_supervisor l)) \<Longrightarrow> lf_listener l = Returned \<Longrightarrow>
    mp_recv mp (br_chan (lf_bridge l)) = Some (None, ch) \<Longrightarrow>
    server_step sj su mp pol ob cs l (l\<lparr>lf_supervisor := task_ends T_Outbox (lf_supervisor l)\<rparr>)"
| tick: "T_Scheduler \<in> set (sp_tasks (lf_supervisor l)) \<Longrightarrow> \<not> supervisor_token (lf_supervisor l) \<Longrightarrow>
    scheduler_tick cs now (br_last (lf_bridge l)) (br_state (lf_bridge l)) = Some (last', s') \<Longrightarrow>
    server_step sj su mp pol ob cs l
      (l\<lparr>lf_trace := lf_trace l @ [Ticked now], lf_bridge := (lf_bridge l)\<lparr>br_last := last', br_state := s'\<rparr>\<rparr>)"
| stop: "t \<in> set (sp_tasks (lf_supervisor l)) \<Longrightarrow> t \<noteq> T_Outbox \<Longrightarrow> supervisor_token (lf_supervisor l) \<Longrightarrow>
    server_step sj su mp pol ob cs l (l\<lparr>lf_supervisor := task_ends t (lf_supervisor l)\<rparr>)"
| quit: "t = T_Sighup \<or> t = T_Watch \<Longrightarrow>
    server_step sj su mp pol ob cs l (l\<lparr>lf_supervisor := task_ends t (lf_supervisor l)\<rparr>)"
| exit: "lf_listener l = Returned \<Longrightarrow> supervisor_wait (lf_supervisor l) = Some sp \<Longrightarrow>
    server_step sj su mp pol ob cs l (l\<lparr>lf_supervisor := sp, lf_exited := True\<rparr>)"

section \<open>The end of the channel\<close>

text \<open>What is relied on of a channel whose last sender is gone: it stays so, and when it is empty the receiver is told.\<close>

definition closing_laws :: "'c mpsc \<Rightarrow> ('c \<Rightarrow> bytes list) \<Rightarrow> ('c \<Rightarrow> bool) \<Rightarrow> bool" where
  "closing_laws mp q closed \<longleftrightarrow>
    (\<forall>c. closed (mp_close mp c)) \<and>
    (\<forall>c r c'. closed c \<longrightarrow> mp_recv mp c = Some (Some r, c') \<longrightarrow> closed c') \<and>
    (\<forall>c. closed c \<longrightarrow> q c = [] \<longrightarrow> (\<exists>c'. mp_recv mp c = Some (None, c')))"

lemma recv_end: "mpsc_laws mp q \<Longrightarrow> mp_recv mp ch = Some (None, ch') \<Longrightarrow> q ch = []"
  using recv_queue(2) [of mp q ch] by fastforce

text \<open>The part of the state that shutting down maintains.\<close>

definition life_inv :: "('c \<Rightarrow> bytes list) \<Rightarrow> ('c \<Rightarrow> bool) \<Rightarrow> ('c, 's) life \<Rightarrow> bool" where
  "life_inv q closed l \<longleftrightarrow>
    distinct (sp_tasks (lf_supervisor l)) \<and>
    (lf_listener l = Returned \<longrightarrow> lf_runs l = 0 \<and> closed (br_chan (lf_bridge l))) \<and>
    (T_Outbox \<notin> set (sp_tasks (lf_supervisor l)) \<longrightarrow> lf_listener l = Returned \<and> q (br_chan (lf_bridge l)) = []) \<and>
    (lf_exited l \<longrightarrow> sp_tasks (lf_supervisor l) = [])"

lemma server_step_inv:
  assumes "server_step sj su mp pol ob cs l l'" and "mpsc_laws mp q" and laws: "closing_laws mp q closed"
    and inv: "life_inv q closed l"
  shows "life_inv q closed l'"
  using assms(1)
proof cases
  case (decide c e v out ch b)
  then have "lf_listener l \<noteq> Returned" "T_Outbox \<in> set (sp_tasks (lf_supervisor l))" using inv by (auto simp: life_inv_def)
  with inv decide show ?thesis by (auto simp: life_inv_def)
next
  case (drain r ch res s1 s')
  have "closed (br_chan (lf_bridge l)) \<longrightarrow> closed ch" using laws drain(3) unfolding closing_laws_def by blast
  with inv drain show ?thesis by (auto simp: life_inv_def)
next
  case returned
  have "closed (mp_close mp (br_chan (lf_bridge l)))" using laws unfolding closing_laws_def by blast
  with inv returned show ?thesis by (auto simp: life_inv_def)
next
  case (outbox_end ch)
  have "q (br_chan (lf_bridge l)) = []" using recv_end [OF assms(2) outbox_end(4)] .
  with inv outbox_end show ?thesis by (auto simp: life_inv_def)
next
  case (exit sp)
  then have "sp_tasks (lf_supervisor l) = []" "sp_tasks sp = []" by (auto simp: supervisor_wait_def Let_def split: if_splits)
  with inv exit show ?thesis by (auto simp: life_inv_def)
qed (use inv in \<open>auto simp: life_inv_def supervisor_trigger_def dest: notin_set_remove1\<close>)

section \<open>From serving to exit\<close>

context audit_bridge
begin

lemma life_run:
  assumes "(server_step sj su mp pol ob cs)\<^sup>*\<^sup>* (life_start sp b0) l"
  shows "bridge_run sj su mp pol ob cs b0 (lf_trace l) (lf_bridge l)"
  using assms
proof (induction rule: rtranclp_induct)
  case base
  show ?case by (simp add: life_start_def bridge_run.start)
next
  case (step l l')
  from step.hyps(2) step.IH show ?case
    by cases (auto intro: bridge_run.offer bridge_run.drain bridge_run.tick bridge_run.close)
qed

lemma life_steps_inv:
  assumes "(server_step sj su mp pol ob cs)\<^sup>*\<^sup>* l l'" and "mpsc_laws mp q" and "closing_laws mp q closed" and "life_inv q closed l"
  shows "life_inv q closed l'"
  using assms by (induction rule: rtranclp_induct) (auto intro: server_step_inv)

text \<open>Nothing keeps the listener from returning once the token is tripped.\<close>

lemma listener_returns:
  assumes "supervisor_token (lf_supervisor l)"
  shows "\<exists>l'. (server_step sj su mp pol ob cs)\<^sup>*\<^sup>* l l' \<and> lf_listener l' = Returned \<and> supervisor_token (lf_supervisor l')"
proof -
  let ?steps = "(server_step sj su mp pol ob cs)\<^sup>*\<^sup>*"
  have idle: "\<exists>l'. ?steps k l' \<and> lf_runs l' = 0 \<and> lf_listener l' = lf_listener k \<and> lf_supervisor l' = lf_supervisor k" for k
  proof (induction "lf_runs k" arbitrary: k)
    case 0
    then show ?case by (intro exI [of _ k]) simp
  next
    case (Suc n)
    have "server_step sj su mp pol ob cs k (k\<lparr>lf_runs := n\<rparr>)" using Suc.hyps(2) by (intro server_step.finish) simp
    with Suc.hyps(1) [of "k\<lparr>lf_runs := n\<rparr>"] show ?case by (auto intro: converse_rtranclp_into_rtranclp)
  qed
  have draining: "\<exists>l'. ?steps k l' \<and> lf_listener l' = Returned \<and> supervisor_token (lf_supervisor l')"
    if k: "lf_listener k = Draining" "supervisor_token (lf_supervisor k)" for k
  proof -
    from idle [of k] obtain m where m: "?steps k m" "lf_runs m = 0" "lf_listener m = lf_listener k" "lf_supervisor m = lf_supervisor k" by blast
    let ?m = "m\<lparr>lf_listener := Returned, lf_bridge := (lf_bridge m)\<lparr>br_chan := mp_close mp (br_chan (lf_bridge m))\<rparr>\<rparr>"
    have "server_step sj su mp pol ob cs m ?m" using m k by (intro server_step.returned) simp_all
    with m k show ?thesis by (intro exI [of _ ?m]) simp
  qed
  show ?thesis
  proof (cases "lf_listener l")
    case Serving
    have "server_step sj su mp pol ob cs l (l\<lparr>lf_listener := Draining\<rparr>)" using assms Serving by (rule server_step.graceful)
    with draining [of "l\<lparr>lf_listener := Draining\<rparr>"] assms show ?thesis by (auto intro: converse_rtranclp_into_rtranclp)
  qed (use assms draining in blast)+
qed

lemma queue_empties:
  assumes laws: "mpsc_laws mp q" and start: "q (br_chan b0) = []" "valid (br_state b0)"
  shows "(server_step sj su mp pol ob cs)\<^sup>*\<^sup>* (life_start sp b0) l \<Longrightarrow> T_Outbox \<in> set (sp_tasks (lf_supervisor l)) \<Longrightarrow>
    \<exists>l'. (server_step sj su mp pol ob cs)\<^sup>*\<^sup>* l l' \<and> q (br_chan (lf_bridge l')) = [] \<and>
      lf_listener l' = lf_listener l \<and> lf_supervisor l' = lf_supervisor l"
proof (induction "length (q (br_chan (lf_bridge l)))" arbitrary: l)
  case 0
  then show ?case by (intro exI [of _ l]) simp
next
  case (Suc n)
  then have "q (br_chan (lf_bridge l)) \<noteq> []" by auto
  with recv_queue(2) [OF laws] obtain r ch where r: "mp_recv mp (br_chan (lf_bridge l)) = Some (Some r, ch)" by blast
  have "valid (br_state (lf_bridge l))" using run_accounts [OF life_run [OF Suc.prems(1)] laws start] by blast
  from outbox_append_step [OF this, of r] obtain res s1 s' where
      s: "ob_appender ob (ob_log ob) r (br_state (lf_bridge l)) = Some (res, s1)" "outbox_append ob r (br_state (lf_bridge l)) = Some s'"
    by blast
  let ?l = "l\<lparr>lf_trace := lf_trace l @ [Drained r res], lf_bridge := (lf_bridge l)\<lparr>br_chan := ch, br_state := s'\<rparr>\<rparr>"
  have step: "server_step sj su mp pol ob cs l ?l" by (rule server_step.drain [OF Suc.prems(2) r s])
  have "n = length (q (br_chan (lf_bridge ?l)))" using Suc.hyps(2) recv_queue(1) [OF laws r] by simp
  from Suc.hyps(1) [OF this rtranclp.rtrancl_into_rtrancl [OF Suc.prems(1) step]] Suc.prems(2)
  obtain l' where "(server_step sj su mp pol ob cs)\<^sup>*\<^sup>* ?l l'" "q (br_chan (lf_bridge l')) = []"
      "lf_listener l' = lf_listener l" "lf_supervisor l' = lf_supervisor l" by auto
  with step show ?case by (intro exI [of _ l']) (auto intro: converse_rtranclp_into_rtranclp)
qed

lemma tasks_end:
  assumes laws: "closing_laws mp q closed"
  shows "supervisor_token (lf_supervisor l) \<Longrightarrow> lf_listener l = Returned \<Longrightarrow> closed (br_chan (lf_bridge l)) \<Longrightarrow>
    q (br_chan (lf_bridge l)) = [] \<Longrightarrow>
    \<exists>l'. (server_step sj su mp pol ob cs)\<^sup>*\<^sup>* l l' \<and> sp_tasks (lf_supervisor l') = [] \<and> lf_listener l' = Returned"
proof (induction "sp_tasks (lf_supervisor l)" arbitrary: l)
  case Nil
  then show ?case by (intro exI [of _ l]) simp
next
  case (Cons t ts)
  let ?l = "l\<lparr>lf_supervisor := task_ends t (lf_supervisor l)\<rparr>"
  have t: "t \<in> set (sp_tasks (lf_supervisor l))" using Cons.hyps(2) by (metis list.set_intros(1))
  have ts: "ts = sp_tasks (lf_supervisor ?l)" using Cons.hyps(2) [symmetric] by simp
  have step: "server_step sj su mp pol ob cs l ?l"
  proof (cases "t = T_Outbox")
    case True
    obtain c where "mp_recv mp (br_chan (lf_bridge l)) = Some (None, c)" using laws Cons.prems(3,4) unfolding closing_laws_def by blast
    from server_step.outbox_end [OF _ Cons.prems(2) this] t True show ?thesis by blast
  next
    case False
    from server_step.stop [OF t False Cons.prems(1)] show ?thesis .
  qed
  have "supervisor_token (lf_supervisor ?l)" using Cons.prems(1) by (simp add: supervisor_token_def)
  with Cons.hyps(1) [OF ts] Cons.prems obtain l' where "(server_step sj su mp pol ob cs)\<^sup>*\<^sup>* ?l l'" "sp_tasks (lf_supervisor l') = []"
      "lf_listener l' = Returned" by auto
  with step show ?case by (intro exI [of _ l']) (auto intro: converse_rtranclp_into_rtranclp)
qed

lemma shutdown_exits:
  assumes run: "(server_step sj su mp pol ob cs)\<^sup>*\<^sup>* (life_start sp b0) l"
    and laws: "mpsc_laws mp q" "closing_laws mp q closed" and start: "q (br_chan b0) = []" "valid (br_state b0)"
    and sp: "distinct (sp_tasks sp)" "T_Outbox \<in> set (sp_tasks sp)" and token: "supervisor_token (lf_supervisor l)"
  shows "\<exists>l'. (server_step sj su mp pol ob cs)\<^sup>*\<^sup>* l l' \<and> lf_exited l'"
proof -
  let ?steps = "(server_step sj su mp pol ob cs)\<^sup>*\<^sup>*"
  from listener_returns [OF token] obtain l1 where l1: "?steps l l1" "lf_listener l1 = Returned" "supervisor_token (lf_supervisor l1)" by blast
  have run1: "?steps (life_start sp b0) l1" using run l1(1) by (rule rtranclp_trans)
  have inv0: "life_inv q closed (life_start sp b0)" using sp by (simp add: life_inv_def life_start_def)
  have inv1: "life_inv q closed l1" by (rule life_steps_inv [OF run1 laws inv0])
  obtain l2 where l2: "?steps l1 l2" "q (br_chan (lf_bridge l2)) = []" "lf_listener l2 = Returned" "supervisor_token (lf_supervisor l2)"
  proof (cases "T_Outbox \<in> set (sp_tasks (lf_supervisor l1))")
    case True
    from queue_empties [OF laws(1) start run1 True] l1 that show ?thesis by auto
  next
    case False
    with inv1 l1 show ?thesis by (intro that [of l1]) (auto simp: life_inv_def)
  qed
  have "closed (br_chan (lf_bridge l2))" using life_steps_inv [OF l2(1) laws inv1] l2(3) by (simp add: life_inv_def)
  from tasks_end [OF laws(2) l2(4,3) this l2(2)] obtain l3 where
      l3: "?steps l2 l3" "sp_tasks (lf_supervisor l3) = []" "lf_listener l3 = Returned" by blast
  let ?sp = "(lf_supervisor l3)\<lparr>sp_closed := True\<rparr>"
  have "server_step sj su mp pol ob cs l3 (l3\<lparr>lf_supervisor := ?sp, lf_exited := True\<rparr>)"
    using l3 by (intro server_step.exit) (simp_all add: supervisor_wait_def Let_def)
  with l1(1) l2(1) l3(1) have "?steps l (l3\<lparr>lf_supervisor := ?sp, lf_exited := True\<rparr>)" by (meson rtranclp.rtrancl_into_rtrancl rtranclp_trans)
  then show ?thesis by (intro exI conjI) (assumption, simp)
qed

lemma exit_accounts:
  assumes run: "(server_step sj su mp pol ob cs)\<^sup>*\<^sup>* (life_start sp b0) l"
    and laws: "mpsc_laws mp q" "closing_laws mp q closed" and start: "q (br_chan b0) = []" "valid (br_state b0)"
    and sp: "distinct (sp_tasks sp)" "T_Outbox \<in> set (sp_tasks sp)" and "lf_exited l"
  shows "over drained_of (lf_trace l) = map (record_of sj su) (over enqueued_of (lf_trace l)) \<and>
    (\<exists>rs. written (br_state (lf_bridge l)) = written (br_state b0) @ map entry rs \<and> subseq (over logged_of (lf_trace l)) rs \<and>
      subseq rs (over drained_of (lf_trace l)) \<and> (lossy (br_state b0) \<or> rs = over logged_of (lf_trace l))) \<and>
    drops (br_state (lf_bridge l)) = drops (br_state b0) + length (filter is_loss (lf_trace l))"
proof -
  have "life_inv q closed (life_start sp b0)" using sp by (simp add: life_inv_def life_start_def)
  from life_steps_inv [OF run laws this] assms(8) have "q (br_chan (lf_bridge l)) = []" by (simp add: life_inv_def)
  with run_accounts [OF life_run [OF run] laws(1) start] show ?thesis by simp
qed

end

end
