(* ===== verification/Audit_Service.thy ===== *)
theory Audit_Service
  imports Audit_Bridge
begin

text \<open>
  The audit service behind its HTTP API (\<^verbatim>\<open>presentation/http\<close> and \<^verbatim>\<open>setup/bootstrap\<close> of \<^verbatim>\<open>crates/agate-audit/src\<close>): the
  routes as one handler that runs each request in a scope of its own, and what the service has acknowledged stays
  true under whatever requests follow.  A request is given as its extractors deliver it: the method and path
  matched, the identifier, the index and the body parsed.
\<close>

section \<open>The application\<close>

text \<open>The routes.  Creating a log and issuing a checkpoint carry what the generator and the clock give them.\<close>

datatype api_call =
    Api_Healthz
  | Api_CreateLog log_id instant
  | Api_AppendRecord log_id string
  | Api_InclusionProof log_id u64
  | Api_ConsistencyProof log_id u64
  | Api_IssueCheckpoint log_id string instant

datatype api_reply =
    Re_Healthz "(string \<times> string) list"
  | Re_CreateLog "log_id http_reply"
  | Re_AppendRecord "u64 http_reply"
  | Re_InclusionProof "inclusion_response http_reply"
  | Re_ConsistencyProof "consistency_response http_reply"
  | Re_IssueCheckpoint "checkpoint_response http_reply"

definition audit_healthz :: "(string \<times> string) list" where
  "audit_healthz = [(''status'', ''ok'')]"

fun log_router ::
    "(log_id \<Rightarrow> string) \<Rightarrow> jiff \<Rightarrow> ed25519_backend \<Rightarrow> hasher \<Rightarrow> configured_key option \<Rightarrow> api_call \<Rightarrow> world \<Rightarrow> (api_reply \<times> world) option" where
  "log_router su j be h st Api_Healthz w = Some (Re_Healthz audit_healthz, w)"
| "log_router su j be h st (Api_CreateLog new_id now) w = map_option (apfst Re_CreateLog) (http_create_log su j h new_id now w)"
| "log_router su j be h st (Api_AppendRecord i body) w = map_option (apfst Re_AppendRecord) (http_append_record su h i body w)"
| "log_router su j be h st (Api_InclusionProof i index) w = map_option (apfst Re_InclusionProof) (http_inclusion_proof su h i index w)"
| "log_router su j be h st (Api_ConsistencyProof i first) w = map_option (apfst Re_ConsistencyProof) (http_consistency_proof su h i first w)"
| "log_router su j be h st (Api_IssueCheckpoint i key now) w =
    map_option (apfst Re_IssueCheckpoint) (http_issue_checkpoint su j be h st now i key w)"

text \<open>Each request opens a scope of its own, which is closed after it.\<close>

definition audit_app ::
    "(log_id \<Rightarrow> string) \<Rightarrow> jiff \<Rightarrow> ed25519_backend \<Rightarrow> hasher \<Rightarrow> configured_key option \<Rightarrow> api_call \<Rightarrow> world \<Rightarrow> (api_reply \<times> world) option" where
  "audit_app su j be h st call w = map_option (apsnd scope_close) (log_router su j be h st call w)"

text \<open>Requests one after the other; \<^term>\<open>None\<close> if one does not return.\<close>

fun run_calls :: "('c \<Rightarrow> 'w \<Rightarrow> ('r \<times> 'w) option) \<Rightarrow> 'c list \<Rightarrow> 'w \<Rightarrow> ('r list \<times> 'w) option" where
  "run_calls handle [] w = Some ([], w)"
| "run_calls handle (c # cs) w =
    (case handle c w of
       None \<Rightarrow> None
     | Some (r, w') \<Rightarrow> map_option (apfst (Cons r)) (run_calls handle cs w'))"

section \<open>Creating a log\<close>

abbreviation new_log_row :: "jiff \<Rightarrow> hasher \<Rightarrow> log_id \<Rightarrow> instant \<Rightarrow> log_row" where
  "new_log_row j h i now \<equiv>
    \<lparr>lr_id = i, lr_created = jf_as_ms j (ts_created (timestamps_new now)), lr_updated = jf_as_ms j (ts_updated (timestamps_new now)),
     lr_algo = ucast (hash_code (hs_algo h))\<rparr>"

lemma save_new_log:
  "gw_save j (factory_create h i now) w0 = Some (Inr u, w1) \<Longrightarrow> w_slot w0 = Some d \<Longrightarrow> w_slot w1 = Some (upsert_log (new_log_row j h i now) d)"
  by (auto simp: gw_save_def factory_create_def tl_new_def tl_algo_def op_bind_Some_Inr tx_stmt_def dest!: next_fault_frame
      split: option.splits prod.splits outcome.splits)

lemma send_create_log_unfold: "send_create_log j h i now req = transaction_behavior req (handle_create_log j h i now)"
  by (simp add: send_create_log_def mediator_send_def tracing_behavior_def)

lemma in_tx_handle_create [agate_invs]: "in_tx (handle_create_log j h i now req)"
  by (simp add: handle_create_log_def in_tx_bind in_tx_gateway in_tx_lift)

lemma send_create_log_result:
  assumes run: "send_create_log j h i now () w = Some (r, w')" and slot: "w_slot w = None"
  shows "w_slot w' = None \<and> w_dropped w' = w_dropped w \<and> set (w_faults w') \<subseteq> set (w_faults w) \<and>
    (case r of
       Inr k \<Rightarrow> k = i \<and> w_db w' = upsert_log (new_log_row j h i now) (w_db w)
     | Inl e \<Rightarrow> no_unacked (w_faults w) \<longrightarrow> w_db w' = w_db w)"
proof -
  note t = run [unfolded send_create_log_unfold]
  note res = transaction_behavior_result [OF t in_tx_handle_create slot] and faults = transaction_behavior_faults [OF t in_tx_handle_create]
  show ?thesis
  proof (cases r)
    case (Inr k)
    with res obtain w0 w1 where w: "w_slot w0 = Some (w_db w)" "handle_create_log j h i now () w0 = Some (Inr k, w1)" "w_slot w1 = Some (w_db w')"
      by auto
    then have "k = i" "gw_save j (factory_create h i now) w0 = Some (Inr (), w1)" by (auto simp: handle_create_log_def op_bind_Some_Inr)
    with save_new_log [OF this(2) w(1)] w(3) res faults Inr show ?thesis by simp
  qed (use res faults in simp)
qed

lemma send_create_log_returns: "send_create_log j h i now () w \<noteq> None"
proof -
  have "returns (handle_create_log j h i now ())"
    by (simp add: handle_create_log_def gw_save_def factory_create_def tl_new_def returns_bind)
  then have "returns (send_create_log j h i now ())" unfolding send_create_log_unfold by (rule transaction_behavior_returns)
  then show ?thesis by (simp add: returns_def)
qed

lemma upsert_log_keeps:
  "leaves_of (upsert_log r d) n = leaves_of d n" "contiguous (upsert_log r d) n = contiguous d n"
  "db_checkpoints (upsert_log r d) = db_checkpoints d" "digests_of h (upsert_log r d) n = digests_of h d n"
  by (simp_all add: upsert_log_def leaves_of_def contiguous_def rows_of_def digests_of_def)

lemma find_upsert:
  "find (\<lambda>r. lr_id r = n) (rs @ [r]) = (case find (\<lambda>r. lr_id r = n) rs of None \<Rightarrow> if lr_id r = n then Some r else None | Some x \<Rightarrow> Some x)"
  "n \<noteq> i \<Longrightarrow> find (\<lambda>r. lr_id r = n) (map (\<lambda>q. if lr_id q = i then q\<lparr>lr_updated := u\<rparr> else q) rs) = find (\<lambda>r. lr_id r = n) rs"
  "find (\<lambda>r. lr_id r = n) (map (\<lambda>q. if lr_id q = n then q\<lparr>lr_updated := u\<rparr> else q) rs) = None \<longleftrightarrow> find (\<lambda>r. lr_id r = n) rs = None"
  by (induction rs) auto

lemma find_log_upsert:
  "find_log (upsert_log r d) (lr_id r) \<noteq> None" "n \<noteq> lr_id r \<Longrightarrow> find_log (upsert_log r d) n = find_log d n"
  by (auto simp: upsert_log_def find_log_def find_upsert simp del: not_None_eq split: option.splits)

section \<open>Growing\<close>

text \<open>A service whose every request extends the state extends it under every sequence of requests.\<close>

locale growing_service =
  fixes handle :: "'c \<Rightarrow> 'w \<Rightarrow> ('r \<times> 'w) option"
    and sound :: "'w \<Rightarrow> bool"
    and extends :: "'w \<Rightarrow> 'w \<Rightarrow> bool"
  assumes step: "sound w \<Longrightarrow> handle c w = Some (r, w') \<Longrightarrow> sound w' \<and> extends w w'"
    and extends_refl: "extends w w"
    and extends_trans: "extends w w' \<Longrightarrow> extends w' w'' \<Longrightarrow> extends w w''"
begin

lemma calls_extend: "sound w \<Longrightarrow> run_calls handle cs w = Some (rs, w') \<Longrightarrow> sound w' \<and> extends w w'"
proof (induction cs arbitrary: w rs)
  case Nil
  then show ?case by (simp add: extends_refl)
next
  case (Cons c cs)
  from Cons.prems(2) obtain r w1 rs' where "handle c w = Some (r, w1)" "run_calls handle cs w1 = Some (rs', w')"
    by (auto split: option.splits)
  with step [OF Cons.prems(1)] Cons.IH [of w1 rs'] show ?case by (blast intro: extends_trans)
qed

end

text \<open>Every log keeps its row and the leaves it has, and the indices stay gap-free.\<close>

definition db_extends :: "db \<Rightarrow> db \<Rightarrow> bool" where
  "db_extends d d' \<longleftrightarrow> (\<forall>i. prefix (leaves_of d i) (leaves_of d' i) \<and> (find_log d i \<noteq> None \<longrightarrow> find_log d' i \<noteq> None))"

definition store_sound :: "world \<Rightarrow> bool" where
  "store_sound w \<longleftrightarrow> w_slot w = None \<and> (\<forall>i. contiguous (w_db w) i)"

lemma db_extends_refl: "db_extends d d"
  by (simp add: db_extends_def)

lemma db_extends_trans: "db_extends d d' \<Longrightarrow> db_extends d' d'' \<Longrightarrow> db_extends d d''"
  unfolding db_extends_def by (meson prefix_order.trans)

lemma upsert_extends: "db_extends d (upsert_log r d)"
  unfolding db_extends_def
proof (intro allI conjI impI)
  fix i
  show "prefix (leaves_of d i) (leaves_of (upsert_log r d) i)" by (simp add: upsert_log_keeps)
  show "find_log (upsert_log r d) i \<noteq> None" if "find_log d i \<noteq> None"
    using that find_log_upsert [where r = r and d = d] by (cases "i = lr_id r") simp_all
qed

lemma insert_checkpoint_extends: "db_extends d (insert_checkpoint_ignore r d)"
  by (simp add: db_extends_def insert_checkpoint_ignore_frame find_log_def)

lemma append_leaf_extends:
  assumes cont: "\<forall>i. contiguous d i" and index: "lf_index r = int (length (rows_of d (lf_log r)))"
  shows "db_extends d (d\<lparr>db_leaves := db_leaves d @ [r]\<rparr>)" "contiguous (d\<lparr>db_leaves := db_leaves d @ [r]\<rparr>) k"
proof -
  have c: "contiguous d (lf_log r)" using cont by blast
  have "prefix (leaves_of d i) (leaves_of (d\<lparr>db_leaves := db_leaves d @ [r]\<rparr>) i)" for i
  proof (cases "i = lf_log r")
    case True
    with leaves_of_append_leaf [OF c refl index] show ?thesis by simp
  next
    case False
    then have "leaves_of (d\<lparr>db_leaves := db_leaves d @ [r]\<rparr>) i = leaves_of d i" by (simp add: leaves_of_def rows_of_append_leaf)
    then show ?thesis by simp
  qed
  moreover have "find_log (d\<lparr>db_leaves := db_leaves d @ [r]\<rparr>) i = find_log d i" for i by (simp add: find_log_def)
  ultimately show "db_extends d (d\<lparr>db_leaves := db_leaves d @ [r]\<rparr>)" by (simp add: db_extends_def)
  show "contiguous (d\<lparr>db_leaves := db_leaves d @ [r]\<rparr>) k" using contiguous_append_leaf [OF c refl index, of k] cont by blast
qed

text \<open>Each route extends the store.\<close>

definition extending :: "'a op \<Rightarrow> bool" where
  "extending m \<longleftrightarrow> (\<forall>w r w'. store_sound w \<longrightarrow> m w = Some (r, w') \<longrightarrow> store_sound w' \<and> db_extends (w_db w) (w_db w'))"

lemma extending_transaction:
  assumes tx: "in_tx (nxt req)"
    and body: "\<And>w0 v w1 d d'. w_slot w0 = Some d \<Longrightarrow> nxt req w0 = Some (Inr v, w1) \<Longrightarrow> w_slot w1 = Some d' \<Longrightarrow> \<forall>i. contiguous d i \<Longrightarrow>
      db_extends d d' \<and> (\<forall>i. contiguous d' i)"
  shows "extending (transaction_behavior req nxt)"
  unfolding extending_def
proof (intro allI impI)
  fix w r w'
  assume s: "store_sound w" and run: "transaction_behavior req nxt w = Some (r, w')"
  have "w_slot w' = None" using transaction_behavior_result [OF run tx] s by (simp add: store_sound_def)
  moreover have "db_extends (w_db w) (w_db w') \<and> (\<forall>i. contiguous (w_db w') i)"
    using transaction_behavior_db [OF run tx] body s by (auto simp: store_sound_def db_extends_refl)
  ultimately show "store_sound w' \<and> db_extends (w_db w) (w_db w')" by (simp add: store_sound_def)
qed

lemma create_extends: "extending (send_create_log j h i now ())"
  unfolding send_create_log_unfold
proof (rule extending_transaction [OF in_tx_handle_create])
  fix w0 v w1 d d'
  assume d: "w_slot w0 = Some d" "handle_create_log j h i now () w0 = Some (Inr v, w1)" "w_slot w1 = Some d'" "\<forall>i. contiguous d i"
  from d(2) have "gw_save j (factory_create h i now) w0 = Some (Inr (), w1)" by (auto simp: handle_create_log_def op_bind_Some_Inr)
  from save_new_log [OF this d(1)] d(3,4) upsert_extends show "db_extends d d' \<and> (\<forall>i. contiguous d' i)" by (auto simp: upsert_log_keeps)
qed

lemma append_extends: "extending (send_append_record h (i, rec))"
proof -
  have tx: "extending (transaction_behavior (i, rec) (handle_append_record h))"
  proof (rule extending_transaction [OF in_tx_handle_append])
    fix w0 v w1 d d'
    assume d: "w_slot w0 = Some d" "handle_append_record h (i, rec) w0 = Some (Inr v, w1)" "w_slot w1 = Some d'" "\<forall>i. contiguous d i"
    from d(2) have "gw_append_record h i rec w0 = Some (Inr (Some v), w1)" by (auto simp: handle_append_record_def op_bind_Some_Inr)
    then show "db_extends d d' \<and> (\<forall>i. contiguous d' i)"
    proof (rule gw_append_record_Inr)
      fix e
      assume "w_slot w0 = Some e" "w_slot w1 = Some (e\<lparr>db_leaves := db_leaves e @
        [\<lparr>lf_log = i, lf_index = next_index e i, lf_hash = dg_bytes (leaf h rec)\<rparr>]\<rparr>)"
      with d have d': "d' = d\<lparr>db_leaves := db_leaves d @ [\<lparr>lf_log = i, lf_index = next_index d i, lf_hash = dg_bytes (leaf h rec)\<rparr>]\<rparr>" by simp
      have "contiguous d i" using d(4) by blast
      from next_index_contiguous [OF this] show ?thesis unfolding d' by (intro conjI allI append_leaf_extends [OF d(4)]) simp_all
    qed
  qed
  show ?thesis
    unfolding extending_def
  proof (intro allI impI)
    fix w r w'
    assume s: "store_sound w" and run: "send_append_record h (i, rec) w = Some (r, w')"
    from run obtain v where "transaction_behavior (i, rec) (handle_append_record h) w = Some (r, v)" "w_db w' = w_db v" "w_slot w' = w_slot v"
      by (auto simp: send_append_record_unfold metrics_behavior_def split: option.splits if_splits)
    with tx s show "store_sound w' \<and> db_extends (w_db w) (w_db w')" unfolding extending_def by (metis store_sound_def)
  qed
qed

lemma issue_extends: "extending (send_issue_checkpoint j be h st now req)"
  unfolding send_issue_checkpoint_unfold
proof (rule extending_transaction [OF in_tx_handle_issue])
  fix w0 v w1 d d'
  assume d: "w_slot w0 = Some d" "handle_issue_checkpoint j be h st now req w0 = Some (Inr v, w1)" "w_slot w1 = Some d'" "\<forall>i. contiguous d i"
  have "d' = d \<or> (\<exists>r. d' = upsert_log r (insert_checkpoint_ignore (checkpoint_row_of j (ir_log req) v) d))"
    using handle_issue_checkpoint_effect [OF d(2,1)] d(3,4) by auto
  with d(4) show "db_extends d d' \<and> (\<forall>i. contiguous d' i)"
    by (auto simp: upsert_log_keeps insert_checkpoint_ignore_frame db_extends_refl
        intro: db_extends_trans [OF insert_checkpoint_extends upsert_extends])
qed

text \<open>The queries read only.\<close>

definition reads_only :: "'a op \<Rightarrow> bool" where
  "reads_only m \<longleftrightarrow> (\<forall>w r w'. m w = Some (r, w') \<longrightarrow> w_db w' = w_db w \<and> w_slot w' = w_slot w)"

lemma reads_only_bind: "reads_only m \<Longrightarrow> (\<And>a. reads_only (f a)) \<Longrightarrow> reads_only (op_bind m f)"
  unfolding reads_only_def op_bind_def by (fastforce split: option.splits sum.splits prod.splits)

lemma reads_only_simps [simp]:
  "reads_only (pool_read q)" "reads_only (op_lift x)" "reads_only (op_ok a)" "reads_only (op_err e)" "reads_only (op_run y)"
  by (auto simp: reads_only_def pool_read_def dest!: next_fault_frame split: prod.splits outcome.splits)

lemma queries_read: "reads_only (qg_inclusion_proof h i k)" "reads_only (qg_consistency_proof h i k)"
  unfolding qg_inclusion_proof_def qg_consistency_proof_def qg_leaves_def by (auto intro!: reads_only_bind)

lemma reads_only_extending: "reads_only m \<Longrightarrow> extending m"
  unfolding extending_def reads_only_def by (metis db_extends_refl store_sound_def)

lemma http_route_extends: "extending m \<Longrightarrow> store_sound w \<Longrightarrow> http_route su s f m w = Some (r, w') \<Longrightarrow> store_sound w' \<and> db_extends (w_db w) (w_db w')"
proof -
  assume e: "extending m" "store_sound w" and "http_route su s f m w = Some (r, w')"
  then obtain x where "m w = Some (x, w')" by (auto simp: http_route_def)
  with e show ?thesis unfolding extending_def by blast
qed

lemma log_router_extends:
  assumes "store_sound w" and "log_router su j be h st c w = Some (r, w')"
  shows "store_sound w' \<and> db_extends (w_db w) (w_db w')"
proof (cases c)
  case Api_Healthz
  with assms show ?thesis by (simp add: db_extends_refl)
next
  case (Api_CreateLog i now)
  with assms show ?thesis by (auto simp: http_create_log_def dest: http_route_extends [OF create_extends assms(1)])
next
  case (Api_AppendRecord i body)
  with assms show ?thesis by (auto simp: http_append_record_def dest: http_route_extends [OF append_extends assms(1)])
next
  case (Api_InclusionProof i k)
  with assms show ?thesis
    by (auto simp: http_inclusion_proof_def send_proof_unfold dest: http_route_extends [OF reads_only_extending [OF queries_read(1)] assms(1)])
next
  case (Api_ConsistencyProof i k)
  with assms show ?thesis
    by (auto simp: http_consistency_proof_def send_proof_unfold dest: http_route_extends [OF reads_only_extending [OF queries_read(2)] assms(1)])
next
  case (Api_IssueCheckpoint i key now)
  with assms show ?thesis by (auto simp: http_issue_checkpoint_def dest: http_route_extends [OF issue_extends assms(1)])
qed

interpretation audit_api: growing_service "audit_app su j be h st" store_sound "\<lambda>w w'. db_extends (w_db w) (w_db w')"
proof
  fix w c r w'
  assume s: "store_sound w" and "audit_app su j be h st c w = Some (r, w')"
  then obtain v where v: "log_router su j be h st c w = Some (r, v)" "w' = scope_close v" by (auto simp: audit_app_def)
  from log_router_extends [OF s v(1)] have e: "store_sound v" "db_extends (w_db w) (w_db v)" by simp_all
  then have "w' = v" using v(2) by (simp add: store_sound_def)
  with e show "store_sound w' \<and> db_extends (w_db w) (w_db w')" by simp
qed (rule db_extends_refl, rule db_extends_trans)

section \<open>What was acknowledged\<close>

lemma appended_leaf:
  assumes "store_sound w" and "audit_app su j be h st (Api_AppendRecord i body) w = Some (Re_AppendRecord (Reply 201 k), w')"
  shows "k = word_of_nat (length (leaves_of (w_db w) i))" "find_log (w_db w') i \<noteq> None"
    "leaves_of (w_db w') i = leaves_of (w_db w) i @ [dg_bytes (leaf h (map of_char body))]"
proof -
  have s: "w_slot w = None" "\<forall>n. contiguous (w_db w) n" using assms(1) by (simp_all add: store_sound_def)
  from assms(2) obtain x v where x: "send_append_record h (i, map of_char body) w = Some (x, v)" and w': "w' = scope_close v"
    by (auto simp: audit_app_def http_append_record_def http_route_def)
  with assms(2) have v: "send_append_record h (i, map of_char body) w = Some (Inr k, v)"
    by (cases x) (auto simp: audit_app_def http_append_record_def http_route_def error_reply_def split: prod.splits)
  have "w' = v" using send_append_record_Inr [OF v s(1)] w' by simp
  with send_append_record_leaves [OF v s] send_append_record_Inr [OF v s(1)]
  show "k = word_of_nat (length (leaves_of (w_db w) i))" "find_log (w_db w') i \<noteq> None"
    "leaves_of (w_db w') i = leaves_of (w_db w) i @ [dg_bytes (leaf h (map of_char body))]"
    by (simp_all add: find_log_def)
qed

text \<open>C18: What the audit service acknowledged it can prove from then on.  After a record was accepted over the API, whatever
  requests follow, failed, retried or concurrent with faults of the database: when the store answers, the
  inclusion-proof route answers for the returned index with the leaf hash of the record and a proof that
  \<^verbatim>\<open>verify_inclusion\<close> accepts, and the consistency-proof route answers for the size the log had then with its root
  of then and a proof that \<^verbatim>\<open>verify_consistency\<close> accepts, both against the root of the log as it is now.\<close>

theorem acknowledged_records_stay_provable:
  assumes sound: "store_sound w" and app: "audit_app su j be h st (Api_AppendRecord i body) w = Some (Re_AppendRecord (Reply 201 k), w1)"
    and run: "run_calls (audit_app su j be h st) calls w1 = Some (replies, w2)"
    and idle: "w_faults w2 = []" and bound: "length (leaves_of (w_db w2) i) \<le> 2 ^ 63"
    and root: "merkle_root h (digests_of h (w_db w2) i) = Some r"
  shows "(\<exists>v. audit_app su j be h st (Api_InclusionProof i k) w2 = Some (Re_InclusionProof (Reply 200 (inclusion_response_of v)), w2) \<and>
      iv_leaf_hash v = leaf h (map of_char body) \<and> iv_root v = r \<and> verify_inclusion h (iv_proof v) (iv_leaf_hash v) r = Some True) \<and>
    (\<exists>v. audit_app su j be h st (Api_ConsistencyProof i (k + 1)) w2 = Some (Re_ConsistencyProof (Reply 200 (consistency_response_of v)), w2) \<and>
      merkle_root h (digests_of h (w_db w1) i) = Some (cv_old_root v) \<and> cv_new_root v = r \<and>
      verify_consistency h (cv_proof v) (cv_old_root v) r = Some True)"
proof -
  let ?n = "length (leaves_of (w_db w) i)" and ?ds = "digests_of h (w_db w2) i"
  note ap = appended_leaf [OF sound app]
  have s1: "store_sound w1" using audit_api.step [OF sound app] by blast
  from audit_api.calls_extend [OF s1 run] have s2: "store_sound w2" and "db_extends (w_db w1) (w_db w2)" by blast+
  then have log: "find_log (w_db w2) i \<noteq> None" and pre: "prefix (leaves_of (w_db w1) i) (leaves_of (w_db w2) i)"
    using ap(2) unfolding db_extends_def by blast+
  from pre obtain more where more: "leaves_of (w_db w2) i = (leaves_of (w_db w) i @ [dg_bytes (leaf h (map of_char body))]) @ more"
    unfolding ap(3) by (auto elim: prefixE)
  have len: "length ?ds = length (leaves_of (w_db w2) i)" by (simp add: digests_of_def)
  have n: "?n < length (leaves_of (w_db w2) i)" "Suc ?n \<le> length (leaves_of (w_db w2) i)" unfolding more by simp_all
  have ds: "length ?ds \<le> 2 ^ 63" "?n < length ?ds" "Suc ?n \<le> length ?ds" using bound n unfolding len by simp_all
  have leaf: "?ds ! ?n = leaf h (map of_char body)"
    unfolding digests_of_def more by (simp add: nth_append leaf_digest del: length_leaves_of)
  have old: "take (Suc ?n) ?ds = digests_of h (w_db w1) i" unfolding digests_of_def more ap(3) by (simp add: take_map del: length_leaves_of)
  have r: "r = mth h ?ds" using root merkle_root_eq [OF ds(1), of h] by simp
  have k1: "k + 1 = word_of_nat (Suc ?n)" unfolding ap(1) by simp
  have closed: "scope_close w2 = w2" using s2 by (simp add: store_sound_def)
  have "length (digests_of h (w_db w1) i) \<le> 2 ^ 63" using ds(1) arg_cong [OF old, of length] by simp
  note root1 = merkle_root_eq [OF this, of h]
  have "audit_app su j be h st (Api_InclusionProof i k) w2 = Some (Re_InclusionProof (Reply 200 (inclusion_response_of
      \<lparr>iv_proof = \<lparr>ip_leaf_index = word_of_nat ?n, ip_tree_size = word_of_nat (length ?ds), ip_path = spec_path h ?n ?ds\<rparr>,
       iv_leaf_hash = ?ds ! ?n, iv_root = mth h ?ds\<rparr>)), w2)"
    unfolding ap(1) using qg_inclusion_proof_idle [OF idle log bound n(1), of h] closed
    by (simp add: audit_app_def http_inclusion_proof_def http_route_def send_proof_unfold len del: length_leaves_of)
  moreover have "audit_app su j be h st (Api_ConsistencyProof i (k + 1)) w2 = Some (Re_ConsistencyProof (Reply 200 (consistency_response_of
      \<lparr>cv_proof = \<lparr>cp_first_size = word_of_nat (Suc ?n), cp_second_size = word_of_nat (length ?ds), cp_path = spec_subproof h (Suc ?n) ?ds True\<rparr>,
       cv_old_root = mth h (take (Suc ?n) ?ds), cv_new_root = mth h ?ds\<rparr>)), w2)"
    unfolding k1 using qg_consistency_proof_idle [OF idle log bound zero_less_Suc n(2), of h] closed
    by (simp add: audit_app_def http_consistency_proof_def http_route_def send_proof_unfold len del: length_leaves_of of_nat_Suc)
  ultimately show ?thesis
    using verify_generated_inclusion [OF ds(1,2), of h] verify_generated_consistency [OF ds(1) zero_less_Suc ds(3), of h] leaf old root1 r
    by (intro conjI exI) (assumption | simp)+
qed

abbreviation demo_api :: "api_call \<Rightarrow> world \<Rightarrow> (api_reply \<times> world) option" where
  "demo_api \<equiv> audit_app unary_uuid demo_jiff demo_ed25519 demo_hasher None"

lemma demo_store_sound: "store_sound (demo_world [])"
  using demo_contiguous [of "[]"] by (simp add: store_sound_def)

lemma demo_api_append:
  obtains w1 where "demo_api (Api_AppendRecord 7 ''a'') (demo_world []) = Some (Re_AppendRecord (Reply 201 0), w1)" "w_slot w1 = None" "w_faults w1 = []"
proof -
  let ?r = "map of_char ''a'' :: bytes"
  obtain v where v: "send_append_record demo_hasher (7, ?r) (demo_world []) = Some (Inr 0, v)" using demo_append_any by blast
  have "w_slot v = None" "w_faults v = []" using send_append_record_Inr [OF v] send_append_record_faults [OF v] by simp_all
  with v show thesis by (intro that [of v]) (simp_all add: audit_app_def http_append_record_def http_route_def)
qed

lemma demo_api_create:
  assumes "w_slot w1 = None" and "w_faults w1 = []"
  obtains r w2 where "demo_api (Api_CreateLog 9 0) w1 = Some (r, w2)" "w_faults w2 = []" "leaves_of (w_db w2) 7 = leaves_of (w_db w1) 7"
proof -
  obtain x v where v: "send_create_log demo_jiff demo_hasher 9 0 () w1 = Some (x, v)" using send_create_log_returns by fastforce
  note c = send_create_log_result [OF v assms(1)]
  then have "leaves_of (w_db v) 7 = leaves_of (w_db w1) 7" using assms(2) by (cases x) (simp_all add: upsert_log_keeps no_unacked_def)
  with c v assms(2) show thesis by (intro that [of _ v]) (auto simp: audit_app_def http_create_log_def http_route_def)
qed

theorem acknowledged_records_stay_provable_witness:
  "\<exists>w1 replies w2 r v. demo_api (Api_AppendRecord 7 ''a'') (demo_world []) = Some (Re_AppendRecord (Reply 201 0), w1) \<and>
    run_calls demo_api [Api_CreateLog 9 0, Api_Healthz] w1 = Some (replies, w2) \<and>
    merkle_root demo_hasher (digests_of demo_hasher (w_db w2) 7) = Some r \<and>
    demo_api (Api_InclusionProof 7 0) w2 = Some (Re_InclusionProof (Reply 200 (inclusion_response_of v)), w2) \<and>
    iv_leaf_hash v = leaf demo_hasher (map of_char ''a'') \<and> verify_inclusion demo_hasher (iv_proof v) (iv_leaf_hash v) r = Some True"
proof -
  obtain w1 where w1: "demo_api (Api_AppendRecord 7 ''a'') (demo_world []) = Some (Re_AppendRecord (Reply 201 0), w1)"
    "w_slot w1 = None" "w_faults w1 = []" by (rule demo_api_append)
  from w1(2,3) obtain x w2 where w2: "demo_api (Api_CreateLog 9 0) w1 = Some (x, w2)" "w_faults w2 = []"
    "leaves_of (w_db w2) 7 = leaves_of (w_db w1) 7" by (rule demo_api_create)
  have "store_sound w2" using audit_api.step [OF audit_api.step [OF demo_store_sound w1(1), THEN conjunct1] w2(1)] by blast
  then have run: "run_calls demo_api [Api_CreateLog 9 0, Api_Healthz] w1 = Some ([x, Re_Healthz audit_healthz], w2)"
    using w2(1) by (simp add: store_sound_def) (simp add: audit_app_def)
  have len: "length (leaves_of (w_db w2) 7) \<le> 2 ^ 63"
    unfolding w2(3) appended_leaf(3) [OF demo_store_sound w1(1)] by simp
  then have "length (digests_of demo_hasher (w_db w2) 7) \<le> 2 ^ 63" by (simp add: digests_of_def)
  note root = merkle_root_eq [OF this, of demo_hasher]
  from acknowledged_records_stay_provable [OF demo_store_sound w1(1) run w2(2) len root] w1(1) run root show ?thesis by blast
qed

end
