(* ===== verification/Server_Boot.thy ===== *)
theory Server_Boot
  imports Policy_Reload Server_Life Audit_Service
begin

text \<open>
  Assembling the server (\<^verbatim>\<open>crates/agate-server/src/main.rs\<close> up to the listener, \<^verbatim>\<open>setup/bootstrap/server.rs\<close>,
  \<^verbatim>\<open>setup/observability\<close>, \<^verbatim>\<open>setup/tls.rs\<close> and \<^verbatim>\<open>presentation/http\<close> of the server; \<^verbatim>\<open>setup/ioc\<close> and
  \<^verbatim>\<open>setup/bootstrap\<close> of the proxy; \<^verbatim>\<open>setup/storage.rs\<close> of the audit service).  A panic before the listener
  is bound is a \<^verbatim>\<open>boot_failure\<close>; the providers of the proxy's container run when a request first needs them, so their
  panics are values of the routes.  The configuration library, the parsers of addresses and identifiers, the exporters, the TLS
  loader, the database driver and the resolver are parameters.
\<close>

section \<open>Default adapters\<close>

definition allow_all_decide :: "inspection_context \<Rightarrow> agent_event \<Rightarrow> 's \<Rightarrow> agent_event verdict \<times> 's" where
  "allow_all_decide c e s = (V_Allow, s)"

definition noop_record :: "inspection_context \<Rightarrow> agent_event \<Rightarrow> agent_event verdict \<Rightarrow> 'a \<Rightarrow> 'a" where
  "noop_record c e v a = a"

text \<open>The system resolver: \<^term>\<open>None\<close> when it does not answer in time.\<close>

definition tokio_resolve :: "(string \<Rightarrow> (string, ip_addr list) result option) \<Rightarrow> string \<Rightarrow> ip_addr list" where
  "tokio_resolve lookup_host host =
    (case lookup_host host of
       Some (Inr addrs) \<Rightarrow> addrs
     | Some (Inl error) \<Rightarrow> []
     | None \<Rightarrow> [])"

definition noop_resolve :: "string \<Rightarrow> ip_addr list" where
  "noop_resolve host = []"

section \<open>Session memory\<close>

datatype 'q session_memory = SMX_Noop | SMX_Local nat sessions | SMX_Redis "'q redis_memory"

text \<open>\<^verbatim>\<open>redis\<close> is the feature, with what opening a client for a URL gives.\<close>

definition build_redis_session_memory ::
    "(string \<Rightarrow> (string, 'q) result) option \<Rightarrow> string \<Rightarrow> nat \<Rightarrow> (string, 'q session_memory) result" where
  "build_redis_session_memory redis url ttl =
    (case redis of
       None \<Rightarrow> Inl ''the `redis` session-memory backend requires building agate-proxy with the `redis` feature''
     | Some client \<Rightarrow>
         and_then (map_err (\<lambda>err. ''a valid Redis URL for session memory: '' @ err) (client url)) (\<lambda>q.
           Inr (SMX_Redis (redis_new ttl q))))"

definition build_session_memory ::
    "(string \<Rightarrow> (string, 'q) result) option \<Rightarrow> session_memory_config option \<Rightarrow> (string, 'q session_memory) result" where
  "build_session_memory redis config =
    (case config of
       None \<Rightarrow> Inr SMX_Noop
     | Some cfg \<Rightarrow>
         (case sm_backend cfg of
            SM_InMemory \<Rightarrow> Inr (SMX_Local (sm_ttl cfg) Map.empty)
          | SM_Redis url \<Rightarrow> build_redis_session_memory redis url (sm_ttl cfg)))"

text \<open>The calls through the port.\<close>

definition memory_recall ::
    "'q redis_api \<Rightarrow> (uuid \<Rightarrow> string) \<Rightarrow> nat \<Rightarrow> uuid \<Rightarrow> string \<Rightarrow> 'q session_memory \<Rightarrow> deny_reason option \<times> 'q session_memory" where
  "memory_recall api show_uuid now session tool m =
    (case m of
       SMX_Noop \<Rightarrow> (fst (noop_recall now session tool ()), SMX_Noop)
     | SMX_Local ttl ss \<Rightarrow> (case mem_recall ttl now session tool ss of (r, ss') \<Rightarrow> (r, SMX_Local ttl ss'))
     | SMX_Redis rm \<Rightarrow> (case redis_recall api show_uuid now session tool rm of (r, rm') \<Rightarrow> (r, SMX_Redis rm')))"

definition memory_remember ::
    "'q redis_api \<Rightarrow> (uuid \<Rightarrow> string) \<Rightarrow> nat \<Rightarrow> uuid \<Rightarrow> string \<Rightarrow> deny_reason \<Rightarrow> 'q session_memory \<Rightarrow> 'q session_memory" where
  "memory_remember api show_uuid now session tool reason m =
    (case m of
       SMX_Noop \<Rightarrow> SMX_Noop
     | SMX_Local ttl ss \<Rightarrow> SMX_Local ttl (mem_remember ttl now session tool reason ss)
     | SMX_Redis rm \<Rightarrow> SMX_Redis (redis_remember api show_uuid now session tool reason rm))"

section \<open>The proxy's container\<close>

text \<open>What the inspector and the routes use of the outside: the client, the permits and the limiter, the resolver, the
  URL parser, building the HTTP client with its two timeouts, opening a Redis client (if the feature is built in) and the memory's
  server, the clock, and whether a decision misses its deadline.\<close>

record ('q, 'm, 'g) plane =
  dp_env :: env
  dp_body :: body_extractor
  dp_semaphore :: "'m semaphore"
  dp_limiter :: "'g limiter"
  dp_lookup :: "string \<Rightarrow> (string, ip_addr list) result option"
  dp_url :: "string \<Rightarrow> url option"
  dp_client :: "nat \<Rightarrow> nat \<Rightarrow> (string, unit) result"
  dp_redis_client :: "(string \<Rightarrow> (string, 'q) result) option"
  dp_redis :: "'q redis_api"
  dp_show_uuid :: "uuid \<Rightarrow> string"
  dp_now :: nat
  dp_late :: "nat \<Rightarrow> inspection_context \<Rightarrow> agent_event \<Rightarrow> bool"

text \<open>\<^verbatim>\<open>Inspector::new\<close>: the ports over the state of the sink and of the memory.\<close>

definition inspector_new ::
    "('q, 'm, 'g) plane \<Rightarrow> (inspection_context \<Rightarrow> agent_event \<Rightarrow> 'a \<times> 'q session_memory \<Rightarrow> agent_event verdict \<times> 'a \<times> 'q session_memory) \<Rightarrow>
      (inspection_context \<Rightarrow> agent_event \<Rightarrow> agent_event verdict \<Rightarrow> 'a \<Rightarrow> 'a) \<Rightarrow> ('a \<times> 'q session_memory) ports" where
  "inspector_new dp policy audit =
    \<lparr>pt_decide = policy,
     pt_record = (\<lambda>c e v (a, m). (audit c e v a, m)),
     pt_recall = (\<lambda>session tool (a, m).
       case memory_recall (dp_redis dp) (dp_show_uuid dp) (dp_now dp) session tool m of (r, m') \<Rightarrow> (r, (a, m'))),
     pt_remember = (\<lambda>session tool reason (a, m).
       (a, memory_remember (dp_redis dp) (dp_show_uuid dp) (dp_now dp) session tool reason m)),
     pt_url_parse = dp_url dp, pt_resolve = tokio_resolve (dp_lookup dp)\<rparr>"

text \<open>What resolving the container's singletons gives: the inspector with the memory it starts with, and the client; or the panic of
  a provider, the inspector being resolved first.\<close>

record ('a, 'q) container =
  ct_inspector :: "('a \<times> 'q session_memory) ports"
  ct_memory :: "'q session_memory"

definition build_container_with ::
    "('q, 'm, 'g) plane \<Rightarrow> proxy_config \<Rightarrow>
      (inspection_context \<Rightarrow> agent_event \<Rightarrow> 'a \<times> 'q session_memory \<Rightarrow> agent_event verdict \<times> 'a \<times> 'q session_memory) \<Rightarrow>
      (inspection_context \<Rightarrow> agent_event \<Rightarrow> agent_event verdict \<Rightarrow> 'a \<Rightarrow> 'a) \<Rightarrow> (string, ('a, 'q) container) result" where
  "build_container_with dp cfg policy audit =
    and_then (build_session_memory (dp_redis_client dp) (pc_session_memory cfg)) (\<lambda>memory.
    and_then (map_err (\<lambda>err. ''build the upstream reqwest client: '' @ err) (dp_client dp (pc_connect_timeout cfg) (pc_read_timeout cfg))) (\<lambda>_.
      Inr \<lparr>ct_inspector = inspector_new dp policy audit, ct_memory = memory\<rparr>))"

definition build_container :: "('q, 'm, 'g) plane \<Rightarrow> proxy_config \<Rightarrow> (string, ('a, 'q) container) result" where
  "build_container dp cfg = build_container_with dp cfg allow_all_decide noop_record"

text \<open>The routes of the proxy over its container.  A run request needs the container, the probe does not: behind \<^verbatim>\<open>/\<close> is
  the handler, or the panic that every request which gets to it runs into.\<close>

type_synonym ('s, 'm, 'g) routes = "(string \<times> (string, ('s, 'm, 'g) http_handler) result) list"

definition with_container ::
    "('q, 'm, 'g) plane \<Rightarrow> proxy_config \<Rightarrow> (string, ('a, 'q) container) result \<Rightarrow> uuid \<times> uuid \<Rightarrow> ('a \<times> 'q session_memory, 'm, 'g) routes" where
  "with_container dp cfg ct fresh =
    (case ct of
       Inr c \<Rightarrow> map (\<lambda>(path, handler). (path, Inr handler))
         (router (dp_env dp) (dp_body dp) (dp_semaphore dp) (dp_limiter dp) (ct_inspector c) cfg fresh)
     | Inl panic \<Rightarrow> [(''/'', Inl panic), (''/healthz'', Inr healthz)])"

text \<open>The routes of the standalone proxy and of the proxy with given adapters.\<close>

definition build_app :: "('q, 'm, 'g) plane \<Rightarrow> proxy_config \<Rightarrow> uuid \<times> uuid \<Rightarrow> ('a \<times> 'q session_memory, 'm, 'g) routes" where
  "build_app dp cfg = with_container dp cfg (build_container dp cfg)"

definition build_app_with ::
    "('q, 'm, 'g) plane \<Rightarrow> proxy_config \<Rightarrow>
      (inspection_context \<Rightarrow> agent_event \<Rightarrow> 'a \<times> 'q session_memory \<Rightarrow> agent_event verdict \<times> 'a \<times> 'q session_memory) \<Rightarrow>
      (inspection_context \<Rightarrow> agent_event \<Rightarrow> agent_event verdict \<Rightarrow> 'a \<Rightarrow> 'a) \<Rightarrow> uuid \<times> uuid \<Rightarrow>
      ('a \<times> 'q session_memory, 'm, 'g) routes" where
  "build_app_with dp cfg policy audit = with_container dp cfg (build_container_with dp cfg policy audit)"

section \<open>Storage and readiness\<close>

datatype 'pool storage = ST_Postgres 'pool

text \<open>\<^verbatim>\<open>connect\<close> gives the outcome of each attempt at a URL.\<close>

definition storage_connect ::
    "(string \<Rightarrow> nat \<Rightarrow> (string, 'pool) result) \<Rightarrow> ('pool \<Rightarrow> (string, unit) result) \<Rightarrow> storage_config \<Rightarrow> (audit_error, 'pool storage) result" where
  "storage_connect connect migrations config =
    (case config of SC_Postgres postgres \<Rightarrow>
       and_then (fst (connect_pool (connect (pg_database_url postgres)) (pl_connect_max_retries (pg_pool postgres))
           (pl_connect_backoff (pg_pool postgres)))) (\<lambda>pool.
       and_then (map_err Storage (migrations pool)) (\<lambda>_. Inr (ST_Postgres pool))))"

definition pg_health_check :: "('pool \<Rightarrow> (string, unit) result) \<Rightarrow> 'pool \<Rightarrow> (audit_error, unit) result" where
  "pg_health_check acquire pool = map_err Storage (acquire pool)"

definition health_check :: "('pool \<Rightarrow> (string, unit) result) \<Rightarrow> 'pool storage \<Rightarrow> (audit_error, unit) result" where
  "health_check acquire storage = (case storage of ST_Postgres pool \<Rightarrow> pg_health_check acquire pool)"

definition readyz :: "(audit_error, unit) result \<Rightarrow> ('s, 'm, 'g) http_handler" where
  "readyz health request st =
    (case health of
       Inr _ \<Rightarrow> plain_response 200 ''ready''
     | Inl error \<Rightarrow> plain_response 503 ''not ready: backing store unavailable'', st)"

definition readiness_router :: "(audit_error, unit) result \<Rightarrow> ('s, 'm, 'g) routes" where
  "readiness_router health = [(''/readyz'', Inr (readyz health))]"

section \<open>Observability\<close>

definition TRACER_NAME :: string where
  "TRACER_NAME = ''agate-server''"

record tracer_provider =
  tp_endpoint :: string
  tp_service_name :: string

text \<open>\<^verbatim>\<open>exporter\<close> builds the span exporter for an endpoint.\<close>

definition build_tracer_provider :: "(string \<Rightarrow> (string, unit) result) \<Rightarrow> tracing_config \<Rightarrow> tracer_provider option" where
  "build_tracer_provider exporter config =
    (if \<not> tr_enabled config then None
     else case exporter (tr_endpoint config) of
       Inl error \<Rightarrow> None
     | Inr _ \<Rightarrow> Some \<lparr>tp_endpoint = tr_endpoint config, tp_service_name = tr_service_name config\<rparr>)"

text \<open>The log filters: from the environment, from a level, and the one that cannot fail.\<close>

record 'l filters =
  fl_default_env :: "'l option"
  fl_try_new :: "string \<Rightarrow> 'l option"
  fl_new :: "string \<Rightarrow> 'l"

record 'l subscriber =
  su_filter :: 'l
  su_format :: log_format
  su_otel :: "(string \<times> tracer_provider) option"

text \<open>What is installed, and the provider to flush at shutdown.\<close>

definition init_logging ::
    "'l filters \<Rightarrow> (string \<Rightarrow> (string, unit) result) \<Rightarrow> logging_config \<Rightarrow> tracing_config \<Rightarrow>
      'l subscriber option \<times> tracer_provider option" where
  "init_logging fl exporter logging tracing =
    (if \<not> lo_enabled logging then (None, None)
     else
       let filter = (case fl_default_env fl of
              Some f \<Rightarrow> f
            | None \<Rightarrow> (case fl_try_new fl (lo_level logging) of Some f \<Rightarrow> f | None \<Rightarrow> fl_new fl ''info''));
           provider = build_tracer_provider exporter tracing in
       (Some \<lparr>su_filter = filter, su_format = lo_format logging, su_otel = map_option (\<lambda>p. (TRACER_NAME, p)) provider\<rparr>, provider))"

definition endpoint :: "(string \<Rightarrow> (string, 'addr) result) \<Rightarrow> metrics_config \<Rightarrow> (string, 'addr option) result" where
  "endpoint parse config =
    (if \<not> mc_enabled config \<or> mc_exporter config = MX_None then Inr None
     else and_then (map_err (\<lambda>err. ''invalid observability.metrics.bind '' @ [CHR 0x27] @ mc_bind config @ [CHR 0x27] @ '': '' @ err)
         (parse (mc_bind config))) (\<lambda>addr. Inr (Some addr)))"

definition init_metrics ::
    "(string \<Rightarrow> (string, 'addr) result) \<Rightarrow> ('addr \<Rightarrow> (string, unit) result) \<Rightarrow> metrics_config \<Rightarrow> (string, bool) result" where
  "init_metrics parse install config =
    and_then (endpoint parse config) (\<lambda>x.
      case x of
        None \<Rightarrow> Inr False
      | Some addr \<Rightarrow>
          and_then (map_err (\<lambda>err. ''install the Prometheus metrics exporter: '' @ err) (install addr)) (\<lambda>_. Inr True))"

definition load_tls :: "(string \<Rightarrow> string \<Rightarrow> (string, 'tls) result) \<Rightarrow> tls_config \<Rightarrow> (string, 'tls) result" where
  "load_tls from_pem_file config =
    map_err (\<lambda>err. ''load the TLS certificate and private key: '' @ err) (from_pem_file (tls_cert config) (tls_key config))"

section \<open>Startup\<close>

record ('f, 'p, 'v, 'e, 'u, 'addr, 'tls, 'pool) boot_api =
  bo_figment :: "'f figment"
  bo_env :: "string \<rightharpoonup> string"
  bo_features :: features
  bo_engines :: "('p, 'v, 'e, 'u) engine_api"
  bo_files :: file_system
  bo_watcher :: watcher_api
  bo_parse_addr :: "string \<Rightarrow> (string, 'addr) result"
  bo_parse_uuid :: "string \<Rightarrow> (string, log_id) result"
  bo_filters :: "string filters"
  bo_exporter :: "string \<Rightarrow> (string, unit) result"
  bo_install :: "'addr \<Rightarrow> (string, unit) result"
  bo_pem :: "string \<Rightarrow> string \<Rightarrow> (string, 'tls) result"
  bo_connect :: "string \<Rightarrow> nat \<Rightarrow> (string, 'pool) result"
  bo_migrations :: "'pool \<Rightarrow> (string, unit) result"
  bo_acquire :: "'pool \<Rightarrow> (string, unit) result"

datatype boot_failure =
    BF_Load string | BF_Invalid config_error | BF_Metrics string | BF_Policy string | BF_LogId string | BF_Bind string | BF_Tls string
  | BF_Connect audit_error | BF_Scope string | BF_CreateLog audit_error

record ('p, 'e, 'addr, 'tls) prepared =
  pr_config :: app_config
  pr_logging :: "string subscriber option \<times> tracer_provider option"
  pr_engine :: "('p, 'e) policy_engine"
  pr_supervisor :: supervisor
  pr_pinned :: "log_id option"
  pr_addr :: 'addr
  pr_tls :: "'tls option"

text \<open>The reload tasks that building the engine spawns.\<close>

definition spawn_reloads :: "watcher_api \<Rightarrow> app_config \<Rightarrow> supervisor \<Rightarrow> supervisor" where
  "spawn_reloads nt a sp =
    (let wired = (\<lambda>path watch_file.
           (let rt = wire_policy_reload True nt path watch_file; sp' = supervisor_spawn T_Sighup sp in
            if rt_watch rt then supervisor_spawn T_Watch sp' else sp')) in
     case po_backend (ac_policy a) of
       BK_Ruleset \<Rightarrow> sp
     | BK_Cel \<Rightarrow> (case ce_policy_path (po_cel (ac_policy a)) of None \<Rightarrow> sp | Some path \<Rightarrow> wired path (ce_watch (po_cel (ac_policy a))))
     | BK_Rego \<Rightarrow> (case rg_policy_path (po_rego (ac_policy a)) of None \<Rightarrow> sp | Some path \<Rightarrow> wired path (rg_watch (po_rego (ac_policy a)))))"

text \<open>Everything that can fail from the configuration.\<close>

definition prepare ::
    "('f, 'p, 'v, 'e, 'u, 'addr, 'tls, 'pool) boot_api \<Rightarrow> (boot_failure, ('p, 'e, 'addr, 'tls) prepared) result" where
  "prepare bo =
    and_then (map_err BF_Load (load (bo_figment bo) (bo_env bo))) (\<lambda>config.
    and_then (map_err BF_Invalid (validate_app (bo_features bo) config)) (\<lambda>_.
    let logging = init_logging (bo_filters bo) (bo_exporter bo) (ob_logging (ac_observability config)) (ob_tracing (ac_observability config)) in
    and_then (map_err BF_Metrics (init_metrics (bo_parse_addr bo) (bo_install bo) (ob_metrics_section (ac_observability config)))) (\<lambda>_.
    and_then (map_err BF_Policy (build_policy (bo_features bo) (bo_engines bo) (bo_files bo) config)) (\<lambda>policy.
    and_then (case bo_env bo ''AUDIT_LOG_ID'' of
        None \<Rightarrow> Inr None
      | Some raw \<Rightarrow> and_then (map_err BF_LogId (bo_parse_uuid bo raw)) (\<lambda>i. Inr (Some i))) (\<lambda>pinned_log_id.
    and_then (map_err (\<lambda>_. BF_Bind (pc_bind_addr (app_proxy_config config))) (bo_parse_addr bo (pc_bind_addr (app_proxy_config config)))) (\<lambda>addr.
    and_then (case app_tls_config config of
        None \<Rightarrow> Inr None
      | Some tls \<Rightarrow> and_then (map_err BF_Tls (load_tls (bo_pem bo) tls)) (\<lambda>x. Inr (Some x))) (\<lambda>tls_acceptor.
      Inr \<lparr>pr_config = config, pr_logging = logging, pr_engine = policy, pr_supervisor = spawn_reloads (bo_watcher bo) config supervisor_new,
        pr_pinned = pinned_log_id, pr_addr = addr, pr_tls = tls_acceptor\<rparr>)))))))"

text \<open>The log to record into: the pinned one, or a new one created through the pipeline in a scope of its own.  \<^term>\<open>None\<close> is
  a command that does not return.\<close>

definition resolve_log ::
    "jiff \<Rightarrow> hasher \<Rightarrow> log_id \<Rightarrow> instant \<Rightarrow> log_id option \<Rightarrow> server \<Rightarrow> ((boot_failure, log_id) result \<times> server) option" where
  "resolve_log j h new_id now pinned sv =
    (case pinned of
       Some i \<Rightarrow> Some (Inr i, sv)
     | None \<Rightarrow>
         (case enter_build sv of
            (Some error, sv') \<Rightarrow> Some (Inl (BF_Scope error), sv')
          | (None, sv') \<Rightarrow>
              (case send_create_log j h new_id now () (sv_world sv') of
                 None \<Rightarrow> None
               | Some (Inl error, w) \<Rightarrow> Some (Inl (BF_CreateLog error), sv'\<lparr>sv_world := w\<rparr>)
               | Some (Inr log, w) \<Rightarrow> Some (Inr log, sv'\<lparr>sv_world := scope_close w\<rparr>))))"

record ('p, 'e) server_config =
  sc_proxy :: proxy_config
  sc_log :: log_id
  sc_policy :: "('p, 'e) policy_engine"
  sc_fail_mode :: fail_mode
  sc_decision_timeout :: nat
  sc_checkpoint :: "checkpoint_settings option"
  sc_outbox :: outbox_settings

definition server_config_of :: "app_config \<Rightarrow> ('p, 'e) policy_engine \<Rightarrow> log_id \<Rightarrow> ('p, 'e) server_config" where
  "server_config_of config policy log =
    \<lparr>sc_proxy = app_proxy_config config, sc_log = log, sc_policy = policy, sc_fail_mode = app_fail_mode config,
     sc_decision_timeout = app_decision_timeout config, sc_checkpoint = app_checkpoint_settings config,
     sc_outbox = app_outbox_settings config\<rparr>"

section \<open>The server\<close>

text \<open>The deadline around the engine's decision: \<^verbatim>\<open>dp_late\<close> says whether it is missed.\<close>

definition guarded_engine ::
    "('q, 'm, 'g) plane \<Rightarrow> ('p, 'v, 'e, 'u) engine_api \<Rightarrow> fail_mode \<Rightarrow> nat \<Rightarrow> ('p, 'e) policy_engine \<Rightarrow>
      inspection_context \<Rightarrow> agent_event \<Rightarrow> 's \<Rightarrow> agent_event verdict \<times> 's" where
  "guarded_engine dp ea mode deadline engine =
    fail_mode_decide mode (\<lambda>c e s.
      (if dp_late dp deadline c e then None else engine_decide ea (ev_serde (dp_env dp)) (dp_show_uuid dp) engine c e, s))"

text \<open>The app's routes, the tasks it spawned, and what they run.\<close>

record ('a, 'q, 'm, 'g) built =
  bt_routes :: "uuid \<times> uuid \<Rightarrow> ('a \<times> 'q session_memory, 'm, 'g) routes"
  bt_supervisor :: supervisor
  bt_outbox :: "server audit_outbox"
  bt_scheduler :: "server checkpoint_scheduler option"
  bt_capacity :: nat
  bt_on_full :: full_policy

definition build_server ::
    "('q, 'm, 'g) plane \<Rightarrow> ('p, 'v, 'e, 'u) engine_api \<Rightarrow> jiff \<Rightarrow> ed25519_backend \<Rightarrow> hasher \<Rightarrow> configured_key option \<Rightarrow>
      (inspection_context \<Rightarrow> agent_event \<Rightarrow> agent_event verdict \<Rightarrow> 'a \<Rightarrow> 'a) \<Rightarrow> (audit_error, unit) result \<Rightarrow>
      ('p, 'e) server_config \<Rightarrow> supervisor \<Rightarrow> ('a, 'q, 'm, 'g) built" where
  "build_server dp ea j be h st audit health config supervisor =
    (let policy = guarded_engine dp ea (sc_fail_mode config) (sc_decision_timeout config) (sc_policy config);
         sp = supervisor_spawn T_Outbox supervisor in
     \<lparr>bt_routes = (\<lambda>fresh. build_app_with dp (sc_proxy config) policy audit fresh @ readiness_router health),
      bt_supervisor = (case sc_checkpoint config of None \<Rightarrow> sp | Some _ \<Rightarrow> supervisor_spawn T_Scheduler sp),
      bt_outbox = server_outbox h (sc_log config),
      bt_scheduler = map_option (\<lambda>settings. server_scheduler j be h st (ck_key settings) (sc_log config)) (sc_checkpoint config),
      bt_capacity = os_capacity (sc_outbox config), bt_on_full = os_on_full (sc_outbox config)\<rparr>)"

text \<open>From the environment to the server that is then served: connecting the store, resolving the log, building.\<close>

definition startup ::
    "('f, 'p, 'v, 'e, 'u, 'addr, 'tls, 'pool) boot_api \<Rightarrow> ('q, 'm, 'g) plane \<Rightarrow> jiff \<Rightarrow> ed25519_backend \<Rightarrow> hasher \<Rightarrow> configured_key option \<Rightarrow>
      (inspection_context \<Rightarrow> agent_event \<Rightarrow> agent_event verdict \<Rightarrow> 'a \<Rightarrow> 'a) \<Rightarrow> log_id \<Rightarrow> instant \<Rightarrow> server \<Rightarrow>
      ((boot_failure, ('p, 'e, 'addr, 'tls) prepared \<times> 'pool storage \<times> ('p, 'e) server_config \<times> ('a, 'q, 'm, 'g) built) result \<times> server) option" where
  "startup bo dp j be h st audit new_id now sv =
    (case prepare bo of
       Inl failure \<Rightarrow> Some (Inl failure, sv)
     | Inr pr \<Rightarrow>
         (case storage_connect (bo_connect bo) (bo_migrations bo) (app_storage_config (pr_config pr)) of
            Inl error \<Rightarrow> Some (Inl (BF_Connect error), sv)
          | Inr storage \<Rightarrow>
              (case resolve_log j h new_id now (pr_pinned pr) sv of
                 None \<Rightarrow> None
               | Some (Inl failure, sv') \<Rightarrow> Some (Inl failure, sv')
               | Some (Inr log, sv') \<Rightarrow>
                   let config = server_config_of (pr_config pr) (pr_engine pr) log in
                   Some (Inr (pr, storage, config,
                     build_server dp (bo_engines bo) j be h st audit (health_check (bo_acquire bo) storage) config (pr_supervisor pr)), sv'))))"

section \<open>Resolving the log\<close>

lemma resolve_log_result:
  assumes run: "resolve_log j h new_id now pinned sv = Some (r, sv')" and slot: "w_slot (sv_world sv) = None"
  shows "w_slot (sv_world sv') = None \<and> w_dropped (sv_world sv') = w_dropped (sv_world sv) \<and>
    set (w_faults (sv_world sv')) \<subseteq> set (w_faults (sv_world sv)) \<and>
    (case r of
       Inr i \<Rightarrow> (case pinned of
           Some k \<Rightarrow> i = k \<and> sv' = sv
         | None \<Rightarrow> i = new_id \<and> w_db (sv_world sv') = upsert_log (new_log_row j h new_id now) (w_db (sv_world sv)))
     | Inl e \<Rightarrow> no_unacked (w_faults (sv_world sv)) \<longrightarrow> w_db (sv_world sv') = w_db (sv_world sv))"
proof (cases pinned)
  case (Some i)
  with run slot show ?thesis by (auto simp: resolve_log_def)
next
  case None
  obtain x sv1 where x: "enter_build sv = (x, sv1)" "sv_world sv1 = sv_world sv"
    by (cases "enter_build sv") (auto simp: enter_build_def split: list.splits)
  show ?thesis
  proof (cases x)
    case (Some err)
    with run x None slot show ?thesis by (auto simp: resolve_log_def)
  next
    case no_err: None
    obtain q w where q: "send_create_log j h new_id now () (sv_world sv) = Some (q, w)" using send_create_log_returns by fastforce
    note c = send_create_log_result [OF q slot]
    then have w: "scope_close w = w" by simp
    show ?thesis
      using run c w q x None no_err by (cases q) (auto simp: resolve_log_def)
  qed
qed


section \<open>What startup establishes\<close>



lemma prepare_Inr:
  assumes "prepare bo = Inr pr"
  shows "load (bo_figment bo) (bo_env bo) = Inr (pr_config pr)" "validate_app (bo_features bo) (pr_config pr) = Inr ()"
    "build_policy (bo_features bo) (bo_engines bo) (bo_files bo) (pr_config pr) = Inr (pr_engine pr)"
    "pr_supervisor pr = spawn_reloads (bo_watcher bo) (pr_config pr) supervisor_new"
    "case bo_env bo ''AUDIT_LOG_ID'' of None \<Rightarrow> pr_pinned pr = None | Some raw \<Rightarrow> (\<exists>i. bo_parse_uuid bo raw = Inr i \<and> pr_pinned pr = Some i)"
  using assms by (auto simp: prepare_def Let_def and_then_eq_Inr split: option.splits)

lemma startup_Inr:
  assumes "startup bo dp j be h st audit new_id now sv = Some (Inr (pr, storage, sc, srv), sv')"
  obtains i where "prepare bo = Inr pr" "resolve_log j h new_id now (pr_pinned pr) sv = Some (Inr i, sv')"
    "sc = server_config_of (pr_config pr) (pr_engine pr) i"
    "srv = build_server dp (bo_engines bo) j be h st audit (health_check (bo_acquire bo) storage) sc (pr_supervisor pr)"
  using assms by (auto simp: startup_def Let_def split: sum.splits option.splits prod.splits)




section \<open>From startup to exit\<close>

lemma spawn_reloads_tasks:
  "distinct (sp_tasks (spawn_reloads nt a supervisor_new)) \<and> set (sp_tasks (spawn_reloads nt a supervisor_new)) \<subseteq> {T_Sighup, T_Watch}"
  by (simp add: spawn_reloads_def supervisor_new_def supervisor_spawn_def Let_def split: policy_backend_kind.split option.split)

lemma built_tasks:
  assumes "prepare bo = Inr pr"
  shows "distinct (sp_tasks (bt_supervisor (build_server dp ea j be h st audit health sc (pr_supervisor pr))))"
    and "T_Outbox \<in> set (sp_tasks (bt_supervisor (build_server dp ea j be h st audit health sc (pr_supervisor pr))))"
  using spawn_reloads_tasks [of "bo_watcher bo" "pr_config pr"] prepare_Inr(4) [OF assms]
  by (auto simp: build_server_def supervisor_spawn_def Let_def split: option.split)

lemma startup_valid:
  assumes "startup bo dp j be h st audit new_id now sv = Some (Inr (pr, storage, sc, srv), sv')" and valid: "server_valid h (sc_log sc) sv"
  shows "prepare bo = Inr pr" "server_valid h (sc_log sc) sv'" "log_leaves (sc_log sc) sv' = log_leaves (sc_log sc) sv"
    "log_drops sv' = log_drops sv" "acks_lost sv' \<Longrightarrow> acks_lost sv"
proof -
  from assms(1) obtain i where p: "prepare bo = Inr pr" and r: "resolve_log j h new_id now (pr_pinned pr) sv = Some (Inr i, sv')"
    and sc: "sc = server_config_of (pr_config pr) (pr_engine pr) i"
    by (rule startup_Inr) (erule (2) that)
  have i: "sc_log sc = i" by (simp add: sc server_config_of_def)
  note res = resolve_log_result [OF r]
  show "prepare bo = Inr pr" by (rule p)
  show "server_valid h (sc_log sc) sv'" "log_leaves (sc_log sc) sv' = log_leaves (sc_log sc) sv" "log_drops sv' = log_drops sv"
    using res valid
    by (cases "pr_pinned pr"; force simp: server_valid_def anchors_true_def upsert_log_keeps)+
  have "set (w_faults (sv_world sv')) \<subseteq> set (w_faults (sv_world sv))" using res valid by (simp add: server_valid_def)
  then show "acks_lost sv' \<Longrightarrow> acks_lost sv" using no_unacked_mono by blast
qed

text \<open>C7: Shutting down loses nothing.  A server that has started, on a store between two commands, records to its log; whatever requests,
  decisions, ticks and signals then come in whatever order and whatever fails in the database, when the process exits every
  decision that was enqueued was taken from the queue in order, the log has grown by the leaf hashes of all records whose append was
  acknowledged and of nothing but drained records, hence by exactly the acknowledged ones if no acknowledgement of a commit is
  lost, and every record without an acknowledgement was counted as dropped.  And once the shutdown token is tripped the process
  can always get to its exit.\<close>

theorem shutdown_loses_nothing:
  assumes "startup bo dp j be h st audit new_id now sv = Some (Inr (pr, storage, sc, srv), sv')" and "server_valid h (sc_log sc) sv"
    and "mpsc_laws mp q" and "closing_laws mp q closed" and "q ch = []"
    and "steps = (server_step sj su mp (bt_on_full srv) (bt_outbox srv) (server_scheduler j be h st key (sc_log sc)))\<^sup>*\<^sup>*"
    and "steps (life_start (bt_supervisor srv) \<lparr>br_chan = ch, br_state = sv', br_last = None\<rparr>) l"
  shows "(lf_exited l \<longrightarrow>
      over drained_of (lf_trace l) = map (record_of sj su) (over enqueued_of (lf_trace l)) \<and>
      (\<exists>rs. log_leaves (sc_log sc) (br_state (lf_bridge l)) = log_leaves (sc_log sc) sv @ map (\<lambda>r. dg_bytes (leaf h r)) rs \<and>
        subseq (over logged_of (lf_trace l)) rs \<and> subseq rs (over drained_of (lf_trace l)) \<and>
        (no_unacked (w_faults (sv_world sv)) \<longrightarrow> rs = over logged_of (lf_trace l))) \<and>
      log_drops (br_state (lf_bridge l)) = log_drops sv + length (filter is_loss (lf_trace l))) \<and>
    (supervisor_token (lf_supervisor l) \<longrightarrow> (\<exists>l'. steps l l' \<and> lf_exited l'))"
proof -
  from assms(1) obtain i where p: "prepare bo = Inr pr"
      and srv: "srv = build_server dp (bo_engines bo) j be h st audit (health_check (bo_acquire bo) storage) sc (pr_supervisor pr)"
    by (rule startup_Inr) (erule (1) that)
  note up = startup_valid [OF assms(1,2)]
  have ob: "bt_outbox srv = server_outbox h (sc_log sc)" by (simp add: srv build_server_def Let_def)
  note run = assms(7) [unfolded assms(6) ob]
  have sp: "distinct (sp_tasks (bt_supervisor srv))" "T_Outbox \<in> set (sp_tasks (bt_supervisor srv))"
    unfolding srv by (rule built_tasks [OF p])+
  have start: "q (br_chan \<lparr>br_chan = ch, br_state = sv', br_last = None\<rparr>) = []"
      "server_valid h (sc_log sc) (br_state \<lparr>br_chan = ch, br_state = sv', br_last = None\<rparr>)" using assms(5) up(2) by simp_all
  note acc = server_bridge.exit_accounts [OF run assms(3,4) start sp]
  have "over drained_of (lf_trace l) = map (record_of sj su) (over enqueued_of (lf_trace l)) \<and>
      (\<exists>rs. log_leaves (sc_log sc) (br_state (lf_bridge l)) = log_leaves (sc_log sc) sv @ map (\<lambda>r. dg_bytes (leaf h r)) rs \<and>
        subseq (over logged_of (lf_trace l)) rs \<and> subseq rs (over drained_of (lf_trace l)) \<and>
        (no_unacked (w_faults (sv_world sv)) \<longrightarrow> rs = over logged_of (lf_trace l))) \<and>
      log_drops (br_state (lf_bridge l)) = log_drops sv + length (filter is_loss (lf_trace l))" if "lf_exited l"
  proof -
    from acc [OF that] up(3-5) show ?thesis by auto
  qed
  moreover have "\<exists>l'. steps l l' \<and> lf_exited l'" if "supervisor_token (lf_supervisor l)"
    using server_bridge.shutdown_exits [OF run assms(3,4) start sp that] unfolding assms(6) ob .
  ultimately show ?thesis by blast
qed

section \<open>A server that starts\<close>

definition demo_app :: app_config where
  "demo_app =
    \<lparr>ac_proxy = proxy_section_default\<lparr>ps_agent_endpoint := ''http://agent''\<rparr>,
     ac_audit = audit_section_default\<lparr>as_database_url := ''postgres://db''\<rparr>,
     ac_policy = policy_section_default\<lparr>po_redact := [''secret'']\<rparr>,
     ac_observability = observability_config_default, ac_tls = \<lparr>tls_enabled = False, tls_cert = [], tls_key = []\<rparr>\<rparr>"

definition demo_app_ruleset :: policy_ruleset where
  "demo_app_ruleset = \<lparr>rs_tools = AllowAll, rs_arguments = [], rs_results = [], rs_secrets = [Literal ''secret'']\<rparr>"

definition demo_boot :: "(unit, string, unit, unit, unit, unit, unit, unit) boot_api" where
  "demo_boot =
    \<lparr>bo_figment = \<lparr>fg_from = (\<lambda>_. ()), fg_toml_file = (\<lambda>_. ()), fg_env = (\<lambda>_ _. ()), fg_merge = (\<lambda>_ _. ()), fg_extract = (\<lambda>_. Inr demo_app)\<rparr>,
     bo_env = Map.empty, bo_features = \<lparr>ft_policy_cel = False, ft_policy_rego = False\<rparr>, bo_engines = demo_engine_api,
     bo_files = (\<lambda>_. Inl ''none''), bo_watcher = \<lparr>nt_create = Inr (), nt_watch = (\<lambda>_. Inr ())\<rparr>,
     bo_parse_addr = (\<lambda>_. Inr ()), bo_parse_uuid = (\<lambda>_. Inl ''none''),
     bo_filters = \<lparr>fl_default_env = None, fl_try_new = Some, fl_new = id\<rparr>, bo_exporter = (\<lambda>_. Inr ()), bo_install = (\<lambda>_. Inr ()), bo_pem = (\<lambda>_ _. Inr ()),
     bo_connect = (\<lambda>_ n. if n = 0 then Inl ''starting'' else Inr ()), bo_migrations = (\<lambda>_. Inr ()),
     bo_acquire = (\<lambda>_. Inr ())\<rparr>"

abbreviation demo_server :: server where
  "demo_server \<equiv> \<lparr>sv_world = demo_world [], sv_scopes = [], sv_depths = []\<rparr>"

abbreviation demo_prepared :: "(string, unit, unit, unit) prepared" where
  "demo_prepared \<equiv> \<lparr>pr_config = demo_app,
    pr_logging = (Some \<lparr>su_filter = ''info'', su_format = LF_Pretty, su_otel = None\<rparr>, None), pr_engine = PE_Ruleset demo_app_ruleset, pr_supervisor = supervisor_new, pr_pinned = None,
    pr_addr = (), pr_tls = None\<rparr>"

lemma demo_app_rules: "app_policy_ruleset rx demo_app = Inr demo_app_ruleset"
proof -
  have "trim ''secret'' \<noteq> []" by code_simp
  then show ?thesis
    by (simp add: app_policy_ruleset_def demo_app_def policy_section_default_def Let_def and_then_def pattern_literal_def
        map_err_def with_result_rules_def ruleset_new_def demo_app_ruleset_def)
qed

lemma demo_app_backend: "po_backend (ac_policy demo_app) = BK_Ruleset"
  by (simp add: demo_app_def policy_section_default_def)

lemma demo_app_valid: "validate_app (bo_features demo_boot) demo_app = Inr ()"
proof -
  have "trim ''http://agent'' \<noteq> []" "trim ''postgres://db'' \<noteq> []" by code_simp+
  then show ?thesis
    by (simp add: validate_app_def validate_proxy_def validate_audit_def validate_postgres_def validate_policy_def validate_tls_def
        demo_app_def demo_boot_def proxy_section_default_def audit_section_default_def policy_section_default_def
        session_memory_section_default_def)
qed

lemma demo_prepare: "prepare demo_boot = Inr demo_prepared"
proof -
  have "build_policy (bo_features demo_boot) (bo_engines demo_boot) (bo_files demo_boot) demo_app = Inr (PE_Ruleset demo_app_ruleset)"
    using demo_app_rules by (simp add: build_policy_def demo_app_backend)
  moreover have "init_metrics (bo_parse_addr demo_boot) (bo_install demo_boot) (ob_metrics_section (ac_observability demo_app)) = Inr False"
    by (simp add: init_metrics_def endpoint_def demo_app_def observability_config_default_def metrics_config_default_def)
  moreover have "init_logging (bo_filters demo_boot) (bo_exporter demo_boot) (ob_logging (ac_observability demo_app)) (ob_tracing (ac_observability demo_app)) =
      (Some \<lparr>su_filter = ''info'', su_format = LF_Pretty, su_otel = None\<rparr>, None)"
    by (simp add: init_logging_def build_tracer_provider_def demo_boot_def demo_app_def observability_config_default_def logging_config_default_def
        tracing_config_default_def)
  moreover have "load (bo_figment demo_boot) (bo_env demo_boot) = Inr demo_app" by (simp add: load_def demo_boot_def)
  moreover have "spawn_reloads (bo_watcher demo_boot) demo_app supervisor_new = supervisor_new"
    by (simp add: spawn_reloads_def demo_app_def policy_section_default_def)
  moreover have "app_tls_config demo_app = None" by (simp add: app_tls_config_def demo_app_def)
  ultimately show ?thesis by (simp add: prepare_def demo_app_valid Let_def) (simp add: demo_boot_def)
qed

lemma demo_create: "\<exists>w. send_create_log demo_jiff demo_hasher 9 0 () (demo_world []) = Some (Inr 9, w)"
  by (simp add: send_create_log_unfold handle_create_log_def gw_save_def factory_create_def tl_new_def demo_run)

abbreviation demo_server_config :: "(string, unit) server_config" where
  "demo_server_config \<equiv> server_config_of demo_app (PE_Ruleset demo_app_ruleset) 9"

definition demo_plane :: "(nat, nat, unit) plane" where
  "demo_plane =
    \<lparr>dp_env = demo_env, dp_body = (\<lambda>_ b. Inr b), dp_semaphore = demo_semaphore, dp_limiter = demo_limiter, dp_lookup = (\<lambda>_. None),
     dp_url = (\<lambda>_. None), dp_client = (\<lambda>_ _. Inr ()), dp_redis_client = None, dp_redis = demo_redis, dp_show_uuid = unary_uuid, dp_now = 0, dp_late = (\<lambda>_ _ _. False)\<rparr>"

definition demo_built :: "(unit, nat, nat, unit) built" where
  "demo_built = build_server demo_plane demo_engine_api demo_jiff demo_ed25519 demo_hasher None noop_record (health_check (\<lambda>_. Inr ()) (ST_Postgres ())) demo_server_config
    (pr_supervisor demo_prepared)"

lemma demo_startup:
  "\<exists>sv'. startup demo_boot demo_plane demo_jiff demo_ed25519 demo_hasher None noop_record 9 0 demo_server =
      Some (Inr (demo_prepared, ST_Postgres (), demo_server_config, demo_built), sv')"
proof -
  have "storage_connect (bo_connect demo_boot) (bo_migrations demo_boot) (app_storage_config demo_app) = Inr (ST_Postgres ())"
    by (simp add: storage_connect_def app_storage_config_def app_postgres_config_def demo_app_def audit_section_default_def demo_boot_def
        connect_pool_def connect_loop.simps)
  moreover have "bo_acquire demo_boot = (\<lambda>_. Inr ())" "bo_engines demo_boot = demo_engine_api" by (simp_all add: demo_boot_def)
  ultimately show ?thesis
    using demo_create by (auto simp: startup_def demo_prepare resolve_log_def enter_build_def demo_built_def Let_def)
qed


text \<open>A channel with an end: whether the sender is gone, and at most two records.\<close>

definition demo_pipe :: "(bool \<times> bytes list) mpsc" where
  "demo_pipe =
    \<lparr>mp_send = (\<lambda>r (gone, ch). if gone then Some (False, (gone, ch)) else if 2 \<le> length ch then None else Some (True, (gone, ch @ [r]))),
     mp_try_send = (\<lambda>r (gone, ch). if gone then (TS_Closed, (gone, ch)) else if 2 \<le> length ch then (TS_Full, (gone, ch)) else (TS_Sent, (gone, ch @ [r]))),
     mp_recv = (\<lambda>(gone, ch). case ch of [] \<Rightarrow> if gone then Some (None, (gone, [])) else None | r # rs \<Rightarrow> Some (Some r, (gone, rs))),
     mp_capacity = (\<lambda>(gone, ch). 2 - length ch), mp_max_capacity = (\<lambda>_. 2), mp_close = (\<lambda>(gone, ch). (True, ch))\<rparr>"

lemma demo_pipe_laws: "mpsc_laws demo_pipe snd" "closing_laws demo_pipe snd fst"
  by (auto simp: mpsc_laws_def closing_laws_def demo_pipe_def split: list.splits if_splits)

abbreviation demo_steps :: "(bool \<times> bytes list, server) life \<Rightarrow> (bool \<times> bytes list, server) life \<Rightarrow> bool" where
  "demo_steps \<equiv> (server_step tagged_serde unary_uuid demo_pipe (bt_on_full demo_built) (bt_outbox demo_built)
    (server_scheduler demo_jiff demo_ed25519 demo_hasher None ''k'' 9))\<^sup>*\<^sup>*"

abbreviation demo_life :: "server \<Rightarrow> (bool \<times> bytes list, server) life" where
  "demo_life sv \<equiv> life_start (bt_supervisor demo_built) \<lparr>br_chan = (False, []), br_state = sv, br_last = None\<rparr>"

lemma three_steps: "r a b \<Longrightarrow> r b c \<Longrightarrow> r c d \<Longrightarrow> r\<^sup>*\<^sup>* a d"
  by (meson r_into_rtranclp rtranclp.rtrancl_into_rtrancl)

lemma demo_stopping:
  obtains l where "demo_steps (demo_life sv) l" "supervisor_token (lf_supervisor l)" "lf_trace l = [demo_offered]"
proof -
  let ?step = "server_step tagged_serde unary_uuid demo_pipe (bt_on_full demo_built) (bt_outbox demo_built)
    (server_scheduler demo_jiff demo_ed25519 demo_hasher None ''k'' 9)"
  have pol: "bt_on_full demo_built = FP_Block"
    by (simp add: demo_built_def build_server_def Let_def server_config_of_def app_outbox_settings_def demo_app_def audit_section_default_def)
  let ?l1 = "(demo_life sv)\<lparr>lf_runs := Suc (lf_runs (demo_life sv))\<rparr>"
  have 1: "?step (demo_life sv) ?l1" by (rule server_step.arrive) (simp add: life_start_def)
  obtain b where b: "sink_record tagged_serde unary_uuid \<lparr>sk_tx = demo_pipe, sk_metrics = ob_metrics (bt_outbox demo_built),
      sk_on_full = bt_on_full demo_built\<rparr> demo_context (E_Opaque Raw) V_Allow (lf_bridge ?l1) = Some b"
    by (simp add: sink_record_def enqueue_def pol demo_pipe_def life_start_def Let_def)
  have en: "enqueue demo_pipe (bt_on_full demo_built) demo_record (br_chan (lf_bridge ?l1)) = Some (Inr (), (False, [demo_record]))"
    by (simp add: enqueue_def pol demo_pipe_def life_start_def)
  let ?l2 = "?l1\<lparr>lf_trace := lf_trace ?l1 @ [demo_offered], lf_bridge := b\<rparr>"
  have 2: "?step ?l1 ?l2" by (rule server_step.decide [OF _ en b]) simp
  let ?l3 = "?l2\<lparr>lf_supervisor := supervisor_trigger (lf_supervisor ?l2)\<rparr>"
  have 3: "?step ?l2 ?l3" by (rule server_step.signal)
  have "demo_steps (demo_life sv) ?l3" by (rule three_steps [of ?step, OF 1 2 3])
  then show thesis by (rule that) (simp_all add: supervisor_token_def supervisor_trigger_def life_start_def)
qed

theorem shutdown_loses_nothing_witness:
  "\<exists>sv l l'. startup demo_boot demo_plane demo_jiff demo_ed25519 demo_hasher None noop_record 9 0 demo_server =
      Some (Inr (demo_prepared, ST_Postgres (), demo_server_config, demo_built), sv) \<and>
    demo_steps (demo_life sv) l \<and> lf_trace l = [demo_offered] \<and> demo_steps l l' \<and> lf_exited l' \<and>
    over drained_of (lf_trace l') = map (record_of tagged_serde unary_uuid) (over enqueued_of (lf_trace l')) \<and>
    log_leaves 9 (br_state (lf_bridge l')) = map (\<lambda>r. dg_bytes (leaf demo_hasher r)) (over logged_of (lf_trace l'))"
proof -
  obtain sv where up: "startup demo_boot demo_plane demo_jiff demo_ed25519 demo_hasher None noop_record 9 0 demo_server =
      Some (Inr (demo_prepared, ST_Postgres (), demo_server_config, demo_built), sv)"
    using demo_startup by blast
  have log: "sc_log demo_server_config = 9" by (simp add: server_config_of_def)
  have valid: "server_valid demo_hasher (sc_log demo_server_config) demo_server" using demo_bridge_valid [of demo_hasher _ "[]"]
    by (simp add: demo_bridge_def server_valid_def anchors_true_def)
  note law = shutdown_loses_nothing [OF up valid demo_pipe_laws _ refl, of "(False, [])" tagged_serde unary_uuid "''k''", unfolded log, simplified]
  obtain l where l: "demo_steps (demo_life sv) l" "supervisor_token (lf_supervisor l)" "lf_trace l = [demo_offered]" by (rule demo_stopping)
  from law [OF l(1)] l(2) obtain l' where l': "demo_steps l l'" "lf_exited l'" by blast
  with l law [OF rtranclp_trans [OF l(1) l'(1)]] up show ?thesis
    by (intro exI [of _ sv] exI [of _ l] exI [of _ l']) (auto simp: no_unacked_def)
qed

end
