(* ===== verification/Standalone.thy ===== *)
theory Standalone
  imports Server_Boot
begin

text \<open>
  The two services on their own (\<^verbatim>\<open>main.rs\<close>, \<^verbatim>\<open>setup/configs\<close> and \<^verbatim>\<open>setup/ioc\<close> of \<^verbatim>\<open>crates/agate-audit\<close> and
  \<^verbatim>\<open>crates/agate-proxy\<close>): configuration from the environment, the audit service's singletons, both startups, and the
  metrics recorders.  The environment, the hash functions and the listener are parameters.
\<close>

section \<open>The audit service\<close>

definition pool_config_default :: pool_config where
  "pool_config_default = \<lparr>pl_max_connections = 10, pl_acquire_timeout = 30, pl_connect_max_retries = 10, pl_connect_backoff = 1\<rparr>"

definition postgres_config_new :: "string \<Rightarrow> postgres_config" where
  "postgres_config_new url = \<lparr>pg_database_url = url, pg_pool = pool_config_default\<rparr>"

definition postgres_from_env :: "(string \<rightharpoonup> string) \<Rightarrow> (string, postgres_config) result" where
  "postgres_from_env vars = and_then (ok_or ''DATABASE_URL must be set'' (vars ''DATABASE_URL'')) (\<lambda>url. Inr (postgres_config_new url))"

definition with_pool :: "postgres_config \<Rightarrow> pool_config \<Rightarrow> postgres_config" where
  "with_pool config pool = config\<lparr>pg_pool := pool\<rparr>"

record http_config =
  hc_bind_addr :: string

definition http_from_env :: "(string \<rightharpoonup> string) \<Rightarrow> http_config" where
  "http_from_env vars = \<lparr>hc_bind_addr = (case vars ''BIND_ADDR'' of Some addr \<Rightarrow> addr | None \<Rightarrow> ''0.0.0.0:8080'')\<rparr>"

record audit_app_config =
  au_postgres :: postgres_config
  au_http :: http_config

definition audit_from_env :: "(string \<rightharpoonup> string) \<Rightarrow> (string, audit_app_config) result" where
  "audit_from_env vars = and_then (postgres_from_env vars) (\<lambda>postgres. Inr \<lparr>au_postgres = postgres, au_http = http_from_env vars\<rparr>)"

definition default_hasher :: "Agate_Crypto.features \<Rightarrow> hash_backend \<Rightarrow> (string, hasher) result" where
  "default_hasher fs mk = map_err (\<lambda>_. ''SHA-256 is always available'') (resolve_hasher fs mk Sha256)"

text \<open>The singletons behind the routes: the hasher and the checkpoint key.\<close>

record audit_singletons =
  ag_hasher :: hasher
  ag_keys :: "configured_key option"

definition agnostic_providers ::
    "Agate_Crypto.features \<Rightarrow> hash_backend \<Rightarrow> ed25519_backend \<Rightarrow> (string \<rightharpoonup> string) \<Rightarrow> (string, audit_singletons) result" where
  "agnostic_providers fs mk be vars =
    and_then (default_hasher fs mk) (\<lambda>h.
      Inr \<lparr>ag_hasher = h, ag_keys = keys_from_env be (vars ''AUDIT_CHECKPOINT_KEY_ID'') (vars ''AUDIT_CHECKPOINT_SEED'')\<rparr>)"

definition audit_build_app ::
    "(log_id \<Rightarrow> string) \<Rightarrow> jiff \<Rightarrow> ed25519_backend \<Rightarrow> audit_singletons \<Rightarrow> api_call \<Rightarrow> world \<Rightarrow> (api_reply \<times> world) option" where
  "audit_build_app su j be ag = audit_app su j be (ag_hasher ag) (ag_keys ag)"

datatype audit_failure = AF_Config string | AF_Connect audit_error | AF_Bind string

definition audit_main ::
    "(string \<rightharpoonup> string) \<Rightarrow> (string \<Rightarrow> nat \<Rightarrow> (string, 'pool) result) \<Rightarrow> ('pool \<Rightarrow> (string, unit) result) \<Rightarrow>
      (string \<Rightarrow> (string, 'sock) result) \<Rightarrow> (audit_failure, 'pool storage \<times> 'sock) result" where
  "audit_main vars connect migrations listen =
    and_then (map_err AF_Config (audit_from_env vars)) (\<lambda>config.
    and_then (map_err AF_Connect (storage_connect connect migrations (SC_Postgres (au_postgres config)))) (\<lambda>storage.
    and_then (map_err AF_Bind (listen (hc_bind_addr (au_http config)))) (\<lambda>listener. Inr (storage, listener))))"

section \<open>The proxy\<close>

definition proxy_from_env :: "(string \<rightharpoonup> string) \<Rightarrow> (string, proxy_config) result" where
  "proxy_from_env vars =
    and_then (ok_or ''AGENT_ENDPOINT must be set'' (vars ''AGENT_ENDPOINT'')) (\<lambda>agent_endpoint.
      Inr (proxy_config_new agent_endpoint (case vars ''BIND_ADDR'' of Some addr \<Rightarrow> addr | None \<Rightarrow> ''0.0.0.0:8080'')))"

definition proxy_main ::
    "(string \<rightharpoonup> string) \<Rightarrow> (string \<Rightarrow> (string, 'sock) result) \<Rightarrow> ('q, 'm, 'g) plane \<Rightarrow>
      (string, 'sock \<times> (uuid \<times> uuid \<Rightarrow> ('a \<times> 'q session_memory, 'm, 'g) routes)) result" where
  "proxy_main vars listen dp =
    and_then (proxy_from_env vars) (\<lambda>config.
    and_then (listen (pc_bind_addr config)) (\<lambda>listener. Inr (listener, build_app dp config)))"

section \<open>Metrics\<close>

text \<open>The counters of the metrics facade, by name and labels.\<close>

type_synonym counters = "string \<times> (string \<times> string) list \<Rightarrow> nat"

fun metric_key :: "metric \<Rightarrow> string \<times> (string \<times> string) list" where
  "metric_key RecordRun = (''agate_runs_total'', [])"
| "metric_key (RecordUpstreamError error) = (''agate_upstream_errors_total'', [(''kind'', upstream_error_label error)])"
| "metric_key (RecordInspected outcome) = (''agate_events_inspected_total'', [(''outcome'', outcome_label outcome)])"

definition proxy_metrics_record :: "metric \<Rightarrow> counters \<Rightarrow> counters" where
  "proxy_metrics_record m c = c(metric_key m := Suc (c (metric_key m)))"

text \<open>A count as a gauge value: a \<^verbatim>\<open>u32\<close> converts exactly, more saturates.\<close>

definition gauge_value :: "nat \<Rightarrow> nat" where
  "gauge_value n = (if n < 2 ^ 32 then n else 2 ^ 32 - 1)"

definition gauge_outbox_depth :: "nat \<Rightarrow> nat \<Rightarrow> (string \<rightharpoonup> nat) \<Rightarrow> (string \<rightharpoonup> nat)" where
  "gauge_outbox_depth used capacity g =
    g(''agate_audit_outbox_depth'' \<mapsto> gauge_value used, ''agate_audit_outbox_capacity'' \<mapsto> gauge_value capacity)"

section \<open>What they guarantee\<close>

text \<open>With the default features the audit service hashes with SHA-256.\<close>

lemma default_hasher_sha256: "f_sha2 fs \<Longrightarrow> default_hasher fs mk = Inr \<lparr>hs_algo = Sha256, hs_make = mk Sha256\<rparr>"
  by (simp add: default_hasher_def resolve_hasher_def)

text \<open>Under the standalone proxy's permissive policy nothing is refused by policy, but the guard still holds: every text
  of a request it forwards is free of refused URLs.\<close>

lemma standalone_request_urls:
  assumes "build_container dp cfg = Inr ct" and "inspect_request (ct_inspector ct) c rq s = (R_Allow, s')"
  shows "list_all (\<lambda>t. first_disallowed_url (dp_url dp) (tokio_resolve (dp_lookup dp)) t = None) (rq_user_messages rq @ rq_hidden_fields rq)"
proof -
  have "ct_inspector ct = inspector_new dp allow_all_decide noop_record"
    using assms(1) by (auto simp: build_container_def build_container_with_def and_then_eq_Inr)
  with admitted_request_passes(2) [OF assms(2)] show ?thesis
    by (auto simp: list_all_iff disallowed_url_def inspector_new_def)
qed

text \<open>A counter shows how often its metric was recorded.\<close>

lemma counters_count: "fold proxy_metrics_record ms c k = c k + length (filter (\<lambda>m. metric_key m = k) ms)"
  by (induction ms arbitrary: c) (auto simp: proxy_metrics_record_def)

lemma gauge_value_exact: "gauge_value n = min n (2 ^ 32 - 1)"
  by (simp add: gauge_value_def min_def)

end
