(* ===== verification/Spec2Isabelle.thy ===== *)
theory Spec2Isabelle
  imports Agate_Crypto Stream_Guarantees Standalone
begin

text \<open>
  Agate is a reverse proxy for AG-UI agents that inspects what passes in both directions, asks a policy
  engine about it, and records every decision in a Merkle transparency log.  This development models the
  five crates of the repository and proves what each part promises and what they promise together.

  \<^bold>\<open>The program and its parts.\<close>  A client posts a run.  \<^verbatim>\<open>agate-proxy\<close> admits the request (key, rate and
  concurrency limits), screens the texts and tools in it, forwards it to the agent, and reads the event stream
  that comes back: frames are decoded, mapped to fragments, checked by a state machine per run, and the events
  judged by an inspector, which consults session memory, a guard against forged request targets and the policy
  port, and reports each verdict to the audit port.  \<^verbatim>\<open>agate-policy\<close> decides by lists and deny rules;
  \<^verbatim>\<open>agate-server\<close> puts it (or a CEL or Rego engine) behind the policy port and an outbox behind the audit
  port.  The outbox appends to a log of \<^verbatim>\<open>agate-audit\<close>, a Merkle tree in PostgreSQL whose head a scheduler signs
  at intervals; \<^verbatim>\<open>agate-crypto\<close> supplies hashes, signatures and encryption.

  \<^bold>\<open>Theories and sources\<close> (paths under \<^verbatim>\<open>src/crates\<close>).

  \<^item> \<^verbatim>\<open>Agate_Prelude\<close>, \<^verbatim>\<open>Agate_Text\<close>, \<^verbatim>\<open>Utf8_Text\<close>: results, bytes, the operations of \<^verbatim>\<open>str\<close> and lossy decoding of
    the Rust library, and \<^verbatim>\<open>serde_json::Value\<close>.
  \<^item> \<^verbatim>\<open>Agate_Crypto\<close> (\<^verbatim>\<open>agate-crypto/src\<close>): algorithm codes, adapters, factories, the five handlers, error texts.
  \<^item> \<^verbatim>\<open>Merkle_Tree\<close>, \<^verbatim>\<open>Merkle_Security\<close> (\<^verbatim>\<open>agate-audit/src/domain/merkle/services\<close>): tree hash, proofs and their
    verifiers at 64 bits; they agree with a reference definition, accept every true proof, and accept a false one only
    with a hash collision that is computed, for proofs that claim the size of the log they are checked against.  The
    verifiers fail to return on exactly the proofs that claim a size above \<open>2^63\<close> and get to split it.
  \<^item> \<^verbatim>\<open>Audit_Log\<close> (\<^verbatim>\<open>agate-audit/src/domain\<close>, \<^verbatim>\<open>infrastructure/key_store.rs\<close>): the aggregate, tree heads, checkpoints, keys.
    The locale \<^verbatim>\<open>append_only\<close> is the contract of a log, interpreted on the aggregate here and on the gateway in
    \<^verbatim>\<open>Audit_Store\<close>.
  \<^item> \<^verbatim>\<open>Audit_Store\<close> (\<^verbatim>\<open>infrastructure/persistence\<close>): tables, one definition per SQL statement, the transaction slot,
    and a script of faults that each statement consumes; a commit may take effect and its acknowledgement be lost.
  \<^item> \<^verbatim>\<open>Audit_App\<close>, \<^verbatim>\<open>Audit_Registry\<close> (\<^verbatim>\<open>application\<close>, \<^verbatim>\<open>presentation\<close>, \<^verbatim>\<open>setup/ioc\<close>): handlers, behaviors, mediator, the
    routing table and its resolution; an append is all or nothing, a checkpoint signs the root of the stored leaves.
  \<^item> \<^verbatim>\<open>Audit_Service\<close> (\<^verbatim>\<open>presentation/http\<close>, \<^verbatim>\<open>setup/bootstrap\<close>): the routes as one service; \<^verbatim>\<open>growing_service\<close> is the contract that
    what was stored stays stored, interpreted on it.
  \<^item> \<^verbatim>\<open>Policy_Rules\<close>, \<^verbatim>\<open>Policy_Safety\<close> (\<^verbatim>\<open>agate-policy/src\<close>): patterns, masking, matchers, rules and the evaluator; masking ends
    and leaves no literal that the mask cannot spell, the evaluator implements a declarative reading of the rules.
  \<^item> \<^verbatim>\<open>Run_Machine\<close> (\<^verbatim>\<open>agate-proxy/src/domain/inspection\<close>), \<^verbatim>\<open>Ssrf_Guard\<close>, \<^verbatim>\<open>Session_Memory\<close>, \<^verbatim>\<open>Inspector\<close> (\<^verbatim>\<open>application/inspection\<close>,
    \<^verbatim>\<open>infrastructure/policy\<close>): budgets are kept, tool calls are assembled from their deltas, refused IPv4 addresses are
    exactly the listed ranges, and denied tools stay denied while the in-process memory holds them.
  \<^item> \<^verbatim>\<open>Sse_Codec\<close>, \<^verbatim>\<open>Agui_Mapper\<close>, \<^verbatim>\<open>Stream_Proxy\<close>, \<^verbatim>\<open>Stream_Guarantees\<close> (\<^verbatim>\<open>infrastructure/sse\<close>, \<^verbatim>\<open>infrastructure/ag_ui\<close>,
    \<^verbatim>\<open>presentation/stream.rs\<close>): the response leg; recognised events are relayed only as judged, in whatever chunks they come.
    Two bodies that a client reads otherwise than the decoder are shown: bare carriage returns and a byte order mark.
  \<^item> \<^verbatim>\<open>Ingress\<close> (\<^verbatim>\<open>presentation/http\<close>, \<^verbatim>\<open>infrastructure/agent\<close>, \<^verbatim>\<open>setup/configs\<close>): the run route behind its layers.
  \<^item> \<^verbatim>\<open>Policy_Adapters\<close>, \<^verbatim>\<open>Policy_Reload\<close> (\<^verbatim>\<open>agate-server/src/infrastructure/policy\<close>, \<^verbatim>\<open>main.rs\<close>): the three backends under the contracts
    \<^verbatim>\<open>policy_backend\<close> and \<^verbatim>\<open>reloadable\<close>, the choice of the engine, and its reloads by signal and by watching the file
    (\<^verbatim>\<open>watch_step\<close>, in which a reload reads and stores in separate steps): a reported edit is caught up with unless a reload by
    signal is under way, and such a reload can put the old policy back.
  \<^item> \<^verbatim>\<open>Audit_Bridge\<close>, \<^verbatim>\<open>Server_Life\<close> (\<^verbatim>\<open>infrastructure/audit\<close>, \<^verbatim>\<open>setup/bootstrap\<close>, \<^verbatim>\<open>main.rs\<close>): record encoding, sink, outbox and scheduler
    as \<^verbatim>\<open>bridge_run\<close>; the supervisor and the life of the process as \<^verbatim>\<open>server_step\<close>.  The locales \<^verbatim>\<open>record_appender\<close> and
    \<^verbatim>\<open>audit_bridge\<close> state what the bridge needs of an appender and are interpreted on the pipeline of the audit crate.
  \<^item> \<^verbatim>\<open>Server_Config\<close>, \<^verbatim>\<open>Server_Boot\<close> (\<^verbatim>\<open>setup\<close>, \<^verbatim>\<open>main.rs\<close>): configuration, validation, loading, observability, readiness, and
    \<^verbatim>\<open>startup\<close> from the environment to the assembled server.  The panics of loading, validating, building the policy, parsing
    addresses and identifiers, TLS, metrics, connecting and creating the log are values of \<^verbatim>\<open>boot_failure\<close>; those of the
    proxy's container, which runs its providers when a request first needs them, are values of the routes.
  \<^item> \<^verbatim>\<open>Standalone\<close>: the proxy and the audit service as programs of their own, and the metrics recorders.
  \<^item> This theory: a request that a started server forwards is clean, and equal roots mean equal decisions.

  \<^bold>\<open>Correspondence.\<close>  Structs are records, enums datatypes, with a prefix per type where fields would clash.  Errors are
  the left of a sum.  Stateful code passes its state; concurrent tasks are steps of an inductive relation and
  run in any interleaving.  An outer \<^term>\<open>None\<close> is a call that does not return.  The loops of the Merkle
  services, of masking and of draining the signal channel are partial functions, and that they return is
  proved (for the Merkle services exactly up to \<open>2^63\<close> leaves); no definition uses fuel.  Sizes and indices
  of the tree are 64-bit words, addresses 32 and 128 bits; lengths of byte strings and durations are natural numbers.

  \<^bold>\<open>Parameters.\<close>  Code outside the repository is an argument: hash functions, ed25519 and AEAD ciphers,
  regular expressions, reading and printing JSON, URL parsing, name resolution, the calendar, Redis, the HTTP client,
  tokio's channels and semaphore, the rate limiter, the CEL and Rego interpreters, TOML and the layered configuration,
  the file watcher, TLS and the exporters.  What is relied on is a named hypothesis (\<^verbatim>\<open>mpsc_laws\<close>, \<^verbatim>\<open>closing_laws\<close>,
  \<^verbatim>\<open>signal_laws\<close>, \<^verbatim>\<open>drains\<close>, \<^verbatim>\<open>semaphore_laws\<close>, \<^verbatim>\<open>ed25519_correct\<close>, \<^verbatim>\<open>prints_apart\<close> and the like), and each property that has one
  comes with an instance in which it holds.

  \<^bold>\<open>Not modelled.\<close>
  \<^item> Row locks: the statements of one request are not interleaved with those of another, so nothing is said about
    two writers of the same log in flight at once.
  \<^item> Streaming: a response is a list of frames, so time between frames, back-pressure and a client that goes away are not seen.
    The pruning task of the rate limiter only frees memory of the library and is left out.
  \<^item> The dependency-injection container: which object is handed out is in the definitions, and for the proxy that a provider may panic;
    that a request turned away by a layer never gets to that panic is not.  The PostgreSQL providers and the newtype handles have no other content.
  \<^item> Path matching and deserialisation of HTTP parameters (axum, serde): the audit routes start at the matched request.
  \<^item> Failures to install the log subscriber or to bind the listener, which end the process.
  \<^item> Log lines, spans, the length of sleeps, and wiping keys from memory, which no definition can observe.
  \<^item> Tests, examples, documents and deployment files.
\<close>

section \<open>Decisions and roots\<close>

text \<open>A trail that lost nothing and is drained: the log began empty, every decision was enqueued and appended.\<close>

definition complete_trail ::
    "serde \<Rightarrow> (uuid \<Rightarrow> string) \<Rightarrow> 'c mpsc \<Rightarrow> ('c \<Rightarrow> bytes list) \<Rightarrow> full_policy \<Rightarrow> hasher \<Rightarrow> log_id \<Rightarrow>
      server checkpoint_scheduler \<Rightarrow> bridge_event list \<Rightarrow> ('c, server) bridge \<Rightarrow> bool" where
  "complete_trail sj su mp q pol h i cs tr b \<longleftrightarrow>
    (\<exists>b0. bridge_run sj su mp pol (server_outbox h i) cs b0 tr b \<and> q (br_chan b0) = [] \<and>
      server_valid h i (br_state b0) \<and> log_leaves i (br_state b0) = []) \<and>
    mpsc_laws mp q \<and> q (br_chan b) = [] \<and> filter is_loss tr = [] \<and> list_all (\<lambda>(c, e, v). usize_sized e) (over enqueued_of tr)"

abbreviation decision :: "inspection_context \<times> agent_event \<times> agent_event verdict \<Rightarrow> inspection_context \<times> agent_event \<times> string" where
  "decision x \<equiv> (case x of (c, e, v) \<Rightarrow> (c, e, verdict_label v))"

lemma lossless_logged: "filter is_loss tr = [] \<Longrightarrow> over logged_of tr = over drained_of tr"
proof (induction tr)
  case (Cons x tr)
  then show ?case by (cases x rule: logged_of.cases) (simp_all split: if_splits)
qed simp

lemma complete_trail_log:
  assumes "complete_trail sj su mp q pol h i (server_scheduler j be h st key i) tr b"
  shows "over logged_of tr = map (record_of sj su) (over enqueued_of tr)"
    and "digests_of h (w_db (sv_world (br_state b))) i = map (leaf h) (over logged_of tr)"
    and "length (over logged_of tr) \<le> 2 ^ 63"
proof -
  from assms obtain b0 where run: "bridge_run sj su mp pol (server_outbox h i) (server_scheduler j be h st key i) b0 tr b"
    and start: "q (br_chan b0) = []" "server_valid h i (br_state b0)" "log_leaves i (br_state b0) = []"
    and rest: "mpsc_laws mp q" "q (br_chan b) = []" "filter is_loss tr = []"
    unfolding complete_trail_def by blast
  note acc = server_bridge.run_accounts [OF run rest(1) start(1,2)]
  show logged: "over logged_of tr = map (record_of sj su) (over enqueued_of tr)"
    using acc rest(2) lossless_logged [OF rest(3)] by simp
  from acc obtain rs where "log_leaves i (br_state b) = log_leaves i (br_state b0) @ map (\<lambda>r. dg_bytes (leaf h r)) rs"
      "subseq (over logged_of tr) rs" "subseq rs (over drained_of tr)" by blast
  then have leaves: "log_leaves i (br_state b) = map (\<lambda>r. dg_bytes (leaf h r)) (over logged_of tr)"
    using subseq_order.antisym [of rs "over logged_of tr"] start(3) lossless_logged [OF rest(3)] by simp
  show "digests_of h (w_db (sv_world (br_state b))) i = map (leaf h) (over logged_of tr)"
    unfolding digests_of_def leaves by (simp add: leaf_digest)
  have "length (log_leaves i (br_state b)) \<le> 2 ^ 63" using acc unfolding server_valid_def by blast
  then show "length (over logged_of tr) \<le> 2 ^ 63" unfolding leaves by simp
qed

lemma records_decisions:
  assumes "prints_apart sj" and "inj su"
  shows "list_all (\<lambda>(c, e, v). usize_sized e) xs \<Longrightarrow> list_all (\<lambda>(c, e, v). usize_sized e) ys \<Longrightarrow>
    map (record_of sj su) xs = map (record_of sj su) ys \<Longrightarrow> map decision xs = map decision ys"
proof (induction xs arbitrary: ys)
  case (Cons x xs)
  from Cons.prems(3) obtain y zs where ys: "ys = y # zs" by (cases ys) simp_all
  obtain c e v c' e' v' where x: "x = (c, e, v)" and y: "y = (c', e', v')" by (metis prod_cases3)
  from Cons.prems x y ys have "encode_record sj su c e v = encode_record sj su c' e' v'" "usize_sized e" "usize_sized e'" by simp_all
  with encode_record_eq [OF assms] have "decision x = decision y" by (simp add: x y)
  with Cons ys show ?case by simp
qed simp

text \<open>C1: The root of the log commits to what was decided.  If two complete audit trails, of any two servers and
  however their tasks interleaved, end with logs of the same size whose Merkle roots agree, then the
  same decisions were taken in the same order, each for the same session, run, event and kind of verdict; otherwise
  \<^verbatim>\<open>trail_collision\<close> computes two inputs on which the hash function collides.\<close>

theorem root_commits_to_decisions:
  assumes "prints_apart sj" and "inj su" and "fixed_width h d"
    and t: "complete_trail sj su mp q pol h i (server_scheduler j be h st key i) tr b"
    and t': "complete_trail sj su mp' q' pol' h i' (server_scheduler j' be' h st' key' i') tr' b'"
    and "length (log_leaves i (br_state b)) = length (log_leaves i' (br_state b'))"
    and "merkle_root h (digests_of h (w_db (sv_world (br_state b))) i) = Some r"
    and "merkle_root h (digests_of h (w_db (sv_world (br_state b'))) i') = Some r'"
    and "dg_bytes r = dg_bytes r'"
  shows "map decision (over enqueued_of tr) = map decision (over enqueued_of tr') \<or>
    (\<exists>c. trail_collision h (over logged_of tr) (over logged_of tr') = Some c \<and> hash_collision h c)"
proof -
  note l = complete_trail_log [OF t] and l' = complete_trail_log [OF t']
  have len: "length (over logged_of tr) = length (over logged_of tr')"
    using assms(6) arg_cong [OF l(2), of length] arg_cong [OF l'(2), of length] by (simp add: digests_of_def)
  have "r = mth h (map (leaf h) (over logged_of tr))" "r' = mth h (map (leaf h) (over logged_of tr'))"
    using assms(7,8) merkle_root_eq [of "map (leaf h) (over logged_of tr)" h]
      merkle_root_eq [of "map (leaf h) (over logged_of tr')" h] l(3) l'(3) unfolding l(2) l'(2) by simp_all
  with assms(9) have tree: "dg_bytes (mth h (map (leaf h) (over logged_of tr))) = dg_bytes (mth h (map (leaf h) (over logged_of tr')))"
    by simp
  have "list_all (\<lambda>(c, e, v). usize_sized e) (over enqueued_of tr)" "list_all (\<lambda>(c, e, v). usize_sized e) (over enqueued_of tr')"
    using t t' unfolding complete_trail_def by blast+
  with records_decisions [OF assms(1,2)] equal_roots_equal_records [OF assms(3) len tree] l(1) l'(1)
  show ?thesis by metis
qed

abbreviation demo_trail :: "bridge_event list" where
  "demo_trail \<equiv> [demo_offered, Drained demo_record (Inr 0)]"

lemma demo_trail_complete:
  obtains b where "complete_trail tagged_serde unary_uuid demo_mpsc (\<lambda>ch. ch) FP_Block demo_hasher 7
    (server_scheduler demo_jiff demo_ed25519 demo_hasher None ''k'' 7) demo_trail b"
proof -
  obtain b where run: "demo_run_of (demo_world []) [] demo_trail b" using demo_drain by blast
  note acc = server_bridge.run_accounts [OF run demo_mpsc_laws demo_bridge_chan demo_bridge_valid]
  have "complete_trail tagged_serde unary_uuid demo_mpsc (\<lambda>ch. ch) FP_Block demo_hasher 7
    (server_scheduler demo_jiff demo_ed25519 demo_hasher None ''k'' 7) demo_trail b"
    unfolding complete_trail_def using run acc demo_mpsc_laws
    by (intro conjI exI [of _ "demo_bridge (demo_world []) []"]) (simp_all add: demo_bridge_valid, simp add: demo_bridge_def)
  then show thesis by (rule that)
qed

theorem root_commits_to_decisions_witness:
  "\<exists>b r. complete_trail tagged_serde unary_uuid demo_mpsc (\<lambda>ch. ch) FP_Block demo_hasher 7
      (server_scheduler demo_jiff demo_ed25519 demo_hasher None ''k'' 7) demo_trail b \<and>
    merkle_root demo_hasher (digests_of demo_hasher (w_db (sv_world (br_state b))) 7) = Some r \<and>
    (map decision (over enqueued_of demo_trail) = [(demo_context, E_Opaque Raw, ''allow'')] \<or>
     (\<exists>c. trail_collision demo_hasher (over logged_of demo_trail) (over logged_of demo_trail) = Some c \<and> hash_collision demo_hasher c))"
proof -
  obtain b where t: "complete_trail tagged_serde unary_uuid demo_mpsc (\<lambda>ch. ch) FP_Block demo_hasher 7
    (server_scheduler demo_jiff demo_ed25519 demo_hasher None ''k'' 7) demo_trail b" by (rule demo_trail_complete)
  have r: "merkle_root demo_hasher (digests_of demo_hasher (w_db (sv_world (br_state b))) 7) =
      Some (mth demo_hasher (map (leaf demo_hasher) (over logged_of demo_trail)))"
    unfolding complete_trail_log(2) [OF t] by (rule merkle_root_eq) simp
  from root_commits_to_decisions [OF tagged_serde_prints_apart inj_unary_uuid demo_fixed_width t t refl r r refl] t r
  show ?thesis by (intro exI conjI) auto
qed

section \<open>What reaches the agent\<close>












lemma demo_dp_simps [simp]: "dp_url demo_plane = (\<lambda>_. None)" "tokio_resolve (dp_lookup demo_plane) = (\<lambda>_. [])" "dp_late demo_plane = (\<lambda>_ _ _. False)"
    "dp_body demo_plane = (\<lambda>_ b. Inr b)" "dp_semaphore demo_plane = demo_semaphore" "dp_limiter demo_plane = demo_limiter" "dp_client demo_plane = (\<lambda>_ _. Inr ())" "dp_redis_client demo_plane = None"
  by (simp_all add: demo_plane_def tokio_resolve_def fun_eq_iff)













end
